(* ===== verification/Prelude.thy ===== *)
theory Prelude
  imports Main "HOL-Library.Word" "HOL-Library.Code_Target_Nat"
begin

text \<open>
  Shared vocabulary of the development: the types that every component uses, the collections of
  rewrite rules the component proofs draw on, and generic lemmas on lists.

  A byte of a Python \<open>bytes\<close> object is an 8-bit word.  A text line that crossed the wire was
  decoded with \<open>decode("ascii", errors="replace")\<close>, so its characters are the 128 ASCII characters
  and U+FFFD; the model writes such a text as a \<open>string\<close> and stands \<open>CHR 0xFF\<close> for U+FFFD.
  Times are integers, in milliseconds.
\<close>

unbundle bit_operations_syntax

type_synonym byte = "8 word"
type_synonym u32 = "32 word"
type_synonym msec = int

named_theorems const_defs \<open>values of the constants of const.py and flow.py\<close>
named_theorems wordy \<open>texts that hold no white space and are not empty\<close>

text \<open>What one pass through the body of a \<open>while True\<close> loop comes to: it leaves the loop (\<open>return\<close>,
  \<open>raise\<close> or \<open>break\<close>) or starts over with new values of the variables.\<close>

datatype ('s, 'r) pass = Leave 'r | Again 's

subsection \<open>Lists\<close>

lemma take_drop_slice: "a \<le> b \<Longrightarrow> take (b - a) (drop a xs) = drop a (take b xs)"
  by (simp add: drop_take)

lemma takeWhile_append_stop:
  "\<lbrakk>\<And>x. x \<in> set xs \<Longrightarrow> P x; \<not> P y\<rbrakk> \<Longrightarrow> takeWhile P (xs @ y # ys) = xs"
  by (induction xs) auto

lemma dropWhile_append_stop:
  "\<lbrakk>\<And>x. x \<in> set xs \<Longrightarrow> P x; \<not> P y\<rbrakk> \<Longrightarrow> dropWhile P (xs @ y # ys) = y # ys"
  by (induction xs) auto

lemma takeWhile_eq_all: "(\<And>x. x \<in> set xs \<Longrightarrow> P x) \<Longrightarrow> takeWhile P xs = xs"
  by (induction xs) auto

lemma sum_cases:
  "(\<And>e. r = Inl e \<Longrightarrow> P) \<Longrightarrow> (\<And>v. r = Inr v \<Longrightarrow> P) \<Longrightarrow> P"
  by (cases r) auto

lemma foldl_inj_state:
  assumes "\<And>x. inj (\<lambda>s. f s x)" and "foldl f s xs = foldl f t xs"
  shows "s = t"
  using assms(2)
proof (induction xs arbitrary: s t)
  case (Cons x xs)
  then have "f s x = f t x" by simp
  with assms(1) show ?case by (blast dest: injD)
qed simp

subsection \<open>Codecs\<close>

text \<open>The contract of a wire format: what is written of a valid value is read back.\<close>

locale codec =
  fixes encode :: "'a \<Rightarrow> 'b" and decode :: "'b \<Rightarrow> 'a option" and valid :: "'a \<Rightarrow> bool"
  assumes decode_encode: "valid x \<Longrightarrow> decode (encode x) = Some x"
begin

lemma inject: "valid x \<Longrightarrow> valid y \<Longrightarrow> encode x = encode y \<longleftrightarrow> x = y"
  by (metis decode_encode option.inject)

lemma encode_inj: "inj_on encode (Collect valid)"
  by (rule inj_onI) (simp add: inject)

end

end
