(* ===== verification/PyStr.thy ===== *)
theory PyStr
  imports Prelude
begin

text \<open>
  The string operations of Python that the protocol code uses: \<open>str.split()\<close>, \<open>str.isdecimal()\<close>,
  \<open>int(s)\<close>, \<open>str(n)\<close>, \<open>str.upper()\<close>, \<open>str.strip(c)\<close>, \<open>str.startswith(p)\<close>, \<open>str.partition(c)\<close>,
  and the ASCII codec in both directions.  A line \<open>f"A {x} {y}"\<close> is written
  \<open>unwords [''A'', x, y]\<close>.
\<close>

subsection \<open>White space and splitting\<close>

text \<open>\<open>str.isspace\<close> on ASCII: tab to carriage return, the separators 0x1C to 0x1F, and space.\<close>

definition is_space :: "char \<Rightarrow> bool" where
  "is_space c \<longleftrightarrow> (let n = of_char c :: nat in (9 \<le> n \<and> n \<le> 13) \<or> (28 \<le> n \<and> n \<le> 32))"

function split_ws :: "string \<Rightarrow> string list" where
  "split_ws s =
     (let t = dropWhile is_space s
      in if t = [] then []
         else takeWhile (\<lambda>c. \<not> is_space c) t # split_ws (dropWhile (\<lambda>c. \<not> is_space c) t))"
  by pat_completeness auto
termination
proof (relation "measure length", goal_cases)
  case (2 s t)
  then have t: "t = dropWhile is_space s" "t \<noteq> []" by simp_all
  then have "\<not> is_space (hd t)" by (simp add: hd_dropWhile)
  with t(2) obtain c r where "t = c # r" "\<not> is_space c" by (cases t) auto
  then have "length (dropWhile (\<lambda>c. \<not> is_space c) t) < length t"
    by (simp add: le_imp_less_Suc length_dropWhile_le)
  moreover have "length t \<le> length s" using t(1) by (simp add: length_dropWhile_le)
  ultimately show ?case by simp
qed simp

declare split_ws.simps [simp del]

primrec unwords :: "string list \<Rightarrow> string" where
  "unwords [] = []"
| "unwords (w # ws) = (if ws = [] then w else w @ CHR '' '' # unwords ws)"

text \<open>A word: not empty and without white space, so that \<open>split()\<close> gives it back whole.\<close>

definition word_ok :: "string \<Rightarrow> bool" where
  "word_ok w \<longleftrightarrow> w \<noteq> [] \<and> (\<forall>c \<in> set w. \<not> is_space c)"

lemma is_space_blank [simp]: "is_space CHR '' ''"
  by (simp add: is_space_def)

lemma split_ws_Nil [simp]: "split_ws [] = []"
  by (subst split_ws.simps) simp

lemma split_ws_word:
  assumes "word_ok w"
  shows "split_ws w = [w]"
proof -
  from assms have "dropWhile is_space w = w" "w \<noteq> []"
    by (auto simp: word_ok_def neq_Nil_conv)
  moreover from assms have "takeWhile (\<lambda>c. \<not> is_space c) w = w"
    and "dropWhile (\<lambda>c. \<not> is_space c) w = []"
    by (auto simp: word_ok_def intro: takeWhile_eq_all)
  ultimately show ?thesis by (subst split_ws.simps) (simp only: Let_def if_False split_ws_Nil)
qed

lemma split_ws_append:
  assumes "word_ok w"
  shows "split_ws (w @ CHR '' '' # s) = w # split_ws s"
proof -
  from assms obtain c r where w: "w = c # r" "\<not> is_space c"
    by (auto simp: word_ok_def neq_Nil_conv)
  have ns: "\<And>x. x \<in> set w \<Longrightarrow> \<not> is_space x" using assms by (simp add: word_ok_def)
  have "split_ws (w @ CHR '' '' # s) = w # split_ws (CHR '' '' # s)"
    using w takeWhile_append_stop [of w "\<lambda>c. \<not> is_space c" "CHR '' ''" s]
      dropWhile_append_stop [of w "\<lambda>c. \<not> is_space c" "CHR '' ''" s] ns
    by (subst split_ws.simps) simp
  also have "split_ws (CHR '' '' # s) = split_ws s"
    by (subst split_ws.simps, subst (2) split_ws.simps) simp
  finally show ?thesis .
qed

theorem split_ws_unwords: "list_all word_ok ws \<Longrightarrow> split_ws (unwords ws) = ws"
  by (induction ws) (auto simp: split_ws_word split_ws_append)

subsection \<open>Decimal numbers\<close>

definition is_digit :: "char \<Rightarrow> bool" where
  "is_digit c \<longleftrightarrow> (let n = of_char c :: nat in 48 \<le> n \<and> n \<le> 57)"

definition isdecimal :: "string \<Rightarrow> bool" where
  "isdecimal s \<longleftrightarrow> s \<noteq> [] \<and> list_all is_digit s"

definition digit_val :: "char \<Rightarrow> nat" where
  "digit_val c = of_char c - 48"

definition int_of :: "string \<Rightarrow> nat" where
  "int_of s = foldl (\<lambda>n c. 10 * n + digit_val c) 0 s"

definition digit_char :: "nat \<Rightarrow> char" where
  "digit_char d = char_of (48 + d)"

fun str_of :: "nat \<Rightarrow> string" where
  "str_of n = (if n < 10 then [digit_char n] else str_of (n div 10) @ [digit_char (n mod 10)])"

declare str_of.simps [simp del]

lemma digit_char_digit: "d < 10 \<Longrightarrow> is_digit (digit_char d)"
  by (simp add: is_digit_def digit_char_def of_char_of)

lemma digit_val_digit_char: "d < 10 \<Longrightarrow> digit_val (digit_char d) = d"
  by (simp add: digit_val_def digit_char_def of_char_of)

lemma isdecimal_str_of [simp]: "isdecimal (str_of n)"
proof (induction n rule: str_of.induct)
  case (1 n)
  then show ?case
    by (cases "n < 10"; subst str_of.simps) (simp_all add: isdecimal_def digit_char_digit)
qed

lemma int_of_snoc: "int_of (s @ [c]) = 10 * int_of s + digit_val c"
  by (simp add: int_of_def)

theorem int_of_str_of [simp]: "int_of (str_of n) = n"
proof (induction n rule: str_of.induct)
  case (1 n)
  show ?case
  proof (cases "n < 10")
    case True
    then show ?thesis by (subst str_of.simps) (simp add: int_of_def digit_val_digit_char)
  next
    case False
    with 1 show ?thesis by (subst str_of.simps) (simp add: int_of_snoc digit_val_digit_char)
  qed
qed

interpretation decimal: codec str_of "\<lambda>t. if isdecimal t then Some (int_of t) else None" "\<lambda>n. True"
  by unfold_locales simp

lemma str_of_inject [simp]: "str_of m = str_of n \<longleftrightarrow> m = n"
  by (rule decimal.inject) simp_all

lemma digit_not_space: "is_digit c \<Longrightarrow> \<not> is_space c"
  by (auto simp: is_digit_def is_space_def Let_def)

lemma isdecimal_word_ok: "isdecimal s \<Longrightarrow> word_ok s"
  by (auto simp: isdecimal_def word_ok_def list_all_iff digit_not_space)

lemma word_ok_str_of [wordy, simp]: "word_ok (str_of n)"
  by (simp add: isdecimal_word_ok)

subsection \<open>Other operations\<close>

definition startswith :: "string \<Rightarrow> string \<Rightarrow> bool" where
  "startswith s p \<longleftrightarrow> take (length p) s = p"

definition strip_chars :: "char \<Rightarrow> string \<Rightarrow> string" where
  "strip_chars c s = rev (dropWhile ((=) c) (rev (dropWhile ((=) c) s)))"

definition upper_char :: "char \<Rightarrow> char" where
  "upper_char c = (let n = of_char c :: nat in if 97 \<le> n \<and> n \<le> 122 then char_of (n - 32) else c)"

definition upper :: "string \<Rightarrow> string" where
  "upper s = map upper_char s"

text \<open>\<open>s.partition(c)\<close>: the part before the first \<open>c\<close>, whether there was one, the part after.\<close>

definition partition_at :: "char \<Rightarrow> string \<Rightarrow> string \<times> bool \<times> string" where
  "partition_at c s =
     (let k = takeWhile (\<lambda>x. x \<noteq> c) s; r = dropWhile (\<lambda>x. x \<noteq> c) s
      in case r of [] \<Rightarrow> (k, False, []) | _ # v \<Rightarrow> (k, True, v))"

definition isascii :: "string \<Rightarrow> bool" where
  "isascii s \<longleftrightarrow> list_all (\<lambda>c. (of_char c :: nat) < 128) s"

text \<open>\<open>bytes.decode("ascii", errors="replace")\<close> and \<open>str.encode("ascii")\<close>.\<close>

definition decode_byte :: "byte \<Rightarrow> char" where
  "decode_byte b = (if unat b < 128 then char_of (unat b) else CHR 0xFF)"

definition decode_ascii :: "byte list \<Rightarrow> string" where
  "decode_ascii bs = map decode_byte bs"

definition encode_ascii :: "string \<Rightarrow> byte list" where
  "encode_ascii s = map (\<lambda>c. word_of_nat (of_char c)) s"

lemma decode_encode_char:
  assumes "(of_char c :: nat) < 128"
  shows "decode_byte (word_of_nat (of_char c)) = c"
  using assms by (simp add: decode_byte_def unat_of_nat)

lemma decode_encode: "isascii s \<Longrightarrow> decode_ascii (encode_ascii s) = s"
  by (induction s)
    (simp_all add: isascii_def decode_ascii_def encode_ascii_def decode_encode_char)

lemma partition_at_key:
  assumes "c \<notin> set k"
  shows "partition_at c (k @ c # v) = (k, True, v)"
proof -
  have ne: "\<And>x. x \<in> set k \<Longrightarrow> x \<noteq> c" using assms by blast
  have "takeWhile (\<lambda>x. x \<noteq> c) (k @ c # v) = k"
    by (rule takeWhile_append_stop) (simp_all add: ne)
  moreover have "dropWhile (\<lambda>x. x \<noteq> c) (k @ c # v) = c # v"
    by (rule dropWhile_append_stop) (simp_all add: ne)
  ultimately show ?thesis by (simp add: partition_at_def)
qed

end
