(* ===== verification/Errors.thy ===== *)
theory Errors
  imports PyStr
begin

text \<open>
  The error types of \<open>errors.py\<close>.  An exception is a value: its class, its wire \<open>code\<close> and its
  \<open>detail\<close>; the human-readable message only reaches a log and is left out.  Exceptions of the
  standard library that the code raises or catches have a constructor of their own.
\<close>

datatype err_class =
    PcutpError | VersionError | UrlError | HttpError | DnsError | SizeError | StorageError
  | FileError | WriteError | TimeoutErr | RetryError | ProtocolError | LinkLostError

datatype exn =
    Pcutp err_class string string \<comment> \<open>class, code, detail\<close>
  | OSErr
  | ValueErr
  | HttpException \<comment> \<open>\<open>http.client.HTTPException\<close>\<close>

fun class_code :: "err_class \<Rightarrow> string" where
  "class_code PcutpError = ''PROTOCOL''"
| "class_code VersionError = ''VERSION''"
| "class_code UrlError = ''URL''"
| "class_code HttpError = ''HTTP''"
| "class_code DnsError = ''DNS''"
| "class_code SizeError = ''SIZE''"
| "class_code StorageError = ''STORAGE''"
| "class_code FileError = ''FILE''"
| "class_code WriteError = ''WRITE''"
| "class_code TimeoutErr = ''TIMEOUT''"
| "class_code RetryError = ''RETRY''"
| "class_code ProtocolError = ''PROTOCOL''"
| "class_code LinkLostError = ''LINKLOST''"

text \<open>\<open>PcutpError.__init__\<close>: a \<open>code\<close> argument overrides the class's.\<close>

definition mk_error :: "err_class \<Rightarrow> string option \<Rightarrow> string \<Rightarrow> exn" where
  "mk_error cls code detail =
     Pcutp cls (case code of None \<Rightarrow> class_code cls | Some c \<Rightarrow> c) detail"

abbreviation error :: "err_class \<Rightarrow> exn" where
  "error cls \<equiv> mk_error cls None ''''"

fun wire :: "exn \<Rightarrow> string" where
  "wire (Pcutp cls code detail) =
     ''ERR '' @ code @ (if detail \<noteq> '''' then '' '' @ detail else '''')"
| "wire OSErr = ''''"
| "wire ValueErr = ''''"
| "wire HttpException = ''''"

fun is_pcutp :: "exn \<Rightarrow> bool" where
  "is_pcutp (Pcutp _ _ _) = True"
| "is_pcutp _ = False"

fun is_class :: "err_class \<Rightarrow> exn \<Rightarrow> bool" where
  "is_class cls (Pcutp c _ _) = (cls = PcutpError \<or> c = cls)"
| "is_class cls _ = False"

text \<open>The classes can be enumerated, so that a statement about all of them is checked by evaluation.\<close>

instantiation err_class :: enum
begin

definition enum_err_class :: "err_class list" where
  "enum_err_class = [PcutpError, VersionError, UrlError, HttpError, DnsError, SizeError, StorageError,
     FileError, WriteError, TimeoutErr, RetryError, ProtocolError, LinkLostError]"

definition enum_all_err_class :: "(err_class \<Rightarrow> bool) \<Rightarrow> bool" where
  "enum_all_err_class P = list_all P enum_class.enum"

definition enum_ex_err_class :: "(err_class \<Rightarrow> bool) \<Rightarrow> bool" where
  "enum_ex_err_class P = list_ex P enum_class.enum"

instance
proof
  have "x \<in> set enum_class.enum" for x :: err_class
    by (cases x) (simp_all add: enum_err_class_def)
  then show u: "UNIV = set (enum_class.enum :: err_class list)" by blast
  show "distinct (enum_class.enum :: err_class list)" by (simp add: enum_err_class_def)
  show "enum_class.enum_all P \<longleftrightarrow> Ball UNIV P" for P :: "err_class \<Rightarrow> bool"
    unfolding enum_all_err_class_def u by (simp add: list_all_iff)
  show "enum_class.enum_ex P \<longleftrightarrow> Bex UNIV P" for P :: "err_class \<Rightarrow> bool"
    unfolding enum_ex_err_class_def u by (simp add: list_ex_iff)
qed

end

lemma is_class_error [simp]: "is_class c (error d) \<longleftrightarrow> c = PcutpError \<or> c = d"
  by (auto simp: mk_error_def)

lemma is_pcutp_error [simp]: "is_pcutp (mk_error c k d)"
  by (simp add: mk_error_def)

lemma class_code_word [wordy, simp]: "word_ok (class_code c)"
proof -
  have "\<forall>c. word_ok (class_code c)" by code_simp
  then show ?thesis ..
qed

end
