(* ===== verification/Crc.thy ===== *)
theory Crc
  imports Errors
begin

unbundle bit_operations_syntax

text \<open>
  \<open>crc.py\<close>: CRC-32/ISO-HDLC and its eight-digit hexadecimal field.  \<open>zlib.crc32\<close> is the standard
  library's; it is modelled by its bitwise definition (reflected polynomial 0xEDB88320, register
  inverted on entry and exit).
\<close>

definition crc_shift :: "u32 \<Rightarrow> u32" where
  "crc_shift s = (if bit s 0 then drop_bit 1 s XOR 0xEDB88320 else drop_bit 1 s)"

primrec crc_shifts :: "nat \<Rightarrow> u32 \<Rightarrow> u32" where
  "crc_shifts 0 s = s"
| "crc_shifts (Suc n) s = crc_shifts n (crc_shift s)"

definition crc_byte :: "u32 \<Rightarrow> byte \<Rightarrow> u32" where
  "crc_byte s b = crc_shifts 8 (s XOR ucast b)"

definition zlib_crc32 :: "byte list \<Rightarrow> u32 \<Rightarrow> u32" where
  "zlib_crc32 data seed = NOT (foldl crc_byte (NOT seed) data)"

definition crc32 :: "byte list \<Rightarrow> u32 \<Rightarrow> u32" where
  "crc32 data seed = zlib_crc32 data seed"

definition hex_digit :: "nat \<Rightarrow> char" where
  "hex_digit d = (if d < 10 then char_of (48 + d) else char_of (55 + d))"

text \<open>\<open>f"{v:08X}"\<close> for a value below \<open>2 ^ 32\<close>: eight digits, most significant first.\<close>

definition hex8 :: "u32 \<Rightarrow> string" where
  "hex8 v = map (\<lambda>i. hex_digit (unat (drop_bit (4 * i) v AND 15))) (rev [0..<8])"

definition crc32_hex :: "byte list \<Rightarrow> u32 \<Rightarrow> string" where
  "crc32_hex data seed = hex8 (crc32 data seed)"

definition to_hex :: "int \<Rightarrow> string" where
  "to_hex v = hex8 (word_of_int v)"

definition is_hex_char :: "char \<Rightarrow> bool" where
  "is_hex_char c \<longleftrightarrow> c \<in> set ''0123456789abcdefABCDEF''"

definition hex_val :: "char \<Rightarrow> nat" where
  "hex_val c = (let n = of_char c in if n < 58 then n - 48 else if n < 71 then n - 55 else n - 87)"

definition parse_hex :: "string \<Rightarrow> exn + int" where
  "parse_hex text =
     (if length text \<noteq> 8 \<or> \<not> list_all is_hex_char text then Inl ValueErr
      else Inr (foldl (\<lambda>n c. 16 * n + int (hex_val c)) 0 text))"

subsection \<open>Streaming, and what the checksum detects\<close>

lemma crc32_append: "crc32 (a @ b) seed = crc32 b (crc32 a seed)"
  by (simp add: crc32_def zlib_crc32_def)

text \<open>
  One step of the register is invertible and linear over \<open>XOR\<close>.  So equal suffixes keep different
  registers apart, and up to four bytes enter the register as one 32-bit value: two payloads of
  one length that differ only within four consecutive bytes have different checksums.
\<close>

definition crc_unshift :: "u32 \<Rightarrow> u32" where
  "crc_unshift t = (if bit t 31 then push_bit 1 (t XOR 0xEDB88320) OR 1 else push_bit 1 t)"

lemma not_bit_32 [simp]: "\<not> bit (s :: u32) 32"
  by (auto dest: bit_imp_le_length)

lemma crc_unshift_shift: "crc_unshift (crc_shift s) = s"
proof (rule bit_word_eqI)
  fix n
  assume "n < LENGTH(32)"
  then show "bit (crc_unshift (crc_shift s)) n = bit s n"
    by (cases n)
      (auto simp: crc_unshift_def crc_shift_def bit_simps simp del: push_bit_Suc split: if_splits)
qed

lemma crc_shift_push:
  assumes "\<not> bit w 31"
  shows "crc_shift (push_bit 1 w) = w"
proof (rule bit_word_eqI)
  fix n
  assume "n < LENGTH(32)"
  with assms show "bit (crc_shift (push_bit 1 w)) n = bit w n"
    by (cases "n = 31") (auto simp: crc_shift_def bit_simps simp del: push_bit_Suc)
qed

lemma crc_shifts_inj: "crc_shifts n s = crc_shifts n t \<longleftrightarrow> s = t"
proof (induction n arbitrary: s t)
  case (Suc n)
  then show ?case by (metis crc_shifts.simps(2) crc_unshift_shift)
qed simp

lemma xor_right_cancel: "a XOR b = c XOR b \<longleftrightarrow> a = c" for a b c :: "'a::len word"
proof
  assume "a XOR b = c XOR b"
  then have "(a XOR b) XOR b = (c XOR b) XOR b" by (rule arg_cong)
  then show "a = c" by (simp add: xor.assoc)
qed simp

lemma xor_left_cancel: "a XOR b = a XOR c \<longleftrightarrow> b = c" for a b c :: "'a::len word"
  using xor_right_cancel [of b a c] by (simp add: xor.commute)

lemma crc_byte_inj_state: "crc_byte s b = crc_byte t b \<longleftrightarrow> s = t"
  by (simp add: crc_byte_def crc_shifts_inj xor_right_cancel)

lemma foldl_crc_inj_state: "foldl crc_byte s xs = foldl crc_byte t xs \<longleftrightarrow> s = t"
  by (induction xs arbitrary: s t) (simp_all add: crc_byte_inj_state)

lemma crc_shift_xor: "crc_shift (a XOR b) = crc_shift a XOR crc_shift b"
proof (rule bit_word_eqI)
  fix n
  show "bit (crc_shift (a XOR b)) n = bit (crc_shift a XOR crc_shift b) n"
    by (cases "bit a 0"; cases "bit b 0") (auto simp: crc_shift_def bit_simps)
qed

lemma crc_shifts_xor: "crc_shifts n (a XOR b) = crc_shifts n a XOR crc_shifts n b"
  by (induction n arbitrary: a b) (simp_all add: crc_shift_xor)

lemma crc_shifts_add: "crc_shifts (m + n) s = crc_shifts n (crc_shifts m s)"
  by (induction m arbitrary: s) simp_all

lemma crc_shifts_push:
  "(\<And>i. \<lbrakk>32 \<le> i + n; i < 32\<rbrakk> \<Longrightarrow> \<not> bit w i) \<Longrightarrow> crc_shifts n (push_bit n w) = w"
proof (induction n arbitrary: w)
  case (Suc n)
  have "push_bit (Suc n) w = push_bit 1 (push_bit n w)"
    by (rule bit_word_eqI) (auto simp: bit_simps simp del: push_bit_Suc)
  moreover have "\<not> bit (push_bit n w) 31"
    using Suc.prems [of "31 - n"] by (auto simp: bit_simps)
  moreover have "crc_shifts n (push_bit n w) = w"
    by (rule Suc.IH) (use Suc.prems in auto)
  ultimately show ?case by (simp only: crc_shifts.simps crc_shift_push not_False_eq_True)
qed simp

text \<open>Up to four bytes as one little-endian register value.\<close>

primrec le_word :: "byte list \<Rightarrow> u32" where
  "le_word [] = 0"
| "le_word (b # bs) = ucast b XOR push_bit 8 (le_word bs)"

lemma bit_le_word:
  "n < 32 \<Longrightarrow> bit (le_word bs) n \<longleftrightarrow> n div 8 < length bs \<and> bit (bs ! (n div 8)) (n mod 8)"
proof (induction bs arbitrary: n)
  case (Cons b bs)
  show ?case
  proof (cases "n < 8")
    case True
    then show ?thesis using Cons.prems by (auto simp: bit_simps simp del: push_bit_numeral)
  next
    case False
    then have "n div 8 = Suc ((n - 8) div 8)" "n mod 8 = (n - 8) mod 8"
      by (simp_all add: le_div_geq le_mod_geq)
    moreover have "\<not> bit b n" using False by (auto dest: bit_imp_le_length)
    ultimately show ?thesis using Cons.IH [of "n - 8"] Cons.prems False
      by (auto simp: bit_simps simp del: push_bit_numeral)
  qed
qed simp

lemma foldl_crc_le_word:
  "length bs \<le> 4 \<Longrightarrow> foldl crc_byte s bs = crc_shifts (8 * length bs) (s XOR le_word bs)"
proof (induction bs arbitrary: s)
  case (Cons b bs)
  have "crc_shifts 8 (push_bit 8 (le_word bs)) = le_word bs"
    using Cons.prems by (intro crc_shifts_push) (auto simp: bit_le_word)
  then have "crc_shifts 8 (s XOR le_word (b # bs)) = crc_byte s b XOR le_word bs"
    by (simp add: crc_byte_def crc_shifts_xor xor.assoc [symmetric])
  moreover have "8 * length (b # bs) = 8 + 8 * length bs" by simp
  ultimately show ?case using Cons
    by (simp only: crc_shifts_add) simp
qed simp

lemma le_word_inj:
  assumes "length xs = length ys" "length ys \<le> 4" "le_word xs = le_word ys"
  shows "xs = ys"
proof (rule nth_equalityI)
  fix i
  assume i: "i < length xs"
  show "xs ! i = ys ! i"
  proof (rule bit_word_eqI)
    fix k
    assume "k < LENGTH(8)"
    then have k: "8 * i + k < 32" "(8 * i + k) div 8 = i" "(8 * i + k) mod 8 = k"
      using i assms by auto
    then show "bit (xs ! i) k = bit (ys ! i) k"
      using bit_le_word [of "8 * i + k" xs] bit_le_word [of "8 * i + k" ys] assms i by simp
  qed
qed (use assms in simp)

lemma crc32_burst_iff:
  assumes "length xs = length ys" "length ys \<le> 4"
  shows "crc32 (pre @ xs @ post) seed = crc32 (pre @ ys @ post) seed \<longleftrightarrow> xs = ys"
proof -
  let ?s = "foldl crc_byte (NOT seed) pre"
  have "crc32 (pre @ xs @ post) seed = crc32 (pre @ ys @ post) seed
      \<longleftrightarrow> foldl crc_byte ?s xs = foldl crc_byte ?s ys"
    by (simp add: crc32_def zlib_crc32_def foldl_crc_inj_state)
  also have "\<dots> \<longleftrightarrow> ?s XOR le_word xs = ?s XOR le_word ys"
    using assms by (simp add: foldl_crc_le_word crc_shifts_inj)
  also have "\<dots> \<longleftrightarrow> xs = ys"
    using le_word_inj [OF assms] by (auto simp: xor_left_cancel)
  finally show ?thesis .
qed

subsection \<open>The hexadecimal field\<close>

lemma is_hex_digit: "d < 16 \<Longrightarrow> is_hex_char (hex_digit d)"
proof -
  assume "d < 16"
  then have "d \<in> {0..<16}" by simp
  then have "d \<in> set [0..<16]" by simp
  moreover have "list_all (\<lambda>d. is_hex_char (hex_digit d) \<and> hex_val (hex_digit d) = d) [0..<16]"
    by code_simp
  ultimately show ?thesis by (simp add: list_all_iff del: set_upt)
qed

lemma hex_val_digit: "d < 16 \<Longrightarrow> hex_val (hex_digit d) = d"
  by (auto simp: hex_val_def hex_digit_def of_char_of)

lemma nibble: "unat (drop_bit (4 * i) v AND 15) = unat v div 16 ^ i mod 16"
  for v :: u32
proof -
  have "drop_bit (4 * i) v AND 15 = take_bit 4 (drop_bit (4 * i) v)"
    by (simp add: take_bit_eq_mask mask_eq_exp_minus_1)
  then have "unat (drop_bit (4 * i) v AND 15) = take_bit 4 (unat (drop_bit (4 * i) v))"
    by (simp only: unsigned_take_bit_eq)
  also have "unat (drop_bit (4 * i) v) = unat v div 16 ^ i"
    by (simp only: unsigned_drop_bit_eq take_bit_nat_eq_self [OF unsigned_less])
      (simp add: drop_bit_eq_div power_mult)
  also have "take_bit 4 \<dots> = \<dots> mod 16"
    by (simp add: take_bit_eq_mod)
  finally show ?thesis .
qed

lemma foldl_digits:
  fixes f :: "nat \<Rightarrow> nat"
  shows "foldl (\<lambda>n c. 16 * n + int (hex_val c)) a (map (\<lambda>i. hex_digit (v div 16 ^ i mod 16)) (rev [0..<k]))
   = a * 16 ^ k + int (v mod 16 ^ k)"
proof (induction k arbitrary: a)
  case (Suc k)
  have "v mod 16 ^ Suc k = 16 ^ k * (v div 16 ^ k mod 16) + v mod 16 ^ k"
    by (simp only: power_Suc2 mod_mult2_eq)
  then have "int (v mod 16 ^ Suc k) = 16 ^ k * int (v div 16 ^ k mod 16) + int (v mod 16 ^ k)"
    by (simp only: of_nat_add of_nat_mult of_nat_power of_nat_numeral)
  then show ?case using Suc [of "16 * a + int (v div 16 ^ k mod 16)"]
    by (simp add: hex_val_digit algebra_simps del: of_nat_mod)
qed simp

theorem parse_hex_hex8: "parse_hex (hex8 v) = Inr (uint v)"
proof -
  have "hex8 v = map (\<lambda>i. hex_digit (unat v div 16 ^ i mod 16)) (rev [0..<8])"
    by (simp only: hex8_def nibble)
  moreover have "unat v < 2 ^ LENGTH(32)" by (rule unsigned_less)
  then have "unat v mod 16 ^ 8 = unat v" by simp
  ultimately show ?thesis
    by (simp add: parse_hex_def foldl_digits list_all_iff is_hex_digit del: upt_rec_numeral)
qed

definition hex_value :: "string \<Rightarrow> nat" where
  "hex_value t = foldl (\<lambda>n c. 16 * n + hex_val c) 0 t"

definition hex_digits :: "nat \<Rightarrow> nat \<Rightarrow> string" where
  "hex_digits k n = map (\<lambda>i. hex_digit (n div 16 ^ i mod 16)) (rev [0..<k])"

lemma hex_digits_Suc: "hex_digits (Suc k) n = hex_digits k (n div 16) @ [hex_digit (n mod 16)]"
proof -
  have "[0..<Suc k] = 0 # map Suc [0..<k]" by (simp add: map_Suc_upt upt_conv_Cons)
  then show ?thesis
    by (simp add: hex_digits_def rev_map o_def div_mult2_eq del: upt_Suc)
qed

lemma hex_char_facts:
  assumes "is_hex_char c"
  shows "hex_val c < 16" "hex_digit (hex_val c) = upper_char c"
proof -
  have "list_all (\<lambda>c. hex_val c < 16 \<and> hex_digit (hex_val c) = upper_char c)
      ''0123456789abcdefABCDEF''" by code_simp
  then show "hex_val c < 16" "hex_digit (hex_val c) = upper_char c"
    using assms unfolding is_hex_char_def list_all_iff by blast+
qed

lemma hex_digits_value:
  "list_all is_hex_char t \<Longrightarrow>
     hex_digits (length t) (hex_value t) = upper t \<and> hex_value t < 16 ^ length t"
proof (induction t rule: rev_induct)
  case (snoc c t)
  then show ?case
    using hex_char_facts [of c]
    by (simp add: hex_value_def hex_digits_Suc upper_def)
qed (simp add: hex_digits_def hex_value_def upper_def)

lemma foldl_int: "foldl (\<lambda>n c. 16 * n + int (hex_val c)) (int a) t = int (foldl (\<lambda>n c. 16 * n + hex_val c) a t)"
proof (induction t arbitrary: a)
  case (Cons c t)
  then show ?case using Cons [of "16 * a + hex_val c"] by simp
qed simp

lemma parse_hex_Inr:
  "parse_hex t = Inr v \<longleftrightarrow> length t = 8 \<and> list_all is_hex_char t \<and> v = int (hex_value t)"
  using foldl_int [of 0 t] by (auto simp: parse_hex_def hex_value_def)

lemma hex8_digits: "hex8 w = hex_digits 8 (unat w)"
  by (simp only: hex8_def hex_digits_def nibble)

theorem hex8_parse_hex:
  assumes "parse_hex t = Inr v"
  shows "to_hex v = upper t" "0 \<le> v" "v < 2 ^ 32"
proof -
  from assms have t: "length t = 8" "list_all is_hex_char t" "v = int (hex_value t)"
    by (simp_all add: parse_hex_Inr)
  with hex_digits_value [of t] have v: "hex_value t < 2 ^ 32" "hex_digits 8 (hex_value t) = upper t"
    by simp_all
  then show "0 \<le> v" "v < 2 ^ 32" using t(3) by simp_all
  have "unat (word_of_int v :: u32) = hex_value t"
    using v(1) t(3) by (simp add: unat_of_nat take_bit_nat_eq_self)
  then show "to_hex v = upper t" using v(2) by (simp add: to_hex_def hex8_digits)
qed

interpretation hex: codec hex8 "\<lambda>t. case parse_hex t of Inl e \<Rightarrow> None | Inr v \<Rightarrow> Some (word_of_int v :: u32)" "\<lambda>w. True"
  by unfold_locales (simp add: parse_hex_hex8)

lemma hex8_inject: "hex8 v = hex8 w \<longleftrightarrow> v = w"
  by (rule hex.inject) simp_all

subsection \<open>Evaluation\<close>

text \<open>For evaluation the register is a list of bits, lowest first.\<close>

definition crc_bits :: "u32 \<Rightarrow> bool list" where
  "crc_bits w = map (bit w) [0..<32]"

definition crc_word :: "bool list \<Rightarrow> u32" where
  "crc_word bs = word_of_int (horner_sum of_bool 2 bs)"

definition crc_poly :: "bool list" where
  "crc_poly = [False, False, False, False, False, True, False, False, True, True, False, False, False,
     False, False, True, False, False, False, True, True, True, False, True, True, False, True, True,
     False, True, True, True]"

fun bits_shift :: "bool list \<Rightarrow> bool list" where
  "bits_shift [] = []"
| "bits_shift (b # r) = (if b then map2 (\<noteq>) (r @ [False]) crc_poly else r @ [False])"

definition bits_byte :: "bool list \<Rightarrow> byte \<Rightarrow> bool list" where
  "bits_byte bs x = (bits_shift ^^ 8) (map2 (\<noteq>) (take 8 bs) (map (bit x) [0..<8]) @ drop 8 bs)"

lemma crc_bits_nth [simp]: "n < 32 \<Longrightarrow> crc_bits w ! n = bit w n" "length (crc_bits w) = 32"
  by (simp_all add: crc_bits_def)

lemma crc_word_bits: "crc_word (crc_bits w) = w"
proof -
  have "map (bit w) [0..<32] = map (bit (uint w)) [0..<32]" by (simp add: bit_uint_iff)
  moreover have "take_bit 32 (uint w) = uint w"
    using unsigned_less [of w] by (intro take_bit_int_eq_self) simp_all
  ultimately have "horner_sum of_bool 2 (map (bit w) [0..<32]) = uint w"
    using horner_sum_bit_eq_take_bit [of "uint w" 32] by (simp only:)
  then show ?thesis by (simp add: crc_word_def crc_bits_def)
qed

lemma crc_poly_bits: "crc_poly = crc_bits 0xEDB88320"
  by (simp add: crc_poly_def crc_bits_def upt_rec)

lemma crc_bits_Cons: "crc_bits w = bit w 0 # map (\<lambda>n. bit w (Suc n)) [0..<31]"
  by (rule nth_equalityI) (auto simp: nth_Cons split: nat.split)

lemma bit_top: "bit w (Suc i) \<Longrightarrow> i < 31" for w :: u32
  by (drule bit_imp_le_length) simp

lemma bits_shift_step: "bits_shift (crc_bits w) = crc_bits (crc_shift w)"
  by (rule nth_equalityI)
    (auto simp: crc_bits_Cons [of w] crc_poly_bits crc_shift_def nth_append bit_simps
      dest: bit_top)

lemma bits_shifts: "(bits_shift ^^ n) (crc_bits w) = crc_bits (crc_shifts n w)"
  by (induction n arbitrary: w) (simp_all add: bits_shift_step funpow_Suc_right del: funpow.simps(2))

lemma bits_byte_step: "bits_byte (crc_bits w) x = crc_bits (crc_byte w x)"
proof -
  have "map2 (\<noteq>) (take 8 (crc_bits w)) (map (bit x) [0..<8]) @ drop 8 (crc_bits w) = crc_bits (w XOR ucast x)"
    by (rule nth_equalityI) (auto simp: nth_append bit_simps dest: bit_imp_le_length)
  then show ?thesis by (simp add: bits_byte_def bits_shifts crc_byte_def)
qed

lemma foldl_bits_byte: "foldl bits_byte (crc_bits w) xs = crc_bits (foldl crc_byte w xs)"
  by (induction xs arbitrary: w) (simp_all add: bits_byte_step)

lemma crc_bits_NOT: "crc_bits (NOT w) = map Not (crc_bits w)"
  by (rule nth_equalityI) (simp_all add: bit_simps)

lemma zlib_crc32_code [code]:
  "zlib_crc32 data seed = crc_word (map Not (foldl bits_byte (map Not (crc_bits seed)) data))"
  by (simp only: zlib_crc32_def foldl_bits_byte crc_bits_NOT [symmetric] crc_word_bits)

text \<open>The bits of a number, read off its numeral, and its hexadecimal digits, four bits each.\<close>

primrec num_bits :: "num \<Rightarrow> bool list" where
  "num_bits num.One = [True]"
| "num_bits (num.Bit0 n) = False # num_bits n"
| "num_bits (num.Bit1 n) = True # num_bits n"

definition int_bits :: "int \<Rightarrow> bool list" where
  "int_bits k = (if k = 0 then [] else num_bits (num_of_nat (nat k)))"

lemma int_bits_code [code]: "int_bits 0 = []" "int_bits (Int.Pos n) = num_bits n"
  by (simp_all add: int_bits_def numeral_num_of_nat num_of_nat_numeral_eq)

lemma num_bits_nth: "i < length (num_bits n) \<and> num_bits n ! i \<longleftrightarrow> bit (numeral n :: int) i"
proof (induction n arbitrary: i)
  case One
  then show ?case by (cases i) (simp_all add: bit_1_iff)
next
  case (Bit0 n)
  then show ?case by (cases i) (simp_all add: bit_numeral_Bit0_Suc_iff)
next
  case (Bit1 n)
  then show ?case by (cases i) (simp_all add: bit_numeral_Bit1_Suc_iff)
qed

lemma int_bits_nth:
  assumes "0 \<le> k"
  shows "i < length (int_bits k) \<and> int_bits k ! i \<longleftrightarrow> bit k i"
proof (cases "k = 0")
  case False
  then have "k = numeral (num_of_nat (nat k))" using assms by (metis nat_0_iff nat_eq_iff2 not_le not_gr_zero numeral_num_of_nat of_nat_numeral order_antisym)
  then show ?thesis using False num_bits_nth [of i "num_of_nat (nat k)"] by (simp add: int_bits_def)
qed (simp add: int_bits_def)

lemma crc_bits_code [code]: "crc_bits w = take 32 (int_bits (uint w) @ replicate 32 False)"
proof (rule nth_equalityI)
  fix i assume "i < length (crc_bits w)"
  then show "crc_bits w ! i = take 32 (int_bits (uint w) @ replicate 32 False) ! i"
    using int_bits_nth [of "uint w" i] by (auto simp: nth_append bit_uint_iff)
qed simp

fun bit_digits :: "bool list \<Rightarrow> string" where
  "bit_digits (a # b # c # d # r) =
     bit_digits r @ [hex_digit (of_bool a + 2 * of_bool b + 4 * of_bool c + 8 * of_bool d)]"
| "bit_digits _ = []"

lemma nibble_bits:
  "n mod 16 = of_bool (bit n 0) + 2 * of_bool (bit n 1) + 4 * of_bool (bit n 2) + 8 * of_bool (bit n 3)"
  for n :: nat
proof -
  have "[0..<4] = [0, 1, 2, 3 :: nat]" by (simp add: upt_rec)
  then have "horner_sum of_bool 2 (map (bit n) [0, 1, 2, 3]) = take_bit 4 n"
    using horner_sum_bit_eq_take_bit [of n 4] by (simp only:)
  then show ?thesis by (simp add: take_bit_eq_mod)
qed

lemma bit_digits_hex: "bit_digits (map (bit n) [0..<4 * k]) = hex_digits k n" for n :: nat
proof (induction k arbitrary: n)
  case (Suc k)
  have "[0..<4 * Suc k] = [0..<4] @ map (\<lambda>i. i + 4) [0..<4 * k]"
    by (simp only: map_add_upt) (simp add: upt_add_eq_append [symmetric] add.commute)
  moreover have "bit n (i + 4) = bit (n div 16) i" for i
    by (simp add: bit_iff_odd power_add div_mult2_eq [symmetric] mult.commute)
  moreover have "[0..<4] = [0, 1, 2, 3 :: nat]" by (simp add: upt_rec)
  ultimately have m: "map (bit n) [0..<4 * Suc k] = bit n 0 # bit n 1 # bit n 2 # bit n 3 # map (bit (n div 16)) [0..<4 * k]"
    by (simp only: map_append list.map map_map o_def append_Cons append_Nil)
  show ?case unfolding m bit_digits.simps hex_digits_Suc Suc.IH nibble_bits [of n] ..
qed (simp add: hex_digits_def)

lemma hex8_code [code]: "hex8 w = bit_digits (crc_bits w)"
proof -
  have "crc_bits w = map (bit (unat w)) [0..<4 * 8]" by (simp add: crc_bits_def bit_unsigned_iff)
  then show ?thesis by (simp only: bit_digits_hex hex8_digits)
qed

subsection \<open>Properties\<close>

text \<open>C30: a checksum computed block by block, each call seeded with the last result, is the
  checksum of the whole file: this is what the receiver's \<open>running\<close> value relies on.\<close>

theorem crc32_streaming:
  "foldl (\<lambda>seed block. crc32 block seed) seed blocks = crc32 (concat blocks) seed"
proof (induction blocks arbitrary: seed)
  case Nil
  show ?case by (simp add: crc32_def zlib_crc32_def)
next
  case (Cons b bs)
  then show ?case by (simp add: crc32_append)
qed

text \<open>C13: line noise confined to four consecutive bytes of a payload always changes the checksum
  field of its header.\<close>

theorem crc_burst_detected:
  assumes "length xs = length ys" and "length ys \<le> 4" and "xs \<noteq> ys"
  shows "crc32_hex (pre @ xs @ post) seed \<noteq> crc32_hex (pre @ ys @ post) seed"
  using crc32_burst_iff [OF assms(1,2)] assms(3) by (simp add: crc32_hex_def hex8_inject)

theorem crc_burst_detected_witness:
  "crc32_hex ([7, 7] @ [1, 2] @ [9]) 0 \<noteq> crc32_hex ([7, 7] @ [1, 3] @ [9]) 0"
  by (rule crc_burst_detected) simp_all

text \<open>C31: the checksum field round trips: printing and parsing give the value back, and every field
  the parser accepts denotes a 32-bit value that prints as the field in upper case.\<close>

theorem crc_field_roundtrip:
  "parse_hex (crc32_hex data seed) = Inr (uint (crc32 data seed))
   \<and> (parse_hex t = Inr v \<longrightarrow> to_hex v = upper t \<and> 0 \<le> v \<and> v < 2 ^ 32)"
  using hex8_parse_hex [of t v] by (simp add: crc32_hex_def parse_hex_hex8)

theorem crc_field_roundtrip_witness:
  "parse_hex (crc32_hex [1] 0) = Inr (uint (crc32 [1] 0)) \<and> to_hex 255 = upper ''000000ff''"
proof -
  have "parse_hex ''000000ff'' = Inr 255" by code_simp
  then show ?thesis using crc_field_roundtrip [of "[1]" 0 "''000000ff''" 255] by blast
qed

lemma crc_test_vector: "crc32_hex [97] 0 = ''E8B7BE43''"
  by code_simp

end
