(* ===== verification/Names.thy ===== *)
theory Names
  imports Errors
begin

text \<open>
  \<open>names.py\<close> and the constants it uses.  The regular expression \<open>^[A-Za-z0-9._-]+$\<close> is used with
  \<open>match\<close>, where \<open>$\<close> also matches just before a newline that ends the text.
\<close>

definition MAX_FILENAME_LEN :: nat where [const_defs]: "MAX_FILENAME_LEN = 64"

definition LF :: char where "LF = CHR 0x0A"

definition allowed_char :: "char \<Rightarrow> bool" where
  "allowed_char c \<longleftrightarrow>
     (let n = of_char c :: nat
      in (65 \<le> n \<and> n \<le> 90) \<or> (97 \<le> n \<and> n \<le> 122) \<or> (48 \<le> n \<and> n \<le> 57) \<or> n = 46 \<or> n = 95 \<or> n = 45)"

definition allowed_match :: "string \<Rightarrow> bool" where
  "allowed_match s =
     (let t = (if s \<noteq> [] \<and> last s = LF then butlast s else s)
      in t \<noteq> [] \<and> list_all allowed_char t)"

text \<open>\<open>name.replace("\\", "/").split("/")[-1]\<close>: what follows the last separator.\<close>

definition slash :: "char \<Rightarrow> char" where
  "slash c = (if c = CHR 0x5C then CHR ''/'' else c)"

definition last_component :: "string \<Rightarrow> string" where
  "last_component name = rev (takeWhile (\<lambda>c. c \<noteq> CHR ''/'') (rev (map slash name)))"

definition sanitize_filename :: "string \<Rightarrow> exn + string" where
  "sanitize_filename name =
     (if name = '''' then Inl (error FileError)
      else let candidate = last_component name in
        if candidate \<in> {'''', ''.'', ''..''} then Inl (error FileError)
        else if length candidate > MAX_FILENAME_LEN then Inl (error FileError)
        else if \<not> allowed_match candidate then Inl (error FileError)
        else Inr candidate)"

subsection \<open>What an accepted name looks like\<close>

lemma allowed_not_space: "allowed_char c \<Longrightarrow> \<not> is_space c"
  by (auto simp: allowed_char_def is_space_def Let_def)

lemma allowed_not_slash: "allowed_char c \<Longrightarrow> c \<noteq> CHR ''/'' \<and> c \<noteq> CHR 0x5C"
  by (auto simp: allowed_char_def Let_def)

lemma allowed_not_LF: "allowed_char c \<Longrightarrow> c \<noteq> LF"
  by (auto simp: allowed_char_def Let_def LF_def)

lemma allowed_match_iff:
  "allowed_match s \<longleftrightarrow>
     (\<exists>t. t \<noteq> [] \<and> list_all allowed_char t \<and> (s = t \<or> s = t @ [LF]))"
proof
  assume "allowed_match s"
  then show "\<exists>t. t \<noteq> [] \<and> list_all allowed_char t \<and> (s = t \<or> s = t @ [LF])"
    by (cases s rule: rev_cases) (auto simp: allowed_match_def Let_def split: if_splits)
next
  assume "\<exists>t. t \<noteq> [] \<and> list_all allowed_char t \<and> (s = t \<or> s = t @ [LF])"
  then obtain t where t: "t \<noteq> []" "list_all allowed_char t" "s = t \<or> s = t @ [LF]" by blast
  from t(1,2) have "last t \<noteq> LF"
    using allowed_not_LF [of "last t"] by (simp add: list_all_iff)
  with t show "allowed_match s" by (auto simp: allowed_match_def)
qed

lemma last_component_free: "CHR ''/'' \<notin> set (last_component name)"
  by (auto simp: last_component_def dest: set_takeWhileD)

lemma slash_not_backslash: "slash c \<noteq> CHR 0x5C"
  by (simp add: slash_def)

lemma last_component_no_backslash: "CHR 0x5C \<notin> set (last_component name)"
  using slash_not_backslash by (fastforce simp: last_component_def dest: set_takeWhileD)

lemma last_component_id:
  assumes "CHR ''/'' \<notin> set s" "CHR 0x5C \<notin> set s"
  shows "last_component s = s"
proof -
  have "map slash s = s" using assms by (intro map_idI) (auto simp: slash_def)
  moreover have "takeWhile (\<lambda>c. c \<noteq> CHR ''/'') (rev s) = rev s"
    using assms by (intro takeWhile_eq_all) auto
  ultimately show ?thesis by (simp only: last_component_def rev_rev_ident)
qed

lemma sanitize_Inr_iff:
  "sanitize_filename name = Inr c \<longleftrightarrow>
     name \<noteq> '''' \<and> c = last_component name \<and> c \<notin> {'''', ''.'', ''..''} \<and>
     length c \<le> MAX_FILENAME_LEN \<and> allowed_match c"
  by (auto simp: sanitize_filename_def Let_def)

lemma set_last_component:
  assumes "\<forall>c \<in> set name. \<not> is_space c"
  shows "\<forall>c \<in> set (last_component name). \<not> is_space c"
proof
  fix c
  assume "c \<in> set (last_component name)"
  then have "c \<in> slash ` set name"
    unfolding last_component_def set_rev by (auto dest!: set_takeWhileD)
  then obtain d where "d \<in> set name" "c = slash d" by auto
  with assms show "\<not> is_space c" by (auto simp: slash_def is_space_def)
qed

lemma sanitize_word_allowed:
  assumes "word_ok name" and "sanitize_filename name = Inr c"
  shows "list_all allowed_char c" and "word_ok c"
proof -
  have "is_space LF" by (simp add: LF_def is_space_def)
  moreover have "\<forall>x \<in> set c. \<not> is_space x" and "allowed_match c" and "c \<noteq> []"
    using assms set_last_component [of name] by (auto simp: sanitize_Inr_iff word_ok_def)
  ultimately show "list_all allowed_char c" "word_ok c"
    by (auto simp: allowed_match_iff word_ok_def)
qed

subsection \<open>Properties\<close>

text \<open>C36: a name that \<open>sanitize_filename\<close> accepts cannot leave the download directory: it is a
  non-empty component of at most 64 characters without a separator, neither \<open>.\<close> nor \<open>..\<close>, and
  sanitising it again changes nothing.\<close>

theorem sanitize_stays_inside:
  assumes "sanitize_filename name = Inr c"
  shows "c \<noteq> [] \<and> length c \<le> 64 \<and> CHR ''/'' \<notin> set c \<and> CHR 0x5C \<notin> set c
    \<and> c \<noteq> ''.'' \<and> c \<noteq> ''..'' \<and> sanitize_filename c = Inr c"
  using assms last_component_free [of name] last_component_no_backslash [of name]
  by (auto simp: sanitize_Inr_iff last_component_id const_defs)

theorem sanitize_stays_inside_witness:
  "sanitize_filename ''../../WEATHER.BAS'' = Inr ''WEATHER.BAS''
   \<and> sanitize_filename ''WEATHER.BAS'' = Inr ''WEATHER.BAS''"
proof -
  have "sanitize_filename ''../../WEATHER.BAS'' = Inr ''WEATHER.BAS''" by code_simp
  then show ?thesis using sanitize_stays_inside by blast
qed

text \<open>C37: a file name that came from a control line (so without white space) is accepted only if
  every character is a letter, a digit, a dot, an underscore or a hyphen.\<close>

theorem sanitize_alphabet:
  assumes "word_ok name" and "sanitize_filename name = Inr c"
  shows "list_all allowed_char c"
  by (rule sanitize_word_allowed(1) [OF assms])

theorem sanitize_alphabet_witness: "list_all allowed_char ''A_1-2.bin''"
proof (rule sanitize_alphabet)
  show "word_ok ''C:/tmp/A_1-2.bin''" by (simp add: word_ok_def is_space_def)
  show "sanitize_filename ''C:/tmp/A_1-2.bin'' = Inr ''A_1-2.bin''" by code_simp
qed

text \<open>C38: the check lets one character outside the alphabet through: any allowed name of fewer than
  64 characters is also accepted with a newline appended, because \<open>$\<close> matches before it.\<close>

theorem sanitize_accepts_final_newline:
  assumes "list_all allowed_char t" and "t \<noteq> []" and "length t < 64"
  shows "sanitize_filename (t @ [LF]) = Inr (t @ [LF])"
proof -
  have "CHR ''/'' \<notin> set t" "CHR 0x5C \<notin> set t"
    using assms(1) by (auto simp: list_all_iff dest: allowed_not_slash)
  then have "last_component (t @ [LF]) = t @ [LF]"
    by (intro last_component_id) (auto simp: LF_def)
  moreover have "t @ [LF] \<notin> {'''', ''.'', ''..''}"
    by (auto simp: LF_def append_eq_Cons_conv)
  moreover have "allowed_match (t @ [LF])"
    using assms by (auto simp: allowed_match_iff)
  ultimately show ?thesis using assms by (simp add: sanitize_Inr_iff const_defs)
qed

theorem sanitize_accepts_final_newline_witness:
  "sanitize_filename (''A.BAS'' @ [LF]) = Inr (''A.BAS'' @ [LF])"
  by (rule sanitize_accepts_final_newline) (simp_all add: allowed_char_def)

end
