(* ===== verification/Flow.thy ===== *)
theory Flow
  imports Errors Complex_Main
begin

text \<open>
  \<open>flow.py\<close>: the block sz chosen from a fitted cost model, and the capability tokens of a
  greeting.  The cost is a float in the source and an exact rational here.
\<close>

definition MAX_WINDOW :: nat where [const_defs]: "MAX_WINDOW = 2"
definition RX_BUFFER :: nat where [const_defs]: "RX_BUFFER = 16384"
definition FRAME_OVERHEAD :: nat where [const_defs]: "FRAME_OVERHEAD = 64"

text \<open>\<open>-(-sz // n)\<close>, the number of blocks of \<open>n\<close> bytes that cover \<open>sz\<close> bytes.\<close>

definition ceil_div :: "nat \<Rightarrow> nat \<Rightarrow> nat" where
  "ceil_div a n = nat (- ((- int a) div int n))"

definition block_cost :: "nat \<Rightarrow> nat \<Rightarrow> nat \<Rightarrow> rat" where
  "block_cost sz baud n =
     of_nat (max 1 (ceil_div sz n)) * 180 / of_nat baud + of_nat (min sz n) * (40 / 1000000)"

definition block_candidates :: "nat \<Rightarrow> nat list" where
  "block_candidates limit =
     sort (remdups (filter (\<lambda>n. n \<le> limit) [256, 512, 1024, 2048, 4096, limit]))"

definition choose_block :: "nat \<Rightarrow> nat \<Rightarrow> nat \<Rightarrow> nat \<Rightarrow> nat" where
  "choose_block sz limit window baud =
     (if window = 1 then limit
      else arg_min_list (block_cost sz baud) (block_candidates limit))"

definition known_keys :: "string set" where
  "known_keys = {''FLOW'', ''MAXBLK'', ''WINDOW'', ''RXBUF'', ''LZ4'', ''IDENTITY''}"

type_synonym caps = "string \<rightharpoonup> nat"

fun options_from :: "caps \<Rightarrow> string list \<Rightarrow> exn + caps" where
  "options_from values [] = Inr values"
| "options_from values (token # tokens) =
     (case partition_at CHR ''='' token of (key, separator, val) \<Rightarrow>
        if key \<notin> known_keys then options_from values tokens
        else if \<not> separator \<or> \<not> isascii val \<or> \<not> isdecimal val \<or> values key \<noteq> None
        then Inl (error ProtocolError)
        else let number = int_of val in
          if \<not> (1 \<le> number \<and> number \<le> 1048576) then Inl (error ProtocolError)
          else options_from (values(key \<mapsto> number)) tokens)"

definition options :: "string list \<Rightarrow> exn + caps" where
  "options tokens = options_from Map.empty tokens"

text \<open>\<open>capabilities.get(key, d)\<close>\<close>

definition cap_get :: "caps \<Rightarrow> string \<Rightarrow> nat \<Rightarrow> nat" where
  "cap_get m key d = (case m key of None \<Rightarrow> d | Some v \<Rightarrow> v)"

subsection \<open>The chosen block\<close>

lemma arg_min_list_min:
  "xs \<noteq> [] \<Longrightarrow> arg_min_list f xs \<in> set xs \<and> (\<forall>x \<in> set xs. f (arg_min_list f xs) \<le> f x)"
  for f :: "'a \<Rightarrow> 'b::linorder"
  using arg_min_list_in [of xs f] f_arg_min_list_f [of xs f] by simp

lemma set_block_candidates:
  "set (block_candidates limit) = {n \<in> {256, 512, 1024, 2048, 4096, limit}. n \<le> limit}"
  by (auto simp: block_candidates_def)

lemma choose_block_cases:
  "choose_block sz limit window baud \<in> {256, 512, 1024, 2048, 4096, limit}
   \<and> choose_block sz limit window baud \<le> limit"
proof (cases "window = 1")
  case False
  have "block_candidates limit \<noteq> []"
    using set_block_candidates [of limit] by (auto simp flip: set_empty)
  then have "arg_min_list (block_cost sz baud) (block_candidates limit)
      \<in> set (block_candidates limit)" by (simp add: arg_min_list_in)
  with False show ?thesis by (auto simp: choose_block_def set_block_candidates)
qed (simp add: choose_block_def)

lemma choose_block_bounds:
  "1 \<le> limit \<Longrightarrow> 1 \<le> choose_block sz limit window baud
     \<and> choose_block sz limit window baud \<le> limit"
  using choose_block_cases [of sz limit window baud] by auto

lemma ceil_div_covers:
  assumes "0 < n"
  shows "a \<le> ceil_div a n * n" and "ceil_div a n * n < a + n"
proof -
  let ?q = "(- int a) div int n" and ?r = "(- int a) mod int n"
  have "- int a - ?r = int n * ?q" by (rule minus_mod_eq_mult_div)
  moreover have "0 \<le> ?r" "?r < int n" using assms by simp_all
  ultimately have "int a \<le> (- ?q) * int n" "(- ?q) * int n < int a + int n"
    by (simp_all only: mult.commute [of "- ?q"] mult_minus_right)
  moreover have "?q \<le> 0" using assms by (simp add: div_nonpos_pos_le0)
  then obtain c where "- ?q = int c" using nonneg_int_cases [of "- ?q"] by auto
  moreover from this have "ceil_div a n = c" by (simp add: ceil_div_def)
  ultimately show "a \<le> ceil_div a n * n" "ceil_div a n * n < a + n"
    by (simp_all only: of_nat_mult [symmetric] of_nat_add [symmetric] of_nat_le_iff of_nat_less_iff)
qed

subsection \<open>Capabilities\<close>

lemma options_from_Cons:
  "options_from values (token # tokens) = Inr m \<Longrightarrow>
     options_from values tokens = Inr m \<or>
     (\<exists>key val. partition_at CHR ''='' token = (key, True, val) \<and> key \<in> known_keys \<and>
        values key = None \<and> isdecimal val \<and> 1 \<le> int_of val \<and> int_of val \<le> 1048576 \<and>
        options_from (values(key \<mapsto> int_of val)) tokens = Inr m)"
  by (auto simp: Let_def split: prod.splits if_splits)

lemma options_from_append:
  "options_from m (xs @ ys) =
     (case options_from m xs of Inl e \<Rightarrow> Inl e | Inr m' \<Rightarrow> options_from m' ys)"
  by (induction xs arbitrary: m) (simp_all add: Let_def split: prod.split)

lemma options_from_range:
  "\<lbrakk>options_from values tokens = Inr m;
    \<And>k v. values k = Some v \<Longrightarrow> k \<in> known_keys \<and> 1 \<le> v \<and> v \<le> 1048576; m k = Some v\<rbrakk>
   \<Longrightarrow> k \<in> known_keys \<and> 1 \<le> v \<and> v \<le> 1048576"
proof (induction tokens arbitrary: "values")
  case (Cons token tokens)
  from options_from_Cons [OF Cons.prems(1)] show ?case
  proof
    assume "options_from values tokens = Inr m"
    then show ?thesis using Cons by blast
  next
    assume "\<exists>key val. partition_at CHR ''='' token = (key, True, val) \<and> key \<in> known_keys \<and>
        values key = None \<and> isdecimal val \<and> 1 \<le> int_of val \<and> int_of val \<le> 1048576 \<and>
        options_from (values(key \<mapsto> int_of val)) tokens = Inr m"
    then obtain key val where new: "key \<in> known_keys" "1 \<le> int_of val" "int_of val \<le> 1048576"
      and rest: "options_from (values(key \<mapsto> int_of val)) tokens = Inr m" by blast
    from rest show ?thesis
      by (rule Cons.IH) (use Cons.prems new in \<open>auto split: if_splits\<close>)
  qed
qed simp

lemma options_range:
  "options tokens = Inr m \<Longrightarrow> m k = Some v \<Longrightarrow> k \<in> known_keys \<and> 1 \<le> v \<and> v \<le> 1048576"
  using options_from_range [of Map.empty tokens m] by (simp add: options_def)

text \<open>The token \<open>f"{key}={n}"\<close> that both greetings are made of.\<close>

definition cap_token :: "string \<Rightarrow> nat \<Rightarrow> string" where
  "cap_token key n = key @ CHR ''='' # str_of n"

lemma known_key_plain: "k \<in> known_keys \<Longrightarrow> CHR ''='' \<notin> set k \<and> word_ok k"
  by (auto simp: known_keys_def word_ok_def is_space_def)

lemma isascii_decimal: "isdecimal s \<Longrightarrow> isascii s"
  by (auto simp: isdecimal_def isascii_def list_all_iff is_digit_def Let_def)

lemma options_from_cap_token:
  assumes "k \<in> known_keys"
  shows "options_from values (cap_token k n # ts) =
    (if values k = None \<and> 1 \<le> n \<and> n \<le> 1048576 then options_from (values(k \<mapsto> n)) ts
     else Inl (error ProtocolError))"
  using assms known_key_plain [OF assms]
  by (auto simp: cap_token_def partition_at_key isascii_decimal Let_def)

lemma word_ok_append: "word_ok (a @ b) \<longleftrightarrow> (word_ok a \<and> (b = [] \<or> word_ok b)) \<or> (a = [] \<and> word_ok b)"
  by (auto simp: word_ok_def)

lemma word_ok_cap_token [wordy]: "k \<in> known_keys \<Longrightarrow> word_ok (cap_token k n)"
  using known_key_plain [of k] word_ok_str_of [of n]
  by (auto simp: cap_token_def word_ok_def is_space_def)

lemma options_from_tokens:
  "\<lbrakk>distinct (map fst kvs); \<forall>(k, n) \<in> set kvs. k \<in> known_keys \<and> 1 \<le> n \<and> n \<le> 1048576;
    \<forall>k \<in> fst ` set kvs. m k = None\<rbrakk>
   \<Longrightarrow> options_from m (map (\<lambda>(k, n). cap_token k n) kvs) = Inr (m ++ map_of (rev kvs))"
proof (induction kvs arbitrary: m)
  case (Cons kv kvs)
  obtain k n where kv: "kv = (k, n)" by (cases kv)
  have "options_from (m(k \<mapsto> n)) (map (\<lambda>(k, n). cap_token k n) kvs)
      = Inr ((m(k \<mapsto> n)) ++ map_of (rev kvs))"
    using Cons.prems kv by (intro Cons.IH) auto
  with Cons.prems kv show ?case
    by (simp add: options_from_cap_token del: options_from.simps)
qed simp

text \<open>A greeting: the tokens of known keys, each at most once, behind words that are not capabilities.\<close>

lemma options_tokens:
  assumes "distinct (map fst kvs)" "\<forall>(k, n) \<in> set kvs. k \<in> known_keys \<and> 1 \<le> n \<and> n \<le> 1048576"
  shows "options (map (\<lambda>(k, n). cap_token k n) kvs) = Inr (map_of kvs)"
proof -
  have "map_of (rev kvs) = map_of kvs" using assms(1)
    by (subst map_of_inject_set) (simp_all add: rev_map [symmetric])
  then show ?thesis
    unfolding options_def using options_from_tokens [of kvs Map.empty] assms by simp
qed

lemma options_junk:
  "fst (partition_at CHR ''='' junk) \<notin> known_keys \<Longrightarrow> options (junk # ts) = options ts"
  by (auto simp: options_def split: prod.splits)

subsection \<open>Properties\<close>



text \<open>C33: capability tokens round trip: a greeting that lists each known key at most once with a
  value from 1 to 1048576 is parsed to exactly these values; unknown tokens do not change the
  result, and a repeated known key is refused.\<close>

theorem options_roundtrip:
  assumes "distinct (map fst kvs)"
    and "\<forall>(k, n) \<in> set kvs. k \<in> known_keys \<and> 1 \<le> n \<and> n \<le> 1048576"
    and "fst (partition_at CHR ''='' junk) \<notin> known_keys"
  shows "options (junk # map (\<lambda>(k, n). cap_token k n) kvs) = Inr (map_of kvs)
    \<and> (kv \<in> set kvs \<longrightarrow>
        options (map (\<lambda>(k, n). cap_token k n) (kvs @ [kv])) = Inl (error ProtocolError))"
proof -
  let ?toks = "map (\<lambda>(k, n). cap_token k n)"
  have all: "options (?toks kvs) = Inr (map_of kvs)" by (rule options_tokens [OF assms(1,2)])
  moreover have "options (junk # ?toks kvs) = options (?toks kvs)" by (rule options_junk [OF assms(3)])
  moreover have "options (?toks (kvs @ [kv])) = Inl (error ProtocolError)" if "kv \<in> set kvs"
  proof -
    obtain k n where kv: "kv = (k, n)" by (cases kv)
    with that assms(2) have "k \<in> known_keys" by auto
    moreover have "map_of kvs k \<noteq> None" using that kv by (auto simp: map_of_eq_None_iff rev_image_eqI)
    ultimately have "options_from (map_of kvs) [cap_token k n] = Inl (error ProtocolError)"
      by (simp only: options_from_cap_token) simp
    with all kv show ?thesis by (simp add: options_def options_from_append)
  qed
  ultimately show ?thesis by simp
qed

theorem options_roundtrip_witness:
  "options (''FOO=1'' # map (\<lambda>(k, n). cap_token k n) [(''MAXBLK'', 4096), (''WINDOW'', 2)])
     = Inr (map_of [(''MAXBLK'', 4096), (''WINDOW'', 2)])"
  by (rule options_roundtrip [THEN conjunct1])
    (simp_all add: known_keys_def partition_at_def)

end
