(* ===== verification/Compression.thy ===== *)
theory Compression
  imports Errors Complex_Main
begin

unbundle bit_operations_syntax

text \<open>
  \<open>compression.py\<close>: independent LZ4 blocks.  \<open>compress\<close> keeps the last position of every four-byte
  key in a dictionary and emits a match only when it is at least twelve bytes long; \<open>decompress\<close>
  refuses every malformed block; \<open>worthwhile\<close> weighs the saving against the receiver's decoding
  time (floats in the source, exact rationals here).
\<close>

subsection \<open>The encoder\<close>

fun length_bytes :: "nat \<Rightarrow> byte list" where
  "length_bytes val = (if val \<ge> 255 then 255 # length_bytes (val - 255) else [word_of_nat val])"

declare length_bytes.simps [simp del]

definition token_byte :: "nat \<Rightarrow> nat \<Rightarrow> byte" where
  "token_byte literals extra = push_bit 4 (word_of_nat (min literals 15)) OR word_of_nat (min extra 15)"

text \<open>\<open>while pos + count < len(data) - 5 and data[previous + count] == data[pos + count]: count += 1\<close>\<close>

function match_count :: "byte list \<Rightarrow> nat \<Rightarrow> nat \<Rightarrow> nat \<Rightarrow> nat" where
  "match_count data previous pos count =
     (if pos + count < length data - 5 \<and> data ! (previous + count) = data ! (pos + count)
      then match_count data previous pos (count + 1) else count)"
  by pat_completeness auto
termination
  by (relation "measure (\<lambda>(data, previous, pos, count). length data - (pos + count))") auto

declare match_count.simps [simp del]

definition emit_match :: "byte list \<Rightarrow> nat \<Rightarrow> nat \<Rightarrow> nat \<Rightarrow> nat \<Rightarrow> byte list" where
  "emit_match data anchor pos previous count =
     (let literals = pos - anchor in
      [token_byte literals (count - 4)]
      @ (if literals \<ge> 15 then length_bytes (literals - 15) else [])
      @ take literals (drop anchor data)
      @ [word_of_nat (pos - previous), word_of_nat ((pos - previous) div 256)]
      @ (if count \<ge> 19 then length_bytes (count - 19) else []))"

function compress_loop ::
  "byte list \<Rightarrow> nat \<Rightarrow> nat \<Rightarrow> nat \<Rightarrow> (byte list \<rightharpoonup> nat) \<Rightarrow> byte list \<Rightarrow> nat \<times> nat \<times> byte list" where
  "compress_loop data pos anchor matches table out =
     (if pos + 12 \<le> length data then
        let key = take 4 (drop pos data); table' = table(key \<mapsto> pos) in
        case table key of
          None \<Rightarrow> compress_loop data (pos + 1) anchor matches table' out
        | Some previous \<Rightarrow>
            if pos - previous > 65535
            then compress_loop data (pos + 1) anchor matches table' out
            else let count = match_count data previous pos 4 in
              if count < 12 then compress_loop data (pos + 1) anchor matches table' out
              else compress_loop data (pos + count) (pos + count) (matches + 1) table'
                     (out @ emit_match data anchor pos previous count)
      else (anchor, matches, out))"
  by pat_completeness auto
termination
  by (relation "measure (\<lambda>(data, pos, _). length data - pos)") auto

declare compress_loop.simps [simp del]

definition emit_final :: "byte list \<Rightarrow> byte list" where
  "emit_final lits =
     (let literals = length lits in
      [push_bit 4 (word_of_nat (min literals 15))]
      @ (if literals \<ge> 15 then length_bytes (literals - 15) else []) @ lits)"

definition compress :: "byte list \<Rightarrow> byte list \<times> nat" where
  "compress data =
     (case compress_loop data 0 0 0 Map.empty [] of
        (anchor, matches, out) \<Rightarrow> (out @ emit_final (drop anchor data), matches))"

subsection \<open>The decoder\<close>

definition read_byte :: "byte list \<Rightarrow> nat \<Rightarrow> exn + byte \<times> nat" where
  "read_byte data pos =
     (if pos \<ge> length data then Inl (error ProtocolError) else Inr (data ! pos, pos + 1))"

function read_length_more :: "byte list \<Rightarrow> nat \<Rightarrow> nat \<Rightarrow> nat \<Rightarrow> exn + nat \<times> nat" where
  "read_length_more data sz pos val =
     (if pos \<ge> length data then Inl (error ProtocolError)
      else let extra = data ! pos; val' = val + unat extra in
        if val' > sz then Inl (error ProtocolError)
        else if extra \<noteq> 255 then Inr (val', pos + 1)
        else read_length_more data sz (pos + 1) val')"
  by pat_completeness auto
termination
  by (relation "measure (\<lambda>(data, sz, pos, val). length data - pos)") auto

declare read_length_more.simps [simp del]

definition read_length :: "byte list \<Rightarrow> nat \<Rightarrow> nat \<Rightarrow> nat \<Rightarrow> exn + nat \<times> nat" where
  "read_length data sz pos val =
     (if val = 15 then read_length_more data sz pos val else Inr (val, pos))"

text \<open>
  \<open>while count: chunk = bytes(output[source:source + count]); output.extend(chunk);
  count -= len(chunk)\<close>.  The loop would not end on an empty chunk; \<open>decompress\<close> only enters it with
  \<open>source\<close> below the length of the output, and then no chunk is empty.
\<close>

function copy_match :: "byte list \<Rightarrow> nat \<Rightarrow> nat \<Rightarrow> byte list" where
  "copy_match output source count =
     (if count = 0 \<or> source \<ge> length output then output
      else let chunk = take count (drop source output)
        in copy_match (output @ chunk) source (count - length chunk))"
  by pat_completeness auto
termination
  by (relation "measure (\<lambda>(output, source, count). count)") auto

declare copy_match.simps [simp del]

lemma read_length_more_pos:
  "read_length_more data sz pos val = Inr (v, p) \<Longrightarrow> pos < p \<and> p \<le> length data"
proof (induction data sz pos val rule: read_length_more.induct)
  case (1 data sz pos val)
  show ?case
    using "1.prems" "1.IH" [OF _ refl refl]
    by (simp add: read_length_more.simps [of data sz pos val] Let_def split: if_splits)
qed

lemma read_length_pos: "read_length data sz pos val = Inr (v, p) \<Longrightarrow> pos \<le> p"
  by (auto simp: read_length_def dest: read_length_more_pos split: if_splits)

function decompress_loop :: "byte list \<Rightarrow> nat \<Rightarrow> nat \<Rightarrow> byte list \<Rightarrow> exn + byte list" where
  "decompress_loop data sz pos output =
     (if pos < length data then
        let token = data ! pos in
        case read_length data sz (pos + 1) (unat (drop_bit 4 token)) of
          Inl e \<Rightarrow> Inl e
        | Inr (literals, pos1) \<Rightarrow>
            if pos1 + literals > length data \<or> length output + literals > sz
            then Inl (error ProtocolError)
            else let output1 = output @ take literals (drop pos1 data); pos2 = pos1 + literals in
              if pos2 = length data then
                (if length output1 \<noteq> sz then Inl (error ProtocolError) else Inr output1)
              else case read_byte data pos2 of
                Inl e \<Rightarrow> Inl e
              | Inr (lo, pos3) \<Rightarrow>
                  (case read_byte data pos3 of
                     Inl e \<Rightarrow> Inl e
                   | Inr (hi, pos4) \<Rightarrow>
                       let offset = unat lo OR push_bit 8 (unat hi) in
                       case read_length data sz pos4 (unat (token AND 15)) of
                         Inl e \<Rightarrow> Inl e
                       | Inr (len, pos5) \<Rightarrow>
                           let count = len + 4 in
                           if \<not> (1 \<le> offset \<and> offset \<le> length output1)
                              \<or> length output1 + count > sz
                           then Inl (error ProtocolError)
                           else decompress_loop data sz pos5
                                  (copy_match output1 (length output1 - offset) count))
      else Inl (error ProtocolError))"
  by pat_completeness auto
termination
  by (relation "measure (\<lambda>(data, sz, pos, output). length data - pos)")
    (auto simp: read_byte_def dest!: read_length_pos split: if_splits)

declare decompress_loop.simps [simp del]

definition decompress :: "byte list \<Rightarrow> int \<Rightarrow> exn + byte list" where
  "decompress data sz =
     (if \<not> (0 \<le> sz \<and> sz \<le> 4096) then Inl (error ProtocolError)
      else decompress_loop data (nat sz) 0 [])"

subsection \<open>Is a block worth compressing?\<close>

definition worthwhile :: "byte list \<Rightarrow> nat \<Rightarrow> byte list option" where
  "worthwhile raw baud =
     (if length raw < 64 then None
      else case compress raw of (packed, matches) \<Rightarrow>
        let saved_seconds =
              (of_nat (length raw) - of_nat (length packed) - 12) * 10 / (of_nat baud :: rat);
            decode_seconds =
              2 / 1000 + of_nat matches * (5 / 10000) + of_nat (length raw) * (2 / 1000000)
        in if of_nat (length packed) \<le> of_nat (length raw) * (85 / 100 :: rat)
              \<and> saved_seconds > decode_seconds * (3 / 2)
           then Some packed else None)"

subsection \<open>Reading the input by position\<close>

lemma drop_Cons_nth:
  "drop pos d = x # r \<Longrightarrow> pos < length d \<and> d ! pos = x \<and> drop (Suc pos) d = r"
  by (metis Cons_nth_drop_Suc drop_eq_Nil leI list.distinct(1) list.inject)

lemma drop_append_add: "drop pos d = xs @ r \<Longrightarrow> drop (pos + length xs) d = r"
  by (metis add.commute append_eq_conv_conj drop_drop)

definition ext_bytes :: "nat \<Rightarrow> byte list" where
  "ext_bytes l = (if l \<ge> 15 then length_bytes (l - 15) else [])"

lemma read_length_more_bytes:
  "\<lbrakk>drop pos d = length_bytes v @ rest; base + v \<le> sz\<rbrakk>
   \<Longrightarrow> read_length_more d sz pos base = Inr (base + v, pos + length (length_bytes v))"
proof (induction v arbitrary: pos base rule: length_bytes.induct)
  case (1 v)
  show ?case
  proof (cases "255 \<le> v")
    case True
    with "1.prems" have "drop pos d = 255 # length_bytes (v - 255) @ rest"
      by (simp add: length_bytes.simps [of v])
    from drop_Cons_nth [OF this] True "1.prems"(2) "1.IH" [of "Suc pos" "base + 255"]
    show ?thesis
      by (simp add: read_length_more.simps [of d sz pos] length_bytes.simps [of v] Let_def)
  next
    case False
    with "1.prems" have "drop pos d = word_of_nat v # rest"
      by (simp add: length_bytes.simps [of v])
    moreover have "unat (word_of_nat v :: byte) = v" "(word_of_nat v :: byte) \<noteq> 255"
      using False by (auto simp: unat_of_nat take_bit_nat_eq_self word_unat_eq_iff)
    ultimately show ?thesis using False "1.prems"(2) drop_Cons_nth [of pos d]
      by (simp add: read_length_more.simps [of d sz pos] length_bytes.simps [of v] Let_def)
  qed
qed

lemma read_length_bytes:
  "\<lbrakk>drop pos d = ext_bytes l @ rest; l \<le> sz\<rbrakk>
   \<Longrightarrow> read_length d sz pos (min l 15) = Inr (l, pos + length (ext_bytes l))"
  using read_length_more_bytes [of pos d "l - 15" rest 15 sz]
  by (auto simp: read_length_def ext_bytes_def)

lemma token_unat: "unat (token_byte a b) = push_bit 4 (min a 15) OR min b 15"
proof -
  have "push_bit 4 (min a 15) = 16 * min a 15" by (simp add: push_bit_eq_mult)
  then have "take_bit 8 (push_bit 4 (min a 15)) = push_bit 4 (min a 15)"
    by (simp add: take_bit_nat_eq_self_iff)
  then show ?thesis
    by (simp add: token_byte_def unsigned_or_eq unsigned_push_bit_eq unat_of_nat push_bit_take_bit flip: take_bit_eq_mod)
qed
lemma token_fields:
  "unat (drop_bit 4 (token_byte a b)) = min a 15" "unat (token_byte a b AND 15) = min b 15"
proof -
  have "min b 15 < 2 ^ 4" by simp
  then have z: "drop_bit 4 (min b 15) = 0" "take_bit 4 (min b 15) = min b 15"
    by (simp_all add: drop_bit_eq_div take_bit_nat_eq_self)
  show "unat (drop_bit 4 (token_byte a b)) = min a 15"
    by (simp add: unat_drop_bit_eq token_unat drop_bit_or z drop_bit_push_bit)
  have m: "(15::nat) = mask 4" by (simp add: mask_eq_exp_minus_1)
  have "unat (token_byte a b AND 15) = (push_bit 4 (min a 15) OR min b 15) AND mask 4"
    unfolding unsigned_and_eq token_unat m [symmetric] by simp
  also have "\<dots> = take_bit 4 (push_bit 4 (min a 15)) OR take_bit 4 (min b 15)"
    by (simp only: take_bit_eq_mask [symmetric] take_bit_or)
  also have "\<dots> = min b 15" using z by (simp add: take_bit_push_bit)
  finally show "unat (token_byte a b AND 15) = min b 15" .
qed

lemma offset_bytes:
  assumes "off \<le> 65535"
  shows "unat (word_of_nat off :: byte) OR push_bit 8 (unat (word_of_nat (off div 256) :: byte)) = off"
proof -
  have "unat (word_of_nat off :: byte) = take_bit 8 off"
    "unat (word_of_nat (off div 256) :: byte) = drop_bit 8 off"
    using assms by (simp_all add: unat_of_nat drop_bit_eq_div take_bit_nat_eq_self take_bit_eq_mod)
  then show ?thesis
    by (simp only:) (rule bit_eqI, case_tac "n < 8", simp_all add: bit_simps)
qed

subsection \<open>Matches\<close>

text \<open>The reference: an LZ77 match copies one byte at a time from \<open>offset\<close> bytes back.\<close>

primrec lz_copy :: "byte list \<Rightarrow> nat \<Rightarrow> nat \<Rightarrow> byte list" where
  "lz_copy out off 0 = out"
| "lz_copy out off (Suc n) = lz_copy (out @ [out ! (length out - off)]) off n"

lemma length_lz_copy [simp]: "length (lz_copy out off n) = length out + n"
  by (induction n arbitrary: out) auto

lemma lz_copy_snoc:
  "lz_copy out off (Suc n) = (let r = lz_copy out off n in r @ [r ! (length r - off)])"
proof (induction n arbitrary: out)
  case (Suc n)
  show ?case using Suc.IH [of "out @ [out ! (length out - off)]"]
    by (simp only: lz_copy.simps(2))
qed (simp add: Let_def)

lemma copy_match_closed:
  assumes "src < length out"
  shows "copy_match out src n
    = out @ map (\<lambda>i. out ! (src + i mod (length out - src))) [0..<n]"
  using assms
proof (induction out src n rule: copy_match.induct)
  case (1 out src n)
  let ?off = "length out - src" and ?c = "min n (length out - src)"
  show ?case
  proof (cases "n = 0")
    case True
    then show ?thesis by (simp add: copy_match.simps)
  next
    case False
    define chunk where "chunk = take n (drop src out)"
    have lc: "length chunk = ?c" by (simp add: chunk_def)
    have chunk: "chunk = map (\<lambda>i. out ! (src + i mod ?off)) [0..<?c]"
      by (rule nth_equalityI) (auto simp: chunk_def)
    have "copy_match out src n = copy_match (out @ chunk) src (n - length chunk)"
      using False "1.prems" by (simp add: copy_match.simps [of out] chunk_def)
    also have "\<dots> = (out @ chunk)
        @ map (\<lambda>i. (out @ chunk) ! (src + i mod (length (out @ chunk) - src))) [0..<n - ?c]"
      using "1.IH" [OF _ chunk_def] "1.prems" False by (simp add: lc)
    also have "map (\<lambda>i. (out @ chunk) ! (src + i mod (length (out @ chunk) - src))) [0..<n - ?c]
        = map (\<lambda>i. out ! (src + (i + ?c) mod ?off)) [0..<n - ?c]"
    proof (rule map_cong [OF refl])
      fix i
      assume "i \<in> set [0..<n - ?c]"
      then have c: "?c = ?off" by auto
      have e: "length (out @ chunk) - src = 2 * ?off" using lc c "1.prems" by simp
      let ?j = "i mod (2 * ?off)"
      have j: "?j < 2 * ?off" using "1.prems" by simp
      have m: "?j mod ?off = i mod ?off" by (simp add: mod_mod_cancel)
      have "(out @ chunk) ! (src + ?j) = out ! (src + ?j mod ?off)"
      proof (cases "?j < ?off")
        case True
        then have "src + ?j < length out" "?j mod ?off = ?j" using "1.prems" by (linarith, simp)
        then show ?thesis by (simp only: nth_append if_True)
      next
        case False
        then have "?j - ?off < ?off" "?j mod ?off = ?j - ?off" using j by (simp_all add: le_mod_geq)
        moreover have "src + ?j - length out = ?j - ?off" using False "1.prems" by simp
        moreover have "\<not> src + ?j < length out" using False "1.prems" by linarith
        ultimately show ?thesis using False "1.prems" c by (simp add: nth_append chunk)
      qed
      then show "(out @ chunk) ! (src + i mod (length (out @ chunk) - src))
          = out ! (src + (i + ?c) mod ?off)"
        by (simp only: e m c mod_add_self2)
    qed
    also have "(out @ chunk) @ map (\<lambda>i. out ! (src + (i + ?c) mod ?off)) [0..<n - ?c]
        = out @ map (\<lambda>i. out ! (src + i mod ?off)) [0..<n]"
    proof -
      have "[0..<n] = [0..<?c] @ map (\<lambda>i. i + ?c) [0..<n - ?c]"
        using upt_add_eq_append [of 0 ?c "n - ?c"] by (simp add: map_add_upt)
      then show ?thesis by (simp add: chunk o_def)
    qed
    finally show ?thesis .
  qed
qed

lemma lz_copy_closed:
  assumes "0 < off" "off \<le> length out"
  shows "lz_copy out off n
    = out @ map (\<lambda>i. out ! (length out - off + i mod off)) [0..<n]"
proof (induction n)
  case (Suc n)
  let ?r = "lz_copy out off n"
  have "?r ! (length ?r - off) = out ! (length out - off + n mod off)"
  proof (cases "n < off")
    case True
    then have "length out + n - off < length out" using assms by linarith
    then show ?thesis using Suc assms True by (simp add: nth_append)
  next
    case False
    then have "length out + n - off - length out = n - off" "\<not> length out + n - off < length out"
      using assms by auto
    then have "?r ! (length ?r - off) = out ! (length out - off + (n - off) mod off)"
      using Suc False assms by (simp add: nth_append)
    then show ?thesis using False by (simp add: le_mod_geq)
  qed
  with Suc show ?case by (simp only: lz_copy_snoc Let_def) simp
qed simp

lemma copy_match_lz_copy:
  "\<lbrakk>1 \<le> off; off \<le> length out\<rbrakk> \<Longrightarrow> copy_match out (length out - off) n = lz_copy out off n"
  by (simp add: copy_match_closed lz_copy_closed)

lemma lz_copy_repeats:
  assumes "prev < pos" "pos + n \<le> length d" "\<And>i. i < n \<Longrightarrow> d ! (prev + i) = d ! (pos + i)"
  shows "lz_copy (take pos d) (pos - prev) n = take (pos + n) d"
  using assms(2,3)
proof (induction n)
  case (Suc n)
  have IH: "lz_copy (take pos d) (pos - prev) n = take (pos + n) d"
    by (rule Suc.IH) (use Suc.prems in auto)
  have "take (pos + n) d ! (pos + n - (pos - prev)) = d ! (pos + n)"
    using assms(1) Suc.prems(1) Suc.prems(2) [of n] by (simp add: ac_simps)
  then show ?case using Suc.prems(1)
    by (simp only: lz_copy_snoc Let_def IH) (simp add: take_Suc_conv_app_nth min_def)
qed simp

subsection \<open>Blocks as lists of sequences\<close>

text \<open>
  The block format itself: a sequence is a run of literals followed by a match (offset, count); a
  block is a list of sequences and the final literals.  \<open>encode_block\<close> writes it, \<open>lz_run\<close> expands
  it byte by byte.
\<close>

type_synonym lz_seq = "byte list \<times> nat \<times> nat"

fun encode_seq :: "lz_seq \<Rightarrow> byte list" where
  "encode_seq (lits, off, cnt) =
     token_byte (length lits) (cnt - 4) # ext_bytes (length lits) @ lits
     @ [word_of_nat off, word_of_nat (off div 256)] @ ext_bytes (cnt - 4)"

definition encode_block :: "lz_seq list \<Rightarrow> byte list \<Rightarrow> byte list" where
  "encode_block ss lits = concat (map encode_seq ss) @ emit_final lits"

fun lz_run :: "byte list \<Rightarrow> lz_seq list \<Rightarrow> byte list" where
  "lz_run out [] = out"
| "lz_run out ((lits, off, cnt) # ss) = lz_run (lz_copy (out @ lits) off cnt) ss"

fun lz_valid :: "byte list \<Rightarrow> lz_seq list \<Rightarrow> bool" where
  "lz_valid out [] = True"
| "lz_valid out ((lits, off, cnt) # ss) =
     (1 \<le> off \<and> off \<le> length (out @ lits) \<and> off \<le> 65535 \<and> 4 \<le> cnt
      \<and> lz_valid (lz_copy (out @ lits) off cnt) ss)"

lemma lz_run_append: "lz_run out (ss @ ts) = lz_run (lz_run out ss) ts"
  by (induction out ss rule: lz_run.induct) auto

lemma lz_valid_append: "lz_valid out (ss @ ts) \<longleftrightarrow> lz_valid out ss \<and> lz_valid (lz_run out ss) ts"
  by (induction out ss rule: lz_valid.induct) auto

lemma length_lz_run: "length out \<le> length (lz_run out ss)"
  by (induction out ss rule: lz_run.induct) (auto intro: order_trans [rotated])

lemma decompress_loop_seq:
  assumes "drop pos d = encode_seq (lits, off, cnt) @ rest"
    and "1 \<le> off" "off \<le> length (out @ lits)" "off \<le> 65535" "4 \<le> cnt"
    and "length out + length lits + cnt \<le> sz"
  shows "decompress_loop d sz pos out
    = decompress_loop d sz (pos + length (encode_seq (lits, off, cnt))) (lz_copy (out @ lits) off cnt)"
proof -
  let ?tok = "token_byte (length lits) (cnt - 4)" and ?e1 = "ext_bytes (length lits)"
    and ?e2 = "ext_bytes (cnt - 4)" and ?lo = "word_of_nat off :: byte"
    and ?hi = "word_of_nat (off div 256) :: byte"
  have t: "pos < length d" "d ! pos = ?tok" "drop (Suc pos) d = ?e1 @ lits @ ?lo # ?hi # ?e2 @ rest"
    using drop_Cons_nth [of pos d] assms(1) by simp_all
  define p1 where "p1 = Suc pos + length ?e1"
  define p2 where "p2 = p1 + length lits"
  have r1: "read_length d sz (pos + 1) (unat (drop_bit 4 ?tok)) = Inr (length lits, p1)"
    using read_length_bytes [OF t(3)] assms(6) by (simp add: token_fields p1_def)
  have d1: "drop p1 d = lits @ ?lo # ?hi # ?e2 @ rest"
    using drop_append_add [OF t(3)] by (simp add: p1_def)
  have d2: "drop p2 d = ?lo # ?hi # ?e2 @ rest"
    using drop_append_add [OF d1] by (simp add: p2_def)
  from drop_Cons_nth [OF d2] have lo: "p2 < length d" "d ! p2 = ?lo" "drop (Suc p2) d = ?hi # ?e2 @ rest"
    by simp_all
  from drop_Cons_nth [OF lo(3)] have hi: "Suc p2 < length d" "d ! Suc p2 = ?hi"
    "drop (Suc (Suc p2)) d = ?e2 @ rest" by simp_all
  have r2: "read_length d sz (Suc (Suc p2)) (unat (?tok AND 15))
      = Inr (cnt - 4, Suc (Suc p2) + length ?e2)"
    using read_length_bytes [OF hi(3)] assms(6) by (simp add: token_fields)
  have "Suc (Suc p2) + length ?e2 = pos + length (encode_seq (lits, off, cnt))"
    by (simp add: p1_def p2_def)
  then show ?thesis
    using t r1 d1 lo hi r2 assms offset_bytes [OF assms(4)] copy_match_lz_copy [of off "out @ lits" cnt]
    by (simp add: decompress_loop.simps [of d sz pos out] Let_def read_byte_def p2_def add.assoc)
qed

lemma decompress_loop_final:
  assumes "drop pos d = emit_final lits" "length out + length lits = sz"
  shows "decompress_loop d sz pos out = Inr (out @ lits)"
proof -
  have tok: "push_bit 4 (word_of_nat (min (length lits) 15)) = token_byte (length lits) 0"
    by (simp add: token_byte_def)
  have t: "pos < length d" "d ! pos = token_byte (length lits) 0"
    "drop (Suc pos) d = ext_bytes (length lits) @ lits"
    using drop_Cons_nth [of pos d] assms(1) by (simp_all add: emit_final_def ext_bytes_def Let_def tok)
  define p1 where "p1 = Suc pos + length (ext_bytes (length lits))"
  have r1: "read_length d sz (pos + 1) (unat (drop_bit 4 (d ! pos))) = Inr (length lits, p1)"
    using read_length_bytes [OF t(3)] assms(2) by (simp add: t(2) token_fields p1_def)
  have d1: "drop p1 d = lits"
    using drop_append_add [OF t(3)] by (simp add: p1_def)
  moreover have "length d - Suc pos = length (ext_bytes (length lits)) + length lits"
    using arg_cong [OF t(3), of length] by simp
  then have "p1 + length lits = length d" using t(1) by (simp add: p1_def)
  ultimately show ?thesis
    using t r1 assms(2) by (simp add: decompress_loop.simps [of d sz pos out] Let_def)
qed

lemma decompress_loop_block:
  "\<lbrakk>drop pos d = encode_block ss lits; lz_valid out ss; length (lz_run out ss) + length lits = sz\<rbrakk>
   \<Longrightarrow> decompress_loop d sz pos out = Inr (lz_run out ss @ lits)"
proof (induction out ss arbitrary: pos rule: lz_valid.induct)
  case (1 out)
  then show ?case by (simp add: encode_block_def decompress_loop_final)
next
  case (2 out l off cnt ss)
  let ?out' = "lz_copy (out @ l) off cnt" and ?n = "length (encode_seq (l, off, cnt))"
  have d: "drop pos d = encode_seq (l, off, cnt) @ encode_block ss lits"
    using "2.prems"(1) by (simp add: encode_block_def)
  have "length ?out' + length lits \<le> sz"
    using "2.prems"(3) length_lz_run [of ?out' ss] by simp
  then have "decompress_loop d sz pos out = decompress_loop d sz (pos + ?n) ?out'"
    using "2.prems"(2) by (intro decompress_loop_seq [OF d]) auto
  also have "\<dots> = Inr (lz_run ?out' ss @ lits)"
    using "2.prems" drop_append_add [OF d] by (intro "2.IH") auto
  finally show ?case by simp
qed

lemma decompress_block:
  assumes "lz_valid [] ss" "length (lz_run [] ss @ lits) = n" "n \<le> 4096"
  shows "decompress (encode_block ss lits) (int n) = Inr (lz_run [] ss @ lits)"
  using decompress_loop_block [of 0 "encode_block ss lits" ss lits "[]" n] assms
  by (simp add: decompress_def)

subsection \<open>What the encoder emits\<close>

lemma match_count_bounds:
  "pos + c \<le> length d - 5 \<Longrightarrow>
   c \<le> match_count d prev pos c \<and> pos + match_count d prev pos c \<le> length d - 5
   \<and> (\<forall>i. c \<le> i \<and> i < match_count d prev pos c \<longrightarrow> d ! (prev + i) = d ! (pos + i))"
proof (induction d prev pos c rule: match_count.induct)
  case (1 d prev pos c)
  show ?case
  proof (cases "pos + c < length d - 5 \<and> d ! (prev + c) = d ! (pos + c)")
    case True
    then have m: "match_count d prev pos c = match_count d prev pos (c + 1)"
      by (simp add: match_count.simps [of d prev pos c])
    from True 1 have IH: "c + 1 \<le> match_count d prev pos (c + 1)
        \<and> pos + match_count d prev pos (c + 1) \<le> length d - 5
        \<and> (\<forall>i. c + 1 \<le> i \<and> i < match_count d prev pos (c + 1) \<longrightarrow> d ! (prev + i) = d ! (pos + i))"
      by simp
    show ?thesis
    proof (intro conjI allI impI)
      fix i
      assume "c \<le> i \<and> i < match_count d prev pos c"
      then show "d ! (prev + i) = d ! (pos + i)" using IH True m by (cases "i = c") auto
    qed (use IH m in auto)
  next
    case False
    then have "match_count d prev pos c = c" by (subst match_count.simps) (rule if_not_P)
    with "1.prems" show ?thesis by auto
  qed
qed

text \<open>
  A sequence list in the form the encoder promises, relative to the whole input of \<open>n\<close> bytes: every
  match has at least twelve bytes, starts before the last twelve and ends before the last five.
\<close>

fun lz_margins :: "nat \<Rightarrow> nat \<Rightarrow> lz_seq list \<Rightarrow> bool" where
  "lz_margins n start [] = True"
| "lz_margins n start ((lits, off, cnt) # ss) =
     (12 \<le> cnt \<and> start + length lits + 12 \<le> n \<and> start + length lits + cnt + 5 \<le> n
      \<and> lz_margins n (start + length lits + cnt) ss)"

fun seqs_length :: "lz_seq list \<Rightarrow> nat" where
  "seqs_length [] = 0"
| "seqs_length ((lits, off, cnt) # ss) = length lits + cnt + seqs_length ss"

lemma length_lz_run_eq: "length (lz_run out ss) = length out + seqs_length ss"
  by (induction out ss rule: lz_run.induct) auto

lemma lz_margins_append:
  "lz_margins n start (ss @ ts) \<longleftrightarrow> lz_margins n start ss \<and> lz_margins n (start + seqs_length ss) ts"
  by (induction n start ss rule: lz_margins.induct) (auto simp: add.assoc)

definition table_ok :: "byte list \<Rightarrow> nat \<Rightarrow> (byte list \<rightharpoonup> nat) \<Rightarrow> bool" where
  "table_ok d pos table \<longleftrightarrow> (\<forall>k p. table k = Some p \<longrightarrow> p < pos \<and> take 4 (drop p d) = k)"

lemma table_ok_update:
  "table_ok d pos table \<Longrightarrow> 1 \<le> k \<Longrightarrow> table_ok d (pos + k) (table(take 4 (drop pos d) \<mapsto> pos))"
  by (fastforce simp: table_ok_def)

text \<open>The loop invariant: the output so far encodes the input up to \<open>anchor\<close>.\<close>

definition encodes_upto :: "byte list \<Rightarrow> nat \<Rightarrow> nat \<Rightarrow> byte list \<Rightarrow> lz_seq list \<Rightarrow> bool" where
  "encodes_upto d anchor matches out ss \<longleftrightarrow>
     out = concat (map encode_seq ss) \<and> matches = length ss \<and> lz_valid [] ss \<and>
     lz_run [] ss = take anchor d \<and> anchor \<le> length d \<and> lz_margins (length d) 0 ss"

lemma encodes_upto_match:
  assumes inv: "encodes_upto d anchor m out ss"
    and "anchor \<le> pos" "prev < pos" "pos - prev \<le> 65535" "pos + 12 \<le> length d" "12 \<le> cnt"
    and "pos + cnt \<le> length d - 5" and eq: "\<And>i. i < cnt \<Longrightarrow> d ! (prev + i) = d ! (pos + i)"
  shows "encodes_upto d (pos + cnt) (m + 1) (out @ emit_match d anchor pos prev cnt)
    (ss @ [(take (pos - anchor) (drop anchor d), pos - prev, cnt)])"
proof -
  let ?l = "take (pos - anchor) (drop anchor d)"
  have run: "lz_run [] ss = take anchor d" using inv by (simp add: encodes_upto_def)
  have "lz_run [] ss @ ?l = take pos d"
    using assms(2) take_add [of anchor "pos - anchor" d] by (simp add: run)
  moreover have "lz_copy (take pos d) (pos - prev) cnt = take (pos + cnt) d"
    using assms by (intro lz_copy_repeats) auto
  moreover have "length ?l = pos - anchor" using assms by simp
  moreover have "seqs_length ss = anchor"
    using length_lz_run_eq [of "[]" ss] inv by (simp add: run encodes_upto_def)
  moreover have "emit_match d anchor pos prev cnt = encode_seq (?l, pos - prev, cnt)"
    using assms by (auto simp: emit_match_def ext_bytes_def Let_def)
  ultimately show ?thesis
    using inv assms by (auto simp: encodes_upto_def lz_run_append lz_valid_append lz_margins_append)
qed

lemma compress_loop_inv:
  "\<lbrakk>encodes_upto d anchor m out ss; anchor \<le> pos; pos \<le> length d; table_ok d pos table;
    compress_loop d pos anchor m table out = (a, m', out')\<rbrakk>
   \<Longrightarrow> \<exists>ss'. encodes_upto d a m' out' ss'"
proof (induction d pos anchor m table out arbitrary: ss rule: compress_loop.induct)
  case (1 d pos anchor m table out)
  let ?key = "take 4 (drop pos d)"
  let ?table = "table(?key \<mapsto> pos)"
  note step = compress_loop.simps [of d pos anchor m table out]
  show ?case
  proof (cases "pos + 12 \<le> length d")
    case False
    with 1 show ?thesis by (auto simp: step)
  next
    case True
    have tab: "table_ok d (pos + k) ?table" if "1 \<le> k" for k
      using table_ok_update [OF "1.prems"(4) that] .
    have skip: ?thesis if "compress_loop d (pos + 1) anchor m ?table out = (a, m', out')"
      and IH: "encodes_upto d anchor m out ss \<Longrightarrow> anchor \<le> pos + 1 \<Longrightarrow> pos + 1 \<le> length d \<Longrightarrow>
        table_ok d (pos + 1) ?table \<Longrightarrow>
        compress_loop d (pos + 1) anchor m ?table out = (a, m', out') \<Longrightarrow> ?thesis"
      by (rule IH) (use "1.prems" True tab [of 1] that(1) in auto)
    show ?thesis
    proof (cases "table ?key")
      case None
      with True "1.prems"(5) have "compress_loop d (pos + 1) anchor m ?table out = (a, m', out')"
        by (simp add: step Let_def)
      then show ?thesis by (rule skip) (use "1.IH"(1) [OF True refl refl None, of ss] in blast)
    next
      case (Some prev)
      define cnt where "cnt = match_count d prev pos 4"
      have prev: "prev < pos" "take 4 (drop prev d) = ?key"
        using "1.prems"(4) Some by (simp_all add: table_ok_def)
      show ?thesis
      proof (cases "pos - prev > 65535 \<or> cnt < 12")
        case skipped: True
        with True Some "1.prems"(5)
        have "compress_loop d (pos + 1) anchor m ?table out = (a, m', out')"
          by (auto simp: step Let_def cnt_def split: if_splits)
        then show ?thesis
        proof (rule skip, goal_cases)
          case 1
          show ?case
          proof (cases "pos - prev > 65535")
            case True
            from "1.IH"(2) [OF \<open>pos + 12 \<le> length d\<close> refl refl Some True, of ss] 1 show ?thesis
              by blast
          next
            case False
            with skipped have "cnt < 12" by blast
            from "1.IH"(3) [OF \<open>pos + 12 \<le> length d\<close> refl refl Some False cnt_def this, of ss] 1
            show ?thesis by blast
          qed
        qed
      next
        case False
        then have "compress_loop d (pos + cnt) (pos + cnt) (m + 1) ?table
            (out @ emit_match d anchor pos prev cnt) = (a, m', out')"
          using True Some "1.prems"(5) by (simp add: step Let_def cnt_def)
        moreover have b: "pos + cnt \<le> length d - 5"
          and tl: "\<forall>i. 4 \<le> i \<and> i < cnt \<longrightarrow> d ! (prev + i) = d ! (pos + i)"
          using match_count_bounds [of pos 4 d prev] True by (simp_all add: cnt_def)
        have "d ! (prev + i) = d ! (pos + i)" if "i < cnt" for i
        proof (cases "i < 4")
          case i: True
          from arg_cong [OF prev(2), of "\<lambda>l. l ! i"] show ?thesis using i prev(1) True by simp
        qed (use tl that in auto)
        then have "encodes_upto d (pos + cnt) (m + 1) (out @ emit_match d anchor pos prev cnt)
            (ss @ [(take (pos - anchor) (drop anchor d), pos - prev, cnt)])"
          using "1.prems" False True b prev by (intro encodes_upto_match) auto
        moreover have "pos + cnt \<le> length d" "1 \<le> cnt" using b False by auto
        moreover have "\<not> 65535 < pos - prev" "\<not> cnt < 12" using False by auto
        ultimately show ?thesis
          using "1.IH"(4) [OF True refl refl Some _ cnt_def] tab [of cnt] by blast
      qed
    qed
  qed
qed

lemma compress_block:
  obtains ss lits where "compress d = (encode_block ss lits, length ss)"
    and "lz_valid [] ss" and "lz_run [] ss @ lits = d" and "lz_margins (length d) 0 ss"
proof -
  obtain a m out where l: "compress_loop d 0 0 0 Map.empty [] = (a, m, out)"
    by (metis prod_cases3)
  have "encodes_upto d 0 0 [] []" by (simp add: encodes_upto_def)
  moreover have "table_ok d 0 Map.empty" by (simp add: table_ok_def)
  ultimately obtain ss where "encodes_upto d a m out ss"
    using compress_loop_inv [OF _ _ _ _ l] by blast
  then show thesis
    by (intro that [of ss "drop a d"]) (simp_all add: compress_def l encodes_upto_def encode_block_def)
qed

subsection \<open>The decoder on any input\<close>

lemma length_copy_match: "src < length out \<Longrightarrow> length (copy_match out src n) = length out + n"
  by (simp add: copy_match_closed)

lemma read_length_error: "read_length d sz pos v = Inl e \<Longrightarrow> e = error ProtocolError"
proof -
  have "read_length_more d sz pos v = Inl e \<Longrightarrow> e = error ProtocolError" for v
    by (induction d sz pos v rule: read_length_more.induct)
      (auto simp: read_length_more.simps Let_def split: if_splits)
  then show "read_length d sz pos v = Inl e \<Longrightarrow> e = error ProtocolError"
    by (auto simp: read_length_def split: if_splits)
qed

text \<open>One round of the loop ends the decoding or advances the position with a bounded output.\<close>

lemma decompress_loop_step:
  "decompress_loop d sz pos out = Inl (error ProtocolError)
   \<or> (\<exists>r. decompress_loop d sz pos out = Inr r \<and> length r = sz)
   \<or> (\<exists>p r. pos < p \<and> pos < length d \<and> length r \<le> sz
        \<and> decompress_loop d sz pos out = decompress_loop d sz p r)"
proof (cases "pos < length d")
  case True
  let ?tok = "d ! pos"
  note step = decompress_loop.simps [of d sz pos out] True Let_def read_byte_def
  show ?thesis
  proof (cases "read_length d sz (Suc pos) (unat (drop_bit 4 ?tok))")
    case (Inl e)
    then show ?thesis using read_length_error [OF Inl] by (simp add: step)
  next
    case (Inr r1)
    obtain l p1 where r1: "r1 = (l, p1)" by (cases r1)
    let ?out1 = "out @ take l (drop p1 d)" and ?p2 = "p1 + l"
    let ?off = "unat (d ! ?p2) OR push_bit 8 (unat (d ! Suc ?p2))"
    show ?thesis
    proof (cases "p1 + l > length d \<or> length out + l > sz \<or> ?p2 \<ge> length d \<or> Suc ?p2 \<ge> length d")
      case True
      then show ?thesis by (auto simp: step Inr r1)
    next
      case False
      show ?thesis
      proof (cases "read_length d sz (Suc (Suc ?p2)) (unat (?tok AND 15))")
        case e: (Inl e)
        show ?thesis using read_length_error [OF e] e False by (simp add: step Inr r1)
      next
        case r2: (Inr r2)
        obtain len p5 where r2': "r2 = (len, p5)" by (cases r2)
        have "Suc pos \<le> p1" using Inr unfolding r1 by (rule read_length_pos)
        moreover have "Suc (Suc ?p2) \<le> p5" using r2 unfolding r2' by (rule read_length_pos)
        ultimately have "pos < p5" by simp
        show ?thesis
        proof (cases "1 \<le> ?off \<and> ?off \<le> length ?out1 \<and> length ?out1 + (len + 4) \<le> sz")
          case True
          let ?r = "copy_match ?out1 (length ?out1 - ?off) (len + 4)"
          have "length ?r \<le> sz" using True by (subst length_copy_match) auto
          moreover have "decompress_loop d sz pos out = decompress_loop d sz p5 ?r"
            using True False by (simp add: step Inr r1 r2 r2')
          ultimately show ?thesis using \<open>pos < p5\<close> \<open>pos < length d\<close> by blast
        qed (use False in \<open>auto simp: step Inr r1 r2 r2'\<close>)
      qed
    qed
  qed
qed (simp add: decompress_loop.simps [of d sz pos out])

lemma decompress_loop_result:
  "decompress_loop d sz pos out = Inl (error ProtocolError)
   \<or> (\<exists>r. decompress_loop d sz pos out = Inr r \<and> length r = sz)"
proof (induction "length d - pos" arbitrary: pos out rule: less_induct)
  case less
  from decompress_loop_step [of d sz pos out] show ?case
    by (elim disjE exE conjE) (use less in \<open>auto simp del: split_paired_Ex\<close>)
qed


lemma decompress_compress: "length d \<le> 4096 \<Longrightarrow> decompress (fst (compress d)) (int (length d)) = Inr d"
proof -
  assume n: "length d \<le> 4096"
  obtain ss lits where "compress d = (encode_block ss lits, length ss)" "lz_valid [] ss"
    and r: "lz_run [] ss @ lits = d" using compress_block by blast
  with decompress_block [of ss lits "length d"] n r show ?thesis by simp
qed

text \<open>A block is read back from its packed form and its length, as the header of a \<open>ZDATA\<close> line gives them.\<close>

interpretation lz4: codec "\<lambda>d. (fst (compress d), length d)"
    "\<lambda>(packed, n). case decompress packed (int n) of Inl e \<Rightarrow> None | Inr d \<Rightarrow> Some d" "\<lambda>d. length d \<le> 4096"
  by unfold_locales (simp add: decompress_compress)

lemma packed_determines: "length a \<le> 4096 \<Longrightarrow> length b \<le> 4096 \<Longrightarrow>
    compress a = compress b \<Longrightarrow> length a = length b \<Longrightarrow> a = b"
  using lz4.inject [of a b] by simp

lemma worthwhile_Some:
  "worthwhile raw baud = Some p \<Longrightarrow>
     p = fst (compress raw) \<and> 64 \<le> length raw \<and> 100 * length p \<le> 85 * length raw"
proof -
  assume "worthwhile raw baud = Some p"
  then have "p = fst (compress raw)" "64 \<le> length raw"
    "of_nat (length p) \<le> of_nat (length raw) * (85 / 100 :: rat)"
    by (auto simp: worthwhile_def Let_def split: if_splits prod.splits)
  moreover from this(3) have "of_nat (100 * length p) \<le> (of_nat (85 * length raw) :: rat)" by simp
  then have "100 * length p \<le> 85 * length raw" by (simp only: of_nat_le_iff)
  ultimately show ?thesis by simp
qed

subsection \<open>Properties\<close>

text \<open>C12: compression is lossless: decoding the output of \<open>compress\<close> with the length of the input
  gives the input back, for every block up to the decoder's limit of 4096 bytes.\<close>

theorem lz4_roundtrip:
  assumes "length data \<le> 4096"
  shows "decompress (fst (compress data)) (int (length data)) = Inr data"
  using assms by (rule decompress_compress)

theorem lz4_roundtrip_witness:
  "decompress (fst (compress (replicate 40 7))) (int (length (replicate 40 (7 :: byte))))
     = Inr (replicate 40 7)"
  by (rule lz4_roundtrip) simp

text \<open>C25: the decoder implements the block format: on the encoding of any valid sequence list it
  returns the byte-by-byte expansion, so it also decodes blocks of other encoders.\<close>

theorem decompress_refines_format:
  assumes "lz_valid [] ss" and "length (lz_run [] ss @ lits) \<le> 4096"
  shows "decompress (encode_block ss lits) (int (length (lz_run [] ss @ lits)))
    = Inr (lz_run [] ss @ lits)"
  using assms by (intro decompress_block) simp_all

theorem decompress_refines_format_witness:
  "decompress (encode_block [([1, 2, 3], 2, 6)] [9])
     (int (length (lz_run [] [([1, 2, 3], 2, 6)] @ [9]))) = Inr [1, 2, 3, 2, 3, 2, 3, 2, 3, 9]"
proof -
  have "lz_run [] [([1, 2, 3], 2, 6)] @ [9 :: byte] = [1, 2, 3, 2, 3, 2, 3, 2, 3, 9]"
    by (simp add: eval_nat_numeral)
  then show ?thesis
    using decompress_refines_format [of "[([1, 2, 3], 2, 6)]" "[9]"] by simp
qed

text \<open>C27: the encoder keeps the format's margins: its output is the encoding of a valid sequence
  list that expands to the input, with one sequence per reported match, every match at least
  twelve bytes long, starting before the last twelve bytes and ending before the last five.\<close>

theorem compress_margins:
  "\<exists>ss lits. compress data = (encode_block ss lits, length ss) \<and> lz_valid [] ss
     \<and> lz_run [] ss @ lits = data \<and> lz_margins (length data) 0 ss"
proof -
  obtain ss lits where "compress data = (encode_block ss lits, length ss)" "lz_valid [] ss"
    "lz_run [] ss @ lits = data" "lz_margins (length data) 0 ss" by (rule compress_block)
  then show ?thesis by blast
qed

text \<open>C26: decoding is total and bounded: on any input it stops, and either raises a protocol error
  or returns exactly the announced number of bytes, at most 4096.\<close>

theorem decompress_bounded:
  "decompress data sz = Inl (error ProtocolError)
   \<or> (\<exists>out. decompress data sz = Inr out \<and> int (length out) = sz \<and> length out \<le> 4096)"
  using decompress_loop_result [of data "nat sz" 0 "[]"] by (auto simp: decompress_def)

text \<open>C29: copying a match in growing chunks, as the decoder does, gives the same bytes as the
  reference that copies one byte at a time, overlapping matches included.\<close>

theorem copy_match_bytewise:
  assumes "1 \<le> offset" and "offset \<le> length out"
  shows "copy_match out (length out - offset) count = lz_copy out offset count"
  using assms by (rule copy_match_lz_copy)

theorem copy_match_bytewise_witness: "copy_match [1, 2, 3] 1 5 = lz_copy [1, 2, 3] 2 5"
  using copy_match_bytewise [of 2 "[1, 2, 3]" 5] by simp

text \<open>C28: a block that \<open>worthwhile\<close> packs is at least 15 percent smaller and decodes to the block.\<close>

theorem worthwhile_sound:
  assumes "worthwhile raw baud = Some packed" and "length raw \<le> 4096"
  shows "decompress packed (int (length raw)) = Inr raw \<and> 100 * length packed \<le> 85 * length raw"
  using worthwhile_Some [OF assms(1)] decompress_compress [OF assms(2)] by auto

lemma zeros_match: "match_count (replicate 64 0) 0 1 4 = 58" by (simp add: match_count.simps)

lemma compress_zeros: "compress (replicate 64 0) = ([31, 0, 1, 0, 39] @ emit_final (replicate 5 0), 1)"
  using zeros_match
  by (simp add: compress_def compress_loop.simps emit_match_def length_bytes.simps token_byte_def Let_def)

theorem worthwhile_sound_witness:
  "decompress [31, 0, 1, 0, 39, 80, 0, 0, 0, 0, 0] (int (length (replicate 64 (0 :: byte))))
     = Inr (replicate 64 0)
   \<and> 100 * length [31, 0, 1, 0, 39, 80, 0, 0, 0, 0, 0 :: byte] \<le> 85 * length (replicate 64 (0 :: byte))"
proof -
  have "compress (replicate 64 0) = ([31, 0, 1, 0, 39, 80, 0, 0, 0, 0, 0], 1)"
    unfolding compress_zeros by (simp add: emit_final_def eval_nat_numeral)
  then have "worthwhile (replicate 64 0) 9600 = Some [31, 0, 1, 0, 39, 80, 0, 0, 0, 0, 0]"
    by (simp add: worthwhile_def)
  from worthwhile_sound [OF this] show ?thesis by simp
qed

end
