(* ===== verification/Sound.thy ===== *)
theory Sound
  imports Errors
begin

text \<open>
  \<open>sound.py\<close>: which sound an event selects.  The wave forms are floating-point synthesis and are
  left out; a rendered tone is named by the table it comes from and its key there.  The model is
  of a started \<open>Sound\<close>, whose tables \<open>_start\<close> filled; a failed start leaves \<open>enabled\<close> false.
\<close>

datatype tone =
    Plain string             \<comment> \<open>\<open>_pcm[word]\<close>\<close>
  | MorseRx string           \<comment> \<open>\<open>_morse_rx[word]\<close>\<close>
  | MorseTx string           \<comment> \<open>\<open>_morse_tx[word]\<close>\<close>
  | AltTone string nat       \<comment> \<open>\<open>_alt[word][0 or 1]\<close>\<close>
  | Net "string list"        \<comment> \<open>effects of the internet leg, played one after the other\<close>
  | Handshake string         \<comment> \<open>\<open>_hs[name]\<close>\<close>

datatype direction = Rx | Tx

record sound =
  enabled :: bool
  event :: "(msec \<times> tone) option"  \<comment> \<open>\<open>_event\<close>: only the newest one is kept\<close>
  blip :: nat

definition PITCH :: "(string \<times> nat) list" where
  "PITCH = [(''HELLO'', 262), (''HELLO?'', 277), (''OHRU'', 370), (''GET'', 294), (''FETCHING'', 311),
    (''META'', 330), (''READY'', 349), (''DATA'', 392), (''ZDATA'', 415), (''BARRIER'', 196),
    (''RESUME'', 554), (''DROP'', 185), (''RST'', 123), (''RST-ACK'', 138), (''AYT?'', 698),
    (''AYT-OK'', 784), (''RMB?'', 932), (''RMB'', 1047), (''RMB-ACK'', 1175), (''HERE'', 880),
    (''BYE'', 131), (''ACK'', 440), (''NAK'', 147), (''DONE'', 494), (''OK'', 523), (''FAIL'', 110),
    (''ERR'', 98), (''CLOSE'', 82), (''HRU'', 466), (''PING'', 740), (''PONG'', 831),
    (''BEACON'', 622), (''MARK'', 659)]"

definition MORSE :: "(string \<times> string) list" where
  "MORSE = [(''BEACON'', ''-...''), (''MARK'', ''--''), (''PING'', ''.--.''), (''PONG'', ''.--. ---''),
    (''HELLO'', ''....''), (''HELLO?'', ''..--..''), (''OHRU'', ''---''), (''HRU'', ''.... .-. ..-''),
    (''CLOSE'', ''-.-.''), (''BYE'', ''-...'')]"

definition ALT_WORDS :: "string list" where
  "ALT_WORDS = [''DATA'', ''ZDATA'', ''ACK'']"

definition NET_ERRORS :: "err_class list" where
  "NET_ERRORS = [UrlError, DnsError, HttpError, SizeError]"

definition push :: "msec \<Rightarrow> tone option \<Rightarrow> sound \<Rightarrow> sound" where
  "push now pcm s =
     (case pcm of None \<Rightarrow> s | Some t \<Rightarrow> if enabled s then s\<lparr>event := Some (now, t)\<rparr> else s)"

definition first_word :: "string \<Rightarrow> string" where
  "first_word text = takeWhile (\<lambda>c. c \<noteq> CHR '' '') text"

definition sound_line :: "msec \<Rightarrow> string \<Rightarrow> direction \<Rightarrow> sound \<Rightarrow> sound" where
  "sound_line now text dir s =
     (if \<not> enabled s then s
      else let word = first_word text in
        if word \<in> fst ` set MORSE
        then push now (Some (case dir of Tx \<Rightarrow> MorseTx word | Rx \<Rightarrow> MorseRx word)) s
        else if word \<in> set ALT_WORDS
        then (push now (Some (AltTone word (blip s mod 2))) s)\<lparr>blip := blip s + 1\<rparr>
        else push now (if word \<in> fst ` set PITCH then Some (Plain word) else None) s)"

definition sound_hs :: "msec \<Rightarrow> string \<Rightarrow> sound \<Rightarrow> sound" where
  "sound_hs now name s = push now (Some (Handshake name)) s"

text \<open>The internet leg: a request, a response whose burst grows with its size, an error.\<close>

definition net_request :: "msec \<Rightarrow> sound \<Rightarrow> sound" where
  "net_request now s = push now (Some (Net [''dial''])) s"

definition net_response :: "msec \<Rightarrow> nat \<Rightarrow> sound \<Rightarrow> sound" where
  "net_response now nbytes s =
     (let reps = max 1 (min 4 (1 + nbytes div 262144))
      in push now (Some (Net (replicate reps ''carrier'' @ [''hangup'']))) s)"

definition class_name :: "err_class \<Rightarrow> string" where
  "class_name c = (case c of UrlError \<Rightarrow> ''err:UrlError'' | DnsError \<Rightarrow> ''err:DnsError''
     | HttpError \<Rightarrow> ''err:HttpError'' | SizeError \<Rightarrow> ''err:SizeError'' | _ \<Rightarrow> ''hangup'')"

definition net_error :: "msec \<Rightarrow> err_class \<Rightarrow> sound \<Rightarrow> sound" where
  "net_error now c s = push now (Some (Net [class_name c])) s"

lemma sound_line_disabled [simp]: "\<not> enabled s \<Longrightarrow> sound_line now text dir s = s"
  by (simp add: sound_line_def)

lemma enabled_push [simp]: "enabled (push now t s) = enabled s"
  by (simp add: push_def split: option.split)

lemma enabled_sound_line [simp]: "enabled (sound_line now text dir s) = enabled s"
  by (simp add: sound_line_def Let_def)

text \<open>Sound never queues: a player that is on keeps exactly one event, the newest; whatever was
  pending before, a word of the vocabulary replaces it by an event of the present moment, and nothing
  but the event and the two-pitch counter changes.\<close>

theorem sound_keeps_newest:
  "enabled s \<Longrightarrow> first_word txt \<in> fst ` set PITCH \<Longrightarrow>
     \<exists>t b. sound_line now txt dir s = s\<lparr>event := Some (now, t), blip := b\<rparr> \<and> blip s \<le> b"
  by (cases s) (auto simp: sound_line_def push_def Let_def split: option.split)

lemma sound_keeps_newest_witness:
  "\<exists>t b. sound_line 9 ''ACK 3'' Rx \<lparr>enabled = True, event = Some (2, Plain ''META''), blip = 4\<rparr>
     = \<lparr>enabled = True, event = Some (9, t), blip = b\<rparr> \<and> 4 \<le> b"
  using sound_keeps_newest [of "\<lparr>enabled = True, event = Some (2, Plain ''META''), blip = 4\<rparr>" "''ACK 3''" 9 Rx]
  by (simp add: first_word_def PITCH_def)

end
