(* ===== verification/Transport.thy ===== *)
theory Transport
  imports Sound
begin

text \<open>
  \<open>transport.py\<close> and the part of the world behind it.  A run of the program reads from a serial port
  whose behaviour is not under the program's control, so it is a script that a theorem quantifies
  over: the pieces that arrive, each after a pause, and read errors.  A script is finite; after it
  the line is silent for ever, and each read then waits for the port's timeout.  Time passes while
  the program reads and writes; \<open>time.monotonic()\<close> reads the clock.  The write log keeps every call
  of \<open>write\<close>; \<open>wire_bytes\<close> gives its bytes.
\<close>

datatype ev =
    Bytes nat "byte list" \<comment> \<open>after so many milliseconds these bytes are there; none: a timed-out read\<close>
  | Broken                \<comment> \<open>the port raises\<close>

datatype tx_write = Line string | Raw "byte list" | LineRaw string "byte list"

definition LF_byte :: byte where "LF_byte = 10"

fun wire_bytes :: "tx_write \<Rightarrow> byte list" where
  "wire_bytes (Line l) = encode_ascii l @ [LF_byte]"
| "wire_bytes (Raw d) = d"
| "wire_bytes (LineRaw l d) = encode_ascii l @ [LF_byte] @ d"

record world =
  clock :: msec
  script :: "ev list"
  delays :: "nat list"   \<comment> \<open>how long the next writes take\<close>
  sent :: "tx_write list"

definition READ_TIMEOUT :: nat where [const_defs]: "READ_TIMEOUT = 200"

text \<open>\<open>SerialTransport.read\<close>: what is waiting, at most \<open>n\<close> bytes, or an empty read on a timeout.\<close>

fun t_read :: "nat \<Rightarrow> 'a world_scheme \<Rightarrow> (exn + byte list) \<times> 'a world_scheme" where
  "t_read n w =
     (case script w of
        [] \<Rightarrow> (Inr [], w\<lparr>clock := clock w + int READ_TIMEOUT\<rparr>)
      | Broken # es \<Rightarrow> (Inl OSErr, w\<lparr>script := es\<rparr>)
      | Bytes dt bs # es \<Rightarrow>
          if length bs \<le> n
          then (Inr bs, w\<lparr>clock := clock w + int dt, script := es\<rparr>)
          else (Inr (take n bs), w\<lparr>clock := clock w + int dt, script := Bytes 0 (drop n bs) # es\<rparr>))"

declare t_read.simps [simp del]

definition t_write :: "tx_write \<Rightarrow> 'a world_scheme \<Rightarrow> 'a world_scheme" where
  "t_write x w =
     w\<lparr>clock := clock w + (case delays w of [] \<Rightarrow> 0 | d # _ \<Rightarrow> int d),
       delays := tl (delays w), sent := sent w @ [x]\<rparr>"

text \<open>For evaluation: a state that is not yet a value is not copied.\<close>

lemma t_write_code [code]:
  "t_write x \<lparr>clock = c, script = es, delays = ds, sent = st, \<dots> = m\<rparr> =
     \<lparr>clock = c + (case ds of [] \<Rightarrow> 0 | d # _ \<Rightarrow> int d), script = es, delays = tl ds, sent = st @ [x], \<dots> = m\<rparr>"
  by (simp add: t_write_def)

text \<open>What the script still holds: a bound on the number of reads that bring anything.\<close>

fun ev_size :: "ev \<Rightarrow> nat" where
  "ev_size (Bytes dt bs) = Suc (length bs)"
| "ev_size Broken = 1"

definition pending_input :: "'a world_scheme \<Rightarrow> nat" where
  "pending_input w = sum_list (map ev_size (script w))"

definition script_bytes :: "ev list \<Rightarrow> byte list" where
  "script_bytes es = concat (map (\<lambda>e. case e of Bytes dt bs \<Rightarrow> bs | Broken \<Rightarrow> []) es)"

lemma t_read_cases:
  assumes "t_read n w = (r, w')" and "1 \<le> n"
  obtains (eof) "script w = []" "r = Inr []" "w' = w\<lparr>clock := clock w + int READ_TIMEOUT\<rparr>"
  | (broken) "r = Inl OSErr" "script w = Broken # script w'" "clock w' = clock w"
      "sent w' = sent w" "world.more w' = world.more w"
  | (got) bs dt where "r = Inr bs" "clock w' = clock w + int dt" "sent w' = sent w"
      "length bs \<le> n" "pending_input w' + length bs < pending_input w
        \<or> bs \<noteq> [] \<and> pending_input w' + length bs = pending_input w"
      "script_bytes (script w) = bs @ script_bytes (script w')" "world.more w' = world.more w"
proof (cases "script w")
  case Nil
  then show ?thesis using assms by (intro eof) (auto simp: t_read.simps)
next
  case (Cons e es)
  show ?thesis
  proof (cases e)
    case (Bytes dt bs)
    show ?thesis
    proof (cases "length bs \<le> n")
      case True
      then show ?thesis using assms Cons Bytes
        by (intro got [of bs dt]) (auto simp: t_read.simps pending_input_def script_bytes_def)
    next
      case False
      then show ?thesis using assms Cons Bytes
        by (intro got [of "take n bs" dt])
          (auto simp: t_read.simps pending_input_def script_bytes_def)
    qed
  next
    case Broken
    then show ?thesis using assms Cons by (intro broken) (auto simp: t_read.simps)
  qed
qed

subsection \<open>The in-memory pipe\<close>

text \<open>\<open>_PipeEnd.write\<close> with its test hook: after the next line feed, that many bytes are flipped.\<close>

record pipe_end =
  queue :: "byte list"
  corrupt_after_next_line :: nat
  armed :: bool

fun pipe_write :: "byte list \<Rightarrow> pipe_end \<Rightarrow> pipe_end" where
  "pipe_write [] p = p"
| "pipe_write (b # bs) p =
     (if armed p \<and> corrupt_after_next_line p > 0
      then pipe_write bs (p\<lparr>corrupt_after_next_line := corrupt_after_next_line p - 1,
             queue := queue p @ [b XOR 255]\<rparr>)
      else pipe_write bs (p\<lparr>armed := armed p \<or> b = LF_byte \<and> corrupt_after_next_line p > 0,
             queue := queue p @ [b]\<rparr>))"

lemma pipe_write_clean:
  "corrupt_after_next_line p = 0 \<Longrightarrow> queue (pipe_write bs p) = queue p @ bs"
  by (induction bs p rule: pipe_write.induct) auto

end
