(* ===== verification/Consume.thy ===== *)
theory Consume
  imports Errors
begin

text \<open>
  The interface behind every loop of the two ends: a step moves the state (\<open>moves\<close>), and a step that
  returns a line has used up some of the input that is \<open>left\<close>.  \<open>reads_by\<close> says both of a step from
  \<open>s\<close> to \<open>s'\<close> with the result \<open>r\<close>; the results that stand for a line are those of \<open>P\<close>.
\<close>

definition reads_by ::
  "('s \<Rightarrow> 's \<Rightarrow> bool) \<Rightarrow> ('s \<Rightarrow> nat) \<Rightarrow> ('r \<Rightarrow> bool) \<Rightarrow> 's \<Rightarrow> 'r \<Rightarrow> 's \<Rightarrow> bool" where
  "reads_by moves left P s r s' \<longleftrightarrow> moves s s' \<and> (P r \<longrightarrow> left s' < left s)"

definition got :: "exn + 'a \<Rightarrow> bool" where
  "got r \<longleftrightarrow> \<not> isl r"

fun settled :: "exn + 'a option \<Rightarrow> bool" where
  "settled (Inr (Some x)) = True"
| "settled _ = False"

lemma got_simps [simp]: "got (Inr x)" "\<not> got (Inl e)"
  by (simp_all add: got_def)

lemma reads_moves: "reads_by moves left P s r s' \<Longrightarrow> moves s s'"
  by (simp add: reads_by_def)

lemma reads_less: "reads_by moves left P s r s' \<Longrightarrow> P r \<Longrightarrow> left s' < left s"
  by (simp add: reads_by_def)

locale consuming =
  fixes moves :: "'s \<Rightarrow> 's \<Rightarrow> bool" and left :: "'s \<Rightarrow> nat"
  assumes moves_refl: "moves s s"
    and moves_trans: "moves a b \<Longrightarrow> moves b c \<Longrightarrow> moves a c"
    and moves_left: "moves a b \<Longrightarrow> left b \<le> left a"
begin

lemma reads_none: "moves s s' \<Longrightarrow> \<not> P r \<Longrightarrow> reads_by moves left P s r s'"
  by (simp add: reads_by_def)

lemma reads_after: "moves a b \<Longrightarrow> reads_by moves left P b r c \<Longrightarrow> reads_by moves left P a r c"
  using moves_left [of a b] moves_trans [of a b c] by (auto simp: reads_by_def)

lemma reads_then:
  "reads_by moves left Q a q b \<Longrightarrow> Q q \<Longrightarrow> moves b c \<Longrightarrow> reads_by moves left P a r c"
  using moves_left [of b c] moves_trans [of a b c] by (auto simp: reads_by_def)

lemma reads_same:
  "reads_by moves left Q a q b \<Longrightarrow> (P r \<Longrightarrow> Q q) \<Longrightarrow> reads_by moves left P a r b"
  by (auto simp: reads_by_def)

end

text \<open>A source of lines: what the protocol code calls to get the next one.\<close>

locale line_source = consuming moves left
  for moves :: "'s \<Rightarrow> 's \<Rightarrow> bool" and left :: "'s \<Rightarrow> nat" +
  fixes recv :: "'t \<Rightarrow> 's \<Rightarrow> (exn + string) \<times> 's"
  assumes recv_reads: "recv t s = (r, s') \<Longrightarrow> reads_by moves left got s r s'"
begin

lemma recv_less: "recv t s = (Inr x, s') \<Longrightarrow> left s' < left s"
  using recv_reads [of t s "Inr x" s'] by (simp add: reads_by_def)

text \<open>Whatever the code does between its reads, the input bounds the number of lines it gets.\<close>

lemma lines_bounded:
  assumes "\<And>i. i < n \<Longrightarrow> \<exists>t x a. moves (f i) a \<and> recv t a = (Inr x, f (Suc i))"
  shows "left (f n) + n \<le> left (f 0)"
  using assms
proof (induction n)
  case (Suc n)
  obtain t x a where a: "moves (f n) a" "recv t a = (Inr x, f (Suc n))" using Suc.prems by blast
  have "left (f (Suc n)) < left (f n)" using recv_less [OF a(2)] moves_left [OF a(1)] by simp
  then show ?case using Suc by fastforce
qed simp

end

lemma outcome_cases [case_names error over fine]:
  fixes x :: "exn + 'a option"
  obtains y where "x = Inl y" | "x = Inr None" | y where "x = Inr (Some y)"
  by (cases x; cases "projr x") auto

end
