(* ===== verification/Link.thy ===== *)
theory Link
  imports Transport Consume "HOL-Library.Sublist"
begin

unbundle bit_operations_syntax

text \<open>
  \<open>link.py\<close>: control lines and raw payloads over a byte transport, with the keep-alive state machine
  of \<open>recv_line\<close>.  The link's record extends the world: \<open>buf\<close> is \<open>_buf\<close>, the four bits are the
  alternating numbers of the probes.  The one \<open>on_idle\<close> callback of the repository,
  \<open>control_idle\<close> of \<open>daemon.py\<close>, is modelled here because \<open>recv_line\<close> calls it: \<open>ctl\<close> holds what
  each poll of the control socket finds, \<open>control_bit\<close> is the daemon's variable.  Trace and log
  output is left out.
\<close>

definition MAX_LINE_LEN :: nat where [const_defs]: "MAX_LINE_LEN = 512"
definition CLOSE_TIMEOUT :: msec where [const_defs]: "CLOSE_TIMEOUT = 3000"
definition CLOSE_RETRIES :: nat where [const_defs]: "CLOSE_RETRIES = 3"
definition LINGER_TIME :: msec where [const_defs]: "LINGER_TIME = 2000"
definition KEEPALIVE_INTERVAL :: msec where [const_defs]: "KEEPALIVE_INTERVAL = 5000"
definition KEEPALIVE_RETRIES :: nat where [const_defs]: "KEEPALIVE_RETRIES = 3"
definition KEEPALIVE_TIMEOUT :: msec where [const_defs]: "KEEPALIVE_TIMEOUT = 20000"
definition BEACON_INTERVAL :: msec where [const_defs]: "BEACON_INTERVAL = 4000"

subsection \<open>State\<close>

record keepalive =
  interval :: msec
  ka_timeout :: msec
  retries :: nat
  beacon_interval :: msec
  beacon_tx :: string
  beacon_rx :: string

text \<open>\<open>KeepAlive.__post_init__\<close>\<close>

definition keepalive_check :: "keepalive \<Rightarrow> exn + keepalive" where
  "keepalive_check k =
     (if interval k \<le> 0 \<or> ka_timeout k \<le> 0 \<or> retries k < 1 \<or> beacon_interval k \<le> 0
         \<or> beacon_tx k \<notin> {''U'', ''P''} \<or> beacon_rx k \<notin> {''U'', ''P''} \<or> beacon_tx k = beacon_rx k
      then Inl ValueErr else Inr k)"

record lnk = world +
  snd_state :: sound
  buf :: "byte list"
  ping_bit :: nat
  ayt_bit :: nat
  beacon_bit :: nat
  peer_beacon_bit :: nat
  ctl :: "string list list"
  control_bit :: nat

definition flip_bit1 :: "nat \<Rightarrow> nat" where
  "flip_bit1 b = b XOR 1"

definition reset_session :: "lnk \<Rightarrow> lnk" where
  "reset_session l = l\<lparr>ping_bit := 0, ayt_bit := 0, beacon_bit := 0, peer_beacon_bit := 0\<rparr>"

subsection \<open>Sending\<close>

definition voice :: "string \<Rightarrow> direction \<Rightarrow> lnk \<Rightarrow> lnk" where
  "voice text dir l = l\<lparr>snd_state := sound_line (clock l) text dir (snd_state l)\<rparr>"

definition voice_hs :: "string \<Rightarrow> lnk \<Rightarrow> lnk" where
  "voice_hs name l = l\<lparr>snd_state := sound_hs (clock l) name (snd_state l)\<rparr>"

lemma voice_code [code]:
  "voice text dir \<lparr>clock = c, script = es, delays = ds, sent = st, snd_state = sn, buf = b,
       ping_bit = p, ayt_bit = a, beacon_bit = bb, peer_beacon_bit = pb, ctl = ct, control_bit = cb\<rparr> =
     \<lparr>clock = c, script = es, delays = ds, sent = st, snd_state = sound_line c text dir sn, buf = b,
       ping_bit = p, ayt_bit = a, beacon_bit = bb, peer_beacon_bit = pb, ctl = ct, control_bit = cb\<rparr>"
  "voice_hs name \<lparr>clock = c, script = es, delays = ds, sent = st, snd_state = sn, buf = b,
       ping_bit = p, ayt_bit = a, beacon_bit = bb, peer_beacon_bit = pb, ctl = ct, control_bit = cb\<rparr> =
     \<lparr>clock = c, script = es, delays = ds, sent = st, snd_state = sound_hs c name sn, buf = b,
       ping_bit = p, ayt_bit = a, beacon_bit = bb, peer_beacon_bit = pb, ctl = ct, control_bit = cb\<rparr>"
  by (simp_all add: voice_def voice_hs_def)

definition send_line :: "string \<Rightarrow> lnk \<Rightarrow> lnk" where
  "send_line text l = t_write (Line text) (voice text Tx l)"

definition send_raw :: "byte list \<Rightarrow> lnk \<Rightarrow> lnk" where
  "send_raw d l = t_write (Raw d) l"

definition send_line_and_raw :: "string \<Rightarrow> byte list \<Rightarrow> lnk \<Rightarrow> lnk" where
  "send_line_and_raw text d l = t_write (LineRaw text d) (voice text Tx l)"

subsection \<open>The local variables of one \<open>recv_line\<close>\<close>

record rl =
  last_rx :: msec
  last_ping :: msec
  last_beacon :: msec
  last_beacon_mark :: msec
  outstanding :: "string option"
  probes_sent :: nat
  beacon_waiting :: "nat option"
  marker_probes :: nat

definition rl_init :: "msec \<Rightarrow> rl" where
  "rl_init now = \<lparr>last_rx = now, last_ping = now, last_beacon = now, last_beacon_mark = now,
     outstanding = None, probes_sent = 0, beacon_waiting = None, marker_probes = 0\<rparr>"

text \<open>What a line is, from its words: the four keep-alive shapes of \<open>recv_line\<close>.\<close>

definition is_ping :: "string list \<Rightarrow> bool" where
  "is_ping p \<longleftrightarrow> length p = 2 \<and> p ! 0 = ''PING'' \<and> isdecimal (p ! 1)"

definition is_pong :: "string list \<Rightarrow> bool" where
  "is_pong p \<longleftrightarrow> length p = 2 \<and> p ! 0 = ''PONG'' \<and> isdecimal (p ! 1)"

definition is_here :: "string list \<Rightarrow> bool" where
  "is_here p \<longleftrightarrow> length p = 3 \<and> p ! 0 = ''HERE'' \<and> p ! 1 \<in> {''0'', ''1''} \<and> isdecimal (p ! 2)"

definition is_beacon :: "string list \<Rightarrow> bool" where
  "is_beacon p \<longleftrightarrow>
     length p = 3 \<and> p ! 0 = ''BEACON'' \<and> p ! 1 \<in> {''U'', ''P''} \<and> p ! 2 \<in> {''0'', ''1''}"

definition is_marker :: "string list \<Rightarrow> bool" where
  "is_marker p \<longleftrightarrow>
     length p = 4 \<and> p ! 0 = ''MARK'' \<and> p ! 1 \<in> {''U'', ''P''} \<and> p ! 2 \<in> {''U'', ''P''}
     \<and> p ! 3 \<in> {''0'', ''1''}"

definition handle_beacon :: "keepalive option \<Rightarrow> string list \<Rightarrow> rl \<times> lnk \<Rightarrow> rl \<times> lnk" where
  "handle_beacon ka p = (\<lambda>(r, l).
     case ka of
       None \<Rightarrow> (r, l)
     | Some k \<Rightarrow>
         if p ! 1 \<noteq> beacon_rx k then (r, l)
         else let r1 = r\<lparr>last_rx := clock l, probes_sent := 0\<rparr> in
           if is_marker p then
             if p ! 2 = beacon_tx k \<and> Some (int_of (p ! 3)) = beacon_waiting r1
             then (r1\<lparr>beacon_waiting := None, last_beacon_mark := clock l, marker_probes := 0,
                     outstanding := None\<rparr>, l)
             else (r1, l)
           else let bit = int_of (p ! 2);
                    l1 = (if bit = peer_beacon_bit l
                          then l\<lparr>peer_beacon_bit := flip_bit1 (peer_beacon_bit l)\<rparr>
                          else l\<lparr>peer_beacon_bit := flip_bit1 bit\<rparr>)
                in (r1, send_line (unwords [''MARK'', beacon_tx k, beacon_rx k, str_of bit]) l1))"

lemmas handle_beacon_code [code] = handle_beacon_def [THEN fun_cong, of _ _ "(r, l)", unfolded prod.case] for r l

definition proved_alive :: "rl \<times> lnk \<Rightarrow> rl \<times> lnk" where
  "proved_alive = (\<lambda>(r, l).
     (r\<lparr>last_rx := clock l, outstanding := None, beacon_waiting := None, last_beacon_mark := clock l,
        marker_probes := 0, last_beacon := clock l\<rparr>,
      l\<lparr>ping_bit := 0, ayt_bit := 0, beacon_bit := 0\<rparr>))"

lemmas proved_alive_code [code] = proved_alive_def [THEN fun_cong, of "(r, l)", unfolded prod.case] for r l

definition handle_probe :: "string list \<Rightarrow> rl \<times> lnk \<Rightarrow> rl \<times> lnk" where
  "handle_probe p = (\<lambda>(r, l).
     if is_ping p then
       if Some (p ! 1) \<noteq> outstanding r
       then let l1 = send_line (unwords [''PONG'', p ! 1]) l
            in (r\<lparr>last_rx := clock l1, probes_sent := 0\<rparr>, l1)
       else (r, l)
     else if is_pong p \<and> Some (p ! 1) = outstanding r
     then proved_alive (r\<lparr>probes_sent := 0\<rparr>, l)
     else if is_here p \<and> Some (p ! 1) = outstanding r
     then (case proved_alive (r, l) of (r1, l1) \<Rightarrow> (r1, send_line (unwords [''AYT-OK'', p ! 1]) l1))
     else (r, l))"

lemmas handle_probe_code [code] = handle_probe_def [THEN fun_cong, of _ "(r, l)", unfolded prod.case] for r l

subsection \<open>The timers\<close>

definition tick_beacon :: "keepalive \<Rightarrow> msec \<Rightarrow> rl \<times> lnk \<Rightarrow> rl \<times> lnk" where
  "tick_beacon k now = (\<lambda>(r, l).
     if marker_probes r = 0 \<and> beacon_waiting r = None \<and> now - last_beacon r \<ge> beacon_interval k
     then let l1 = send_line (unwords [''BEACON'', beacon_tx k, str_of (beacon_bit l)]) l
          in (r\<lparr>beacon_waiting := Some (beacon_bit l), last_beacon := now\<rparr>,
              l1\<lparr>beacon_bit := flip_bit1 (beacon_bit l1)\<rparr>)
     else (r, l))"

lemmas tick_beacon_code [code] = tick_beacon_def [THEN fun_cong, of _ _ "(r, l)", unfolded prod.case] for r l

text \<open>A numbered \<open>PING\<close>; \<open>outstanding\<close> is the number that a \<open>PONG\<close> has to carry.\<close>

definition send_ping :: "rl \<times> lnk \<Rightarrow> rl \<times> lnk" where
  "send_ping = (\<lambda>(r, l).
     let n = str_of (ping_bit l)
     in (r\<lparr>outstanding := Some n\<rparr>,
         send_line (unwords [''PING'', n]) (l\<lparr>ping_bit := flip_bit1 (ping_bit l)\<rparr>)))"

lemmas send_ping_code [code] = send_ping_def [THEN fun_cong, of "(r, l)", unfolded prod.case] for r l

definition tick_marker :: "keepalive \<Rightarrow> msec \<Rightarrow> rl \<times> lnk \<Rightarrow> exn + rl \<times> lnk" where
  "tick_marker k now = (\<lambda>(r, l).
     if beacon_waiting r \<noteq> None \<and> now - last_beacon_mark r \<ge> interval k
        \<and> now - last_ping r \<ge> interval k
     then if marker_probes r \<ge> retries k + 1 then Inl (error LinkLostError)
          else let (r1, l1) =
                 (if marker_probes r < 2 then send_ping (r, l)
                  else let n = str_of (ayt_bit l)
                       in (r\<lparr>outstanding := Some n\<rparr>,
                           send_line (unwords [''AYT?'', n]) (l\<lparr>ayt_bit := flip_bit1 (ayt_bit l)\<rparr>)))
               in Inr (r1\<lparr>marker_probes := marker_probes r1 + 1, last_ping := now\<rparr>, l1)
     else Inr (r, l))"

lemmas tick_marker_code [code] = tick_marker_def [THEN fun_cong, of _ _ "(r, l)", unfolded prod.case] for r l

definition tick_idle :: "keepalive \<Rightarrow> msec \<Rightarrow> msec \<Rightarrow> rl \<times> lnk \<Rightarrow> exn + rl \<times> lnk" where
  "tick_idle k now idle = (\<lambda>(r, l).
     if idle \<ge> ka_timeout k \<and> probes_sent r \<ge> retries k \<and> now - last_ping r \<ge> interval k
     then Inl (error LinkLostError)
     else if idle \<ge> interval k \<and> now - last_ping r \<ge> interval k
     then if probes_sent r \<ge> retries k then Inl (error LinkLostError)
          else let (r1, l1) = send_ping (r, l)
               in Inr (r1\<lparr>probes_sent := probes_sent r1 + 1, last_ping := now\<rparr>, l1)
     else Inr (r, l))"

lemmas tick_idle_code [code] = tick_idle_def [THEN fun_cong, of _ _ _ "(r, l)", unfolded prod.case] for r l

definition keepalive_tick :: "keepalive option \<Rightarrow> msec \<Rightarrow> rl \<times> lnk \<Rightarrow> (exn \<times> lnk) + (rl \<times> lnk)" where
  "keepalive_tick ka now s =
     (case ka of
        None \<Rightarrow> Inr s
      | Some k \<Rightarrow>
          let idle = now - last_rx (fst s); s1 = tick_beacon k now s in
          case tick_marker k now s1 of
            Inl e \<Rightarrow> Inl (e, snd s1)
          | Inr s2 \<Rightarrow> (case tick_idle k now idle s2 of Inl e \<Rightarrow> Inl (e, snd s2) | Inr s3 \<Rightarrow> Inr s3))"

text \<open>\<open>control_idle\<close> of \<open>run_serial\<close>: each \<open>RMB\<close> command sends a numbered state query.\<close>

definition control_idle :: "lnk \<Rightarrow> lnk" where
  "control_idle l =
     (case ctl l of
        [] \<Rightarrow> l
      | commands # rest \<Rightarrow>
          foldl (\<lambda>l c. if c = ''RMB''
                   then let l1 = send_line (unwords [''RMB?'', str_of (control_bit l)]) l
                        in l1\<lparr>control_bit := 1 - control_bit l1\<rparr>
                   else l) (l\<lparr>ctl := rest\<rparr>) commands)"

subsection \<open>Receiving\<close>

definition text_of :: "byte list \<Rightarrow> string" where
  "text_of line = strip_chars (CHR 0x0D) (decode_ascii (dropWhile (\<lambda>b. b = 0) line))"

definition inp :: "lnk \<Rightarrow> nat" where
  "inp l = 2 * pending_input l + length (buf l)"

lemma send_line_fields [simp]:
  "script (send_line t l) = script l" "buf (send_line t l) = buf l"
  "clock l \<le> clock (send_line t l)" "sent (send_line t l) = sent l @ [Line t]"
  "inp (send_line t l) = inp l"
  by (auto simp: send_line_def t_write_def voice_def inp_def pending_input_def split: list.split)

lemma voice_fields [simp]:
  "script (voice t d l) = script l" "buf (voice t d l) = buf l" "clock (voice t d l) = clock l"
  "sent (voice t d l) = sent l" "inp (voice t d l) = inp l"
  by (simp_all add: voice_def inp_def pending_input_def)

lemma send_line_instant [simp]:
  "delays l = [] \<Longrightarrow> delays (send_line t l) = []"
  "delays l = [] \<Longrightarrow> clock (send_line t l) = clock l"
  "delays (voice t d l) = delays l"
  by (simp_all add: send_line_def t_write_def voice_def)

text \<open>What no step but a read changes: the input.  The clock only moves while a write takes time.\<close>

definition quiet :: "lnk \<Rightarrow> lnk \<Rightarrow> bool" where
  "quiet l l' \<longleftrightarrow> script l' = script l \<and> buf l' = buf l \<and> clock l \<le> clock l'
     \<and> (delays l = [] \<longrightarrow> delays l' = [] \<and> clock l' = clock l) \<and> prefix (sent l) (sent l')"

lemma quiet_refl [simp]: "quiet l l"
  by (simp add: quiet_def)

lemma quiet_trans: "quiet a b \<Longrightarrow> quiet b c \<Longrightarrow> quiet a c"
  by (auto simp: quiet_def)

lemma quiet_inp: "quiet a b \<Longrightarrow> inp b = inp a"
  by (simp add: quiet_def inp_def pending_input_def)

lemma quiet_send [simp]: "quiet a b \<Longrightarrow> quiet a (send_line t b)" "quiet a (voice t d b) \<longleftrightarrow> quiet a b"
  by (auto simp: quiet_def intro: order_trans [OF _ send_line_fields(3)])

lemma quiet_update [simp]:
  "quiet a (b\<lparr>ping_bit := n\<rparr>) \<longleftrightarrow> quiet a b" "quiet a (b\<lparr>ayt_bit := n\<rparr>) \<longleftrightarrow> quiet a b"
  "quiet a (b\<lparr>beacon_bit := n\<rparr>) \<longleftrightarrow> quiet a b" "quiet a (b\<lparr>peer_beacon_bit := n\<rparr>) \<longleftrightarrow> quiet a b"
  "quiet a (b\<lparr>ctl := c\<rparr>) \<longleftrightarrow> quiet a b" "quiet a (b\<lparr>control_bit := n\<rparr>) \<longleftrightarrow> quiet a b"
  "quiet a (b\<lparr>snd_state := x\<rparr>) \<longleftrightarrow> quiet a b"
  by (simp_all add: quiet_def)

lemma quiet_handle_beacon: "quiet l (snd (handle_beacon ka p (r, l)))"
  by (auto simp: handle_beacon_def Let_def split: option.split)

lemma quiet_handle_probe: "quiet l (snd (handle_probe p (r, l)))"
  by (auto simp: handle_probe_def proved_alive_def Let_def)

lemma quiet_send_ping: "quiet a l \<Longrightarrow> quiet a (snd (send_ping (r, l)))"
  by (simp add: send_ping_def Let_def)

lemma quiet_tick_beacon: "quiet a l \<Longrightarrow> quiet a (snd (tick_beacon k now (r, l)))"
  by (simp add: tick_beacon_def Let_def)

lemma quiet_tick_marker:
  "tick_marker k now (r, l) = Inr s \<Longrightarrow> quiet a l \<Longrightarrow> quiet a (snd s)"
  by (auto simp: tick_marker_def send_ping_def Let_def split: if_splits)

lemma quiet_tick_idle:
  "tick_idle k now idle (r, l) = Inr s \<Longrightarrow> quiet a l \<Longrightarrow> quiet a (snd s)"
  by (auto simp: tick_idle_def send_ping_def Let_def split: if_splits)

lemma quiet_keepalive_tick:
  "quiet l (case keepalive_tick ka now (r, l) of Inl x \<Rightarrow> snd x | Inr x \<Rightarrow> snd x)"
proof (cases ka)
  case (Some k)
  obtain r1 l1 where b: "tick_beacon k now (r, l) = (r1, l1)" by force
  have q1: "quiet l l1" using quiet_tick_beacon [of l l k now r] b by simp
  show ?thesis
  proof (cases "tick_marker k now (r1, l1)")
    case (Inr s2)
    obtain r2 l2 where s2: "s2 = (r2, l2)" by force
    have q2: "quiet l l2" using quiet_tick_marker Inr q1 s2 by fastforce
    show ?thesis
      using Some b Inr s2 q2 quiet_tick_idle [of k now _ r2 l2]
      by (auto simp: keepalive_tick_def split: sum.split)
  qed (use Some b q1 in \<open>simp add: keepalive_tick_def\<close>)
qed (simp add: keepalive_tick_def)

lemma quiet_control_idle: "quiet l (control_idle l)"
proof -
  have "quiet a b \<Longrightarrow> quiet a (foldl (\<lambda>l c. if c = ''RMB''
     then let l1 = send_line (unwords [''RMB?'', str_of (control_bit l)]) l
          in l1\<lparr>control_bit := 1 - control_bit l1\<rparr> else l) b cs)" for a b cs
    by (induction cs arbitrary: b) (simp_all add: Let_def)
  then show ?thesis by (simp add: control_idle_def split: list.split)
qed

text \<open>\<open>_buf.find(LF)\<close> and the two slices around it.\<close>

definition cut_line :: "byte list \<Rightarrow> (byte list \<times> byte list) option" where
  "cut_line b =
     (if LF_byte \<in> set b
      then Some (takeWhile (\<lambda>x. x \<noteq> LF_byte) b, tl (dropWhile (\<lambda>x. x \<noteq> LF_byte) b)) else None)"

lemma cut_line_Some: "cut_line b = Some (line, rest) \<longleftrightarrow> b = line @ LF_byte # rest \<and> LF_byte \<notin> set line"
proof
  assume a: "b = line @ LF_byte # rest \<and> LF_byte \<notin> set line"
  then have "\<And>x. x \<in> set line \<Longrightarrow> x \<noteq> LF_byte" by auto
  then show "cut_line b = Some (line, rest)"
    using a by (simp add: cut_line_def takeWhile_append_stop dropWhile_append_stop)
next
  assume a: "cut_line b = Some (line, rest)"
  then have m: "LF_byte \<in> set b" by (simp add: cut_line_def split: if_splits)
  then obtain u v where s: "b = u @ LF_byte # v" "LF_byte \<notin> set u"
    using split_list_first by metis
  then have "\<And>x. x \<in> set u \<Longrightarrow> x \<noteq> LF_byte" by auto
  then have "cut_line b = Some (u, v)"
    using s(1) by (simp add: cut_line_def takeWhile_append_stop dropWhile_append_stop)
  with a s show "b = line @ LF_byte # rest \<and> LF_byte \<notin> set line" by simp
qed

lemma cut_line_None: "cut_line b = None \<longleftrightarrow> LF_byte \<notin> set b"
  by (simp add: cut_line_def)

text \<open>One pass of the loop of \<open>recv_line\<close>; \<open>idle\<close> says whether the caller passed \<open>control_idle\<close>.\<close>

definition recv_pass ::
  "keepalive option \<Rightarrow> bool \<Rightarrow> msec \<Rightarrow> rl \<times> lnk \<Rightarrow> (rl \<times> lnk, (exn + string) \<times> lnk) pass" where
  "recv_pass ka idle deadline = (\<lambda>(r, l0).
     let l = (if idle then control_idle l0 else l0) in
     case cut_line (buf l) of
       Some (line, rest) \<Rightarrow>
         let text = text_of line; parts = split_ws text; l1 = voice text Rx (l\<lparr>buf := rest\<rparr>) in
         if is_beacon parts \<or> is_marker parts then Again (handle_beacon ka parts (r, l1))
         else if is_ping parts \<or> is_pong parts \<or> is_here parts \<and> ka \<noteq> None
         then Again (handle_probe parts (r, l1))
         else Leave (Inr text, l1)
     | None \<Rightarrow>
         if length (buf l) > MAX_LINE_LEN then Leave (Inl (error ProtocolError), l)
         else case keepalive_tick ka (clock l) (r, l) of
           Inl (e, l2) \<Rightarrow> Leave (Inl e, l2)
         | Inr (r2, l2) \<Rightarrow>
             if clock l \<ge> deadline then Leave (Inl (error TimeoutErr), l2)
             else case t_read 64 l2 of
               (Inl e, l3) \<Rightarrow> Leave (Inl e, l3)
             | (Inr chunk, l3) \<Rightarrow> Again (r2, l3\<lparr>buf := buf l3 @ chunk\<rparr>))"

lemmas recv_pass_code [code] = recv_pass_def [THEN fun_cong, of _ _ _ "(r, l0)", unfolded prod.case] for r l0

lemma inp_cut:
  assumes "cut_line (buf l) = Some (line, rest)" and "quiet (l\<lparr>buf := rest\<rparr>) l'"
  shows "inp l' < inp l" and "clock l \<le> clock l'"
  using assms by (auto simp: cut_line_Some quiet_def inp_def pending_input_def)

lemma inp_read:
  assumes "t_read n l = (Inr chunk, l')" and "1 \<le> n"
  shows "inp (l'\<lparr>buf := buf l' @ chunk\<rparr>) < inp l \<and> clock l \<le> clock l' \<or>
    inp (l'\<lparr>buf := buf l' @ chunk\<rparr>) = inp l \<and> clock l' = clock l + int READ_TIMEOUT"
  using assms
proof (cases rule: t_read_cases)
  case eof
  then show ?thesis by (simp add: inp_def pending_input_def)
next
  case (got bs dt)
  have "buf l' = buf l" using got(7) by (cases l; cases l') simp
  moreover have "pending_input (l'\<lparr>buf := x\<rparr>) = pending_input l'" for x
    by (simp add: pending_input_def)
  moreover have "2 * pending_input l' + length bs < 2 * pending_input l"
    using got(5) length_greater_0_conv [of bs] by linarith
  ultimately show ?thesis using got(1,2) by (auto simp: inp_def)
qed simp

lemma quiet_idle [simp]: "quiet l (if idle then control_idle l else l)"
  by (simp add: quiet_control_idle)

lemma line_step:
  assumes "quiet l0 l" and "cut_line (buf l) = Some (line, rest)" and "quiet (l\<lparr>buf := rest\<rparr>) l2"
  shows "inp l2 < inp l0" and "clock l0 \<le> clock l2" and "prefix (sent l0) (sent l2)"
  using assms inp_cut [OF assms(2,3)] quiet_inp [OF assms(1)] by (auto simp: quiet_def)

lemma quiet_tick_Inr: "keepalive_tick ka now (r, l) = Inr (r2, l2) \<Longrightarrow> quiet l l2"
  and quiet_tick_Inl: "keepalive_tick ka now (r, l) = Inl (e, l2) \<Longrightarrow> quiet l l2"
  using quiet_keepalive_tick [of l ka now r] by simp_all

lemma read_step:
  assumes "quiet l0 l" "keepalive_tick ka now (r, l) = Inr (r2, l2)" "t_read 64 l2 = (Inr chunk, l3)"
  shows "inp (l3\<lparr>buf := buf l3 @ chunk\<rparr>) < inp l0 \<and> clock l \<le> clock l3 \<or>
    inp (l3\<lparr>buf := buf l3 @ chunk\<rparr>) = inp l0 \<and> clock l + int READ_TIMEOUT \<le> clock l3"
proof -
  have "quiet l0 l2" "quiet l l2"
    using assms(1,2) quiet_tick_Inr [OF assms(2)] quiet_trans by auto
  then show ?thesis
    using inp_read [OF assms(3)] quiet_inp [of l0 l2] by (auto simp: quiet_def)
qed

text \<open>How any operation moves the link: the clock and the log forwards, the input backwards.\<close>

definition evolves :: "lnk \<Rightarrow> lnk \<Rightarrow> bool" where
  "evolves l l' \<longleftrightarrow> clock l \<le> clock l' \<and> inp l' \<le> inp l \<and> prefix (sent l) (sent l')"

lemma evolves_refl [simp]: "evolves l l"
  by (simp add: evolves_def)

lemma evolves_trans [trans]: "evolves a b \<Longrightarrow> evolves b c \<Longrightarrow> evolves a c"
  by (auto simp: evolves_def)

lemma evolves_inp: "evolves a b \<Longrightarrow> inp b \<le> inp a"
  by (simp add: evolves_def)

lemma quiet_evolves: "quiet a b \<Longrightarrow> evolves a b"
  using quiet_inp [of a b] by (simp add: evolves_def quiet_def)

lemma evolves_send [simp]: "evolves a b \<Longrightarrow> evolves a (send_line t b)"
  by (auto simp: evolves_def intro: order_trans [OF _ send_line_fields(3)])

lemma evolves_read: "t_read n l = (r, l') \<Longrightarrow> 1 \<le> n \<Longrightarrow> evolves l l'"
proof (erule t_read_cases, goal_cases)
  case 3
  then have "buf l' = buf l" by (cases l; cases l') simp
  moreover have "pending_input l = Suc (pending_input l')" using 3(3) by (simp add: pending_input_def)
  ultimately show ?case using 3 by (simp add: evolves_def inp_def)
next
  case 4
  then have "buf l' = buf l" by (cases l; cases l') simp
  with 4 show ?case by (auto simp: evolves_def inp_def)
qed (simp_all add: evolves_def inp_def pending_input_def)

lemma read_sent: "t_read n l = (r, l') \<Longrightarrow> sent l' = sent l"
  by (auto simp: t_read.simps split: list.splits ev.splits if_splits)

lemma recv_pass_cases:
  assumes "recv_pass ka idle deadline (r, l0) = p"
  obtains (line) line rest l p' where "l = (if idle then control_idle l0 else l0)" "quiet l0 l"
      "cut_line (buf l) = Some (line, rest)" "p' = split_ws (text_of line)"
      "\<not> is_beacon p'" "\<not> is_marker p'" "\<not> is_ping p'" "\<not> is_pong p'" "is_here p' \<Longrightarrow> ka = None"
      "p = Leave (Inr (text_of line), voice (text_of line) Rx (l\<lparr>buf := rest\<rparr>))"
  | (keepalive) line rest l s where "l = (if idle then control_idle l0 else l0)" "quiet l0 l"
      "cut_line (buf l) = Some (line, rest)" "quiet (l\<lparr>buf := rest\<rparr>) (snd s)"
      "s = handle_beacon ka (split_ws (text_of line)) (r, voice (text_of line) Rx (l\<lparr>buf := rest\<rparr>))
       \<or> s = handle_probe (split_ws (text_of line)) (r, voice (text_of line) Rx (l\<lparr>buf := rest\<rparr>))"
      "p = Again s"
  | (raised) l e l2 where "l = (if idle then control_idle l0 else l0)" "quiet l0 l"
      "cut_line (buf l) = None" "evolves l0 l2" "p = Leave (Inl e, l2)"
  | (read) l r2 l2 chunk l3 where "l = (if idle then control_idle l0 else l0)" "quiet l0 l"
      "cut_line (buf l) = None" "length (buf l) \<le> MAX_LINE_LEN" "clock l < deadline"
      "keepalive_tick ka (clock l) (r, l) = Inr (r2, l2)" "t_read 64 l2 = (Inr chunk, l3)"
      "p = Again (r2, l3\<lparr>buf := buf l3 @ chunk\<rparr>)"
proof -
  let ?l = "if idle then control_idle l0 else l0"
  show ?thesis
  proof (cases "cut_line (buf ?l)")
    case (Some lr)
    obtain ln rest where lr: "lr = (ln, rest)" by force
    let ?v = "voice (text_of ln) Rx (?l\<lparr>buf := rest\<rparr>)" and ?p = "split_ws (text_of ln)"
    have "quiet (?l\<lparr>buf := rest\<rparr>) (snd (handle_beacon ka ?p (r, ?v)))"
      "quiet (?l\<lparr>buf := rest\<rparr>) (snd (handle_probe ?p (r, ?v)))"
      by (rule quiet_trans [OF _ quiet_handle_beacon] quiet_trans [OF _ quiet_handle_probe], simp)+
    then show ?thesis
      using Some lr assms line [OF refl quiet_idle Some [unfolded lr] refl]
        keepalive [OF refl quiet_idle Some [unfolded lr]]
      by (auto simp: recv_pass_def Let_def split: if_splits)
  next
    case None
    note raised' = raised [OF refl quiet_idle None]
    show ?thesis
    proof (cases "keepalive_tick ka (clock ?l) (r, ?l)")
      case (Inl x)
      then have "evolves l0 (snd x)"
        using quiet_trans [OF quiet_idle quiet_tick_Inl] by (cases x) (simp add: quiet_evolves)
      then show ?thesis
        using None assms Inl raised' [of ?l] raised' [of "snd x"] quiet_evolves [OF quiet_idle]
        by (cases x) (auto simp: recv_pass_def Let_def split: if_splits)
    next
      case (Inr x)
      obtain r2 l2 where x: "x = (r2, l2)" by force
      have q: "quiet l0 l2" using quiet_tick_Inr [OF Inr [unfolded x]] quiet_idle quiet_trans by blast
      obtain rd l3 where rd: "t_read 64 l2 = (rd, l3)" by force
      have v: "evolves l0 l3" using evolves_read [OF rd] quiet_evolves [OF q] evolves_trans by simp
      show ?thesis
        using None assms Inr x rd raised' [of ?l] raised' [of l2] raised' [of l3]
          quiet_evolves [OF quiet_idle] quiet_evolves [OF q] v
          read [OF refl quiet_idle None _ _ Inr [unfolded x], of _ l3]
        by (cases rd) (auto simp: recv_pass_def Let_def not_le split: if_splits)
    qed
  qed
qed

lemma recv_pass_Again:
  assumes "recv_pass ka idle deadline (r, l0) = Again (r2, l2)"
  shows "evolves l0 l2 \<and> (inp l2 < inp l0 \<or>
    inp l2 = inp l0 \<and> nat (deadline - clock l2) < nat (deadline - clock l0))"
  using assms
proof (cases rule: recv_pass_cases)
  case (keepalive line rest l s)
  then have "s = (r2, l2)" by simp
  then show ?thesis using line_step [OF keepalive(2,3,4)] by (simp add: evolves_def)
next
  case (read l r2' l2' chunk l3)
  have "prefix (sent l0) (sent l2)"
    using read(2,8) quiet_tick_Inr [OF read(6)] read_sent [OF read(7)] by (auto simp: quiet_def)
  then show ?thesis using read read_step [OF read(2,6,7)]
    by (auto simp: evolves_def quiet_def const_defs)
qed simp_all

lemma recv_pass_Leave:
  assumes "recv_pass ka idle deadline (r, l0) = Leave (res, l2)"
  shows "evolves l0 l2 \<and> (\<forall>t. res = Inr t \<longrightarrow> inp l2 < inp l0)"
  using assms
proof (cases rule: recv_pass_cases)
  case (line line rest l p')
  then show ?thesis using line_step [OF line(2,3), of l2] by (auto simp: evolves_def)
qed auto

function recv_loop :: "keepalive option \<Rightarrow> bool \<Rightarrow> msec \<Rightarrow> rl \<Rightarrow> lnk \<Rightarrow> (exn + string) \<times> lnk" where
  "recv_loop ka idle deadline r l =
     (case recv_pass ka idle deadline (r, l) of
        Leave res \<Rightarrow> res
      | Again (r2, l2) \<Rightarrow> recv_loop ka idle deadline r2 l2)"
  by pat_completeness auto

termination recv_loop
  by (relation "measures [\<lambda>(ka, idle, d, r, l). inp l, \<lambda>(ka, idle, d, r, l). nat (d - clock l)]")
    (auto dest: recv_pass_Again)

declare recv_loop.simps [simp del]

lemma recv_loop_evolves:
  "recv_loop ka idle deadline r l = (res, l') \<Longrightarrow>
     evolves l l' \<and> (\<forall>t. res = Inr t \<longrightarrow> inp l' < inp l)"
proof (induction ka idle deadline r l rule: recv_loop.induct)
  case (1 ka idle deadline r l)
  show ?case
  proof (cases "recv_pass ka idle deadline (r, l)")
    case (Leave x)
    then show ?thesis using 1(2) recv_pass_Leave by (cases x) (simp add: recv_loop.simps [of _ _ _ r])
  next
    case (Again x)
    obtain r2 l2 where x: "x = (r2, l2)" by force
    have "evolves l2 l' \<and> (\<forall>t. res = Inr t \<longrightarrow> inp l' < inp l2)"
      using 1 Again x by (simp add: recv_loop.simps [of _ _ _ r])
    then show ?thesis using recv_pass_Again [OF Again [unfolded x]] by (auto simp: evolves_def)
  qed
qed

definition recv_line :: "msec \<Rightarrow> keepalive option \<Rightarrow> bool \<Rightarrow> lnk \<Rightarrow> (exn + string) \<times> lnk" where
  "recv_line timeout ka idle l = recv_loop ka idle (clock l + timeout) (rl_init (clock l)) l"

lemma recv_line_evolves: "recv_line timeout ka idle l = (res, l') \<Longrightarrow> evolves l l'"
  and recv_line_inp: "recv_line timeout ka idle l = (Inr t, l') \<Longrightarrow> inp l' < inp l"
  using recv_loop_evolves by (fastforce simp: recv_line_def)+

lemmas recv_line_drop = recv_line_inp recv_line_inp [OF sym]

interpretation lk: line_source evolves inp "\<lambda>(timeout, ka, idle). recv_line timeout ka idle"
proof unfold_locales
  show "reads_by evolves inp got s r s'"
    if "(case t of (timeout, ka, idle) \<Rightarrow> recv_line timeout ka idle) s = (r, s')" for t s r s'
    using that recv_line_evolves recv_line_inp by (cases t; cases r) (auto simp: reads_by_def)
qed (simp_all add: evolves_inp, rule evolves_trans)

subsection \<open>Teardown\<close>

text \<open>\<open>except (TimeoutError_, ProtocolError)\<close>\<close>

definition gives_up :: "exn \<Rightarrow> bool" where
  "gives_up e \<longleftrightarrow> is_class TimeoutErr e \<or> is_class ProtocolError e"

text \<open>The wait for \<open>BYE\<close> after one \<open>CLOSE\<close>: did it come?\<close>

function fin_wait :: "msec \<Rightarrow> lnk \<Rightarrow> (exn + bool) \<times> lnk" where
  "fin_wait deadline l =
     (if deadline - clock l \<le> 0 then (Inr False, l)
      else case recv_line (deadline - clock l) None False l of
        (Inl e, l1) \<Rightarrow> if gives_up e then (Inr False, l1) else (Inl e, l1)
      | (Inr line, l1) \<Rightarrow>
          if line = ''BYE'' then (Inr True, l1)
          else fin_wait deadline (if line = ''CLOSE'' then send_line ''BYE'' l1 else l1))"
  by pat_completeness auto

termination fin_wait
  by (relation "measure (\<lambda>(d, l). inp l)") (auto dest: recv_line_drop)

fun send_fin :: "msec \<Rightarrow> nat \<Rightarrow> lnk \<Rightarrow> (exn + bool) \<times> lnk" where
  "send_fin timeout 0 l = (Inr False, l)"
| "send_fin timeout (Suc n) l =
     (let l1 = send_line ''CLOSE'' l in
      case fin_wait (clock l1 + timeout) l1 of
        (Inr False, l2) \<Rightarrow> send_fin timeout n l2
      | res \<Rightarrow> res)"

function await_fin_loop :: "msec \<Rightarrow> lnk \<Rightarrow> (exn + bool) \<times> lnk" where
  "await_fin_loop deadline l =
     (if deadline - clock l \<le> 0 then (Inr False, l)
      else case recv_line (deadline - clock l) None False l of
        (Inl e, l1) \<Rightarrow> if gives_up e then (Inr False, l1) else (Inl e, l1)
      | (Inr line, l1) \<Rightarrow>
          if line = ''CLOSE'' then (Inr True, send_line ''BYE'' l1) else await_fin_loop deadline l1)"
  by pat_completeness auto

termination await_fin_loop
  by (relation "measure (\<lambda>(d, l). inp l)") (auto dest: recv_line_drop)

definition await_fin :: "msec \<Rightarrow> lnk \<Rightarrow> (exn + bool) \<times> lnk" where
  "await_fin timeout l = await_fin_loop (clock l + timeout) l"

function linger_loop :: "msec \<Rightarrow> lnk \<Rightarrow> (exn + unit) \<times> lnk" where
  "linger_loop deadline l =
     (if deadline - clock l \<le> 0 then (Inr (), l)
      else case recv_line (deadline - clock l) None False l of
        (Inl e, l1) \<Rightarrow> if gives_up e then (Inr (), l1) else (Inl e, l1)
      | (Inr line, l1) \<Rightarrow>
          linger_loop deadline (if line = ''CLOSE'' then send_line ''BYE'' l1 else l1))"
  by pat_completeness auto

termination linger_loop
  by (relation "measure (\<lambda>(d, l). inp l)") (auto dest: recv_line_drop)

definition linger :: "msec \<Rightarrow> lnk \<Rightarrow> (exn + unit) \<times> lnk" where
  "linger seconds l = linger_loop (clock l + seconds) l"

declare fin_wait.simps [simp del] await_fin_loop.simps [simp del] linger_loop.simps [simp del]

subsection \<open>Raw payloads\<close>

function recv_exact_loop :: "nat \<Rightarrow> msec \<Rightarrow> lnk \<Rightarrow> (exn + byte list) \<times> lnk" where
  "recv_exact_loop sz deadline l =
     (if length (buf l) < sz
      then if clock l \<ge> deadline then (Inl (error TimeoutErr), l)
        else case t_read (min (sz - length (buf l)) 256) l of
          (Inl e, l1) \<Rightarrow> (Inl e, l1)
        | (Inr chunk, l1) \<Rightarrow> recv_exact_loop sz deadline (l1\<lparr>buf := buf l1 @ chunk\<rparr>)
      else (Inr (take sz (buf l)), l\<lparr>buf := drop sz (buf l)\<rparr>))"
  by pat_completeness auto

termination recv_exact_loop
  by (relation "measures [\<lambda>(n, d, l). inp l, \<lambda>(n, d, l). nat (d - clock l)]")
    (auto dest!: inp_read [OF sym] simp: const_defs)

definition recv_exact :: "nat \<Rightarrow> msec \<Rightarrow> lnk \<Rightarrow> (exn + byte list) \<times> lnk" where
  "recv_exact sz timeout l = recv_exact_loop sz (clock l + timeout) l"

text \<open>\<open>discard_input\<close>: the reads go on until one brings nothing or the port fails.\<close>

function discard_loop :: "lnk \<Rightarrow> lnk" where
  "discard_loop l =
     (case t_read 256 l of
        (Inl _, l1) \<Rightarrow> l1
      | (Inr [], l1) \<Rightarrow> l1
      | (Inr (_ # _), l1) \<Rightarrow> discard_loop l1)"
  by pat_completeness auto

termination discard_loop
proof (relation "measure pending_input", goal_cases)
  case (2 l x l1 b c cs)
  then have "t_read 256 l = (Inr (c # cs), l1)" by simp
  then show ?case by (rule t_read_cases) auto
qed simp

definition discard_input :: "lnk \<Rightarrow> lnk" where
  "discard_input l = discard_loop (l\<lparr>buf := []\<rparr>)"

declare recv_exact_loop.simps [simp del] discard_loop.simps [simp del]

subsection \<open>Every operation only consumes input and lets time pass\<close>

lemma fin_wait_evolves: "fin_wait deadline l = (r, l') \<Longrightarrow> evolves l l'"
proof (induction deadline l rule: fin_wait.induct)
  case (1 deadline l)
  obtain x l1 where x: "recv_line (deadline - clock l) None False l = (x, l1)" by force
  from 1(1) [OF _ x [symmetric]] 1(2) x recv_line_evolves [OF x] show ?case
    by (cases x) (auto simp: fin_wait.simps [of deadline l] intro: evolves_trans evolves_send
        split: if_splits)
qed

lemma send_fin_evolves: "send_fin timeout n l = (r, l') \<Longrightarrow> evolves l l'"
proof (induction timeout n l rule: send_fin.induct)
  case (2 timeout n l)
  let ?l1 = "send_line ''CLOSE'' l"
  obtain x l2 where x: "fin_wait (clock ?l1 + timeout) ?l1 = (x, l2)" by force
  then have "evolves l l2" using fin_wait_evolves evolves_send [OF evolves_refl] evolves_trans by blast
  then show ?case using 2 x
    by (cases x) (auto simp: Let_def intro: evolves_trans split: bool.splits)
qed simp

lemma await_fin_loop_evolves: "await_fin_loop deadline l = (r, l') \<Longrightarrow> evolves l l'"
proof (induction deadline l rule: await_fin_loop.induct)
  case (1 deadline l)
  obtain x l1 where x: "recv_line (deadline - clock l) None False l = (x, l1)" by force
  from 1(1) [OF _ x [symmetric]] 1(2) x recv_line_evolves [OF x] show ?case
    by (cases x) (auto simp: await_fin_loop.simps [of deadline l] intro: evolves_trans evolves_send
        split: if_splits)
qed

lemma linger_loop_evolves: "linger_loop deadline l = (r, l') \<Longrightarrow> evolves l l'"
proof (induction deadline l rule: linger_loop.induct)
  case (1 deadline l)
  obtain x l1 where x: "recv_line (deadline - clock l) None False l = (x, l1)" by force
  from 1(1) [OF _ x [symmetric]] 1(2) x recv_line_evolves [OF x] show ?case
    by (cases x) (auto simp: linger_loop.simps [of deadline l] intro: evolves_trans evolves_send
        split: if_splits)
qed

lemma recv_exact_loop_evolves: "recv_exact_loop n deadline l = (r, l') \<Longrightarrow> evolves l l'"
proof (induction n deadline l rule: recv_exact_loop.induct)
  case (1 n deadline l)
  obtain x l1 where x: "t_read (min (n - length (buf l)) 256) l = (x, l1)" by force
  show ?case
  proof (cases "length (buf l) < n \<and> clock l < deadline")
    case True
    then have le: "1 \<le> min (n - length (buf l)) 256" by auto
    show ?thesis
    proof (cases x)
      case (Inl e)
      then show ?thesis using 1(2) True x evolves_read [OF x le]
        by (simp add: recv_exact_loop.simps [of n deadline l])
    next
      case (Inr chunk)
      have "evolves (l1\<lparr>buf := buf l1 @ chunk\<rparr>) l'"
        using 1 True x Inr by (simp add: recv_exact_loop.simps [of n deadline l])
      then show ?thesis using inp_read [OF x [unfolded Inr] le] read_sent [OF x]
        by (auto simp: evolves_def)
    qed
  next
    case False
    then show ?thesis using 1(2)
      by (auto simp: recv_exact_loop.simps [of n deadline l] evolves_def inp_def pending_input_def
          split: if_splits)
  qed
qed

lemma discard_loop_evolves: "evolves l (discard_loop l)"
proof (induction l rule: discard_loop.induct)
  case (1 l)
  obtain x l1 where x: "t_read 256 l = (x, l1)" by force
  have v: "evolves l l1" by (rule evolves_read [OF x]) simp
  show ?case
  proof (cases x)
    case (Inr chunk)
    show ?thesis
    proof (cases chunk)
      case (Cons c cs)
      have "evolves l1 (discard_loop l1)" by (rule 1 [OF x [symmetric] Inr Cons])
      then show ?thesis using x Inr Cons v evolves_trans by (simp add: discard_loop.simps [of l])
    qed (use x Inr v in \<open>simp add: discard_loop.simps [of l]\<close>)
  qed (use x v in \<open>simp add: discard_loop.simps [of l]\<close>)
qed

lemma discard_input_evolves: "evolves l (discard_input l)"
proof -
  have "evolves l (l\<lparr>buf := []\<rparr>)" by (simp add: evolves_def inp_def pending_input_def)
  then show ?thesis unfolding discard_input_def using discard_loop_evolves evolves_trans by blast
qed

lemma evolves_ops:
  "await_fin timeout l = (ra, l') \<Longrightarrow> evolves l l'"
  "linger timeout l = (ru, l') \<Longrightarrow> evolves l l'"
  "recv_exact n timeout l = (rb, l') \<Longrightarrow> evolves l l'"
  by (auto simp: await_fin_def linger_def recv_exact_def
      dest: await_fin_loop_evolves linger_loop_evolves recv_exact_loop_evolves)

end
