(* ===== verification/Framing.thy ===== *)
theory Framing
  imports Link
begin

text \<open>
  What the framing of \<open>link.py\<close> promises: a control line and the raw bytes behind it arrive
  unchanged however the line cuts them into pieces, and the keep-alive lines never reach the
  protocol.  \<open>stream\<close> is all that is still to be read, \<open>wait_time\<close> the pauses still to come.
\<close>

definition stream :: "lnk \<Rightarrow> byte list" where
  "stream l = buf l @ script_bytes (script l)"

fun ev_wait :: "ev \<Rightarrow> nat" where
  "ev_wait (Bytes dt bs) = dt"
| "ev_wait Broken = 0"

definition wait_time :: "lnk \<Rightarrow> nat" where
  "wait_time l = sum_list (map ev_wait (script l))"

definition intact :: "lnk \<Rightarrow> bool" where
  "intact l \<longleftrightarrow> Broken \<notin> set (script l)"

text \<open>A line that the sender may put on the wire: printable text, not a keep-alive line.\<close>

definition line_char :: "char \<Rightarrow> bool" where
  "line_char c \<longleftrightarrow> (let n = of_char c :: nat in 0 < n \<and> n < 128 \<and> n \<noteq> 10 \<and> n \<noteq> 13)"

definition keepalive_line :: "string list \<Rightarrow> bool" where
  "keepalive_line p \<longleftrightarrow> is_ping p \<or> is_pong p \<or> is_beacon p \<or> is_marker p"

lemma wire_char:
  assumes "line_char c"
  shows "(word_of_nat (of_char c) :: byte) \<noteq> 0" "(word_of_nat (of_char c) :: byte) \<noteq> LF_byte"
proof -
  have "unat (word_of_nat (of_char c) :: byte) = of_char c"
    using assms by (simp add: line_char_def Let_def unat_of_nat)
  moreover have "unat LF_byte = 10" by (simp add: LF_byte_def)
  ultimately show "(word_of_nat (of_char c) :: byte) \<noteq> 0"
    "(word_of_nat (of_char c) :: byte) \<noteq> LF_byte"
    using assms by (metis line_char_def less_irrefl unat_0, metis line_char_def)
qed

lemma strip_chars_none: "c \<notin> set s \<Longrightarrow> strip_chars c s = s"
proof -
  have "c \<notin> set x \<Longrightarrow> dropWhile ((=) c) x = x" for x by (cases x) auto
  then show "c \<notin> set s \<Longrightarrow> strip_chars c s = s" by (simp add: strip_chars_def)
qed

lemma text_of_encode:
  assumes "list_all line_char t"
  shows "text_of (encode_ascii t) = t" and "LF_byte \<notin> set (encode_ascii t)"
proof -
  have "dropWhile (\<lambda>b. b = 0) (encode_ascii t) = encode_ascii t"
    using assms by (cases t) (simp_all add: encode_ascii_def wire_char)
  moreover have "isascii t"
    using assms by (auto simp: isascii_def list_all_iff line_char_def Let_def)
  moreover have "strip_chars (CHR 0x0D) t = t"
    using assms by (intro strip_chars_none) (auto simp: list_all_iff line_char_def)
  ultimately show "text_of (encode_ascii t) = t" by (simp add: text_of_def decode_encode)
  show "LF_byte \<notin> set (encode_ascii t)"
    using assms wire_char(2) [THEN not_sym] by (auto simp: encode_ascii_def list_all_iff)
qed

lemma read_intact:
  assumes "t_read n l = (res, l')" "1 \<le> n" "intact l" "script l \<noteq> []"
  obtains bs dt where "res = Inr bs" "script_bytes (script l) = bs @ script_bytes (script l')"
    "clock l' + int (wait_time l') = clock l + int (wait_time l)" "intact l'"
    "buf l' = buf l" "length bs \<le> n" "pending_input l' + length bs \<le> pending_input l"
proof -
  obtain dt bs es where s: "script l = Bytes dt bs # es"
    using assms(3,4) by (cases "script l"; cases "hd (script l)") (auto simp: intact_def)
  show ?thesis
    using that [of "if length bs \<le> n then bs else take n bs"] assms s
    by (auto simp: t_read.simps s intact_def wait_time_def script_bytes_def pending_input_def
        split: if_splits)
qed

text \<open>How long it takes until \<open>k\<close> more bytes have arrived.\<close>

fun arrival :: "nat \<Rightarrow> ev list \<Rightarrow> nat" where
  "arrival k [] = 0"
| "arrival k (Bytes dt bs # es) = (if k = 0 then 0 else dt + arrival (k - length bs) es)"
| "arrival k (Broken # es) = 0"

lemma arrival_0 [simp]: "arrival 0 es = 0"
  by (cases "(0 :: nat, es)" rule: arrival.cases) auto

lemma arrival_wait: "arrival k (script l) \<le> wait_time l"
proof -
  have "arrival k es \<le> sum_list (map ev_wait es)" for es
    by (induction k es rule: arrival.induct) auto
  then show ?thesis by (simp add: wait_time_def)
qed

text \<open>A steady line: no errors, pieces of at most \<open>K\<close> bytes, at least a byte per millisecond.\<close>

fun brisk :: "nat \<Rightarrow> ev \<Rightarrow> bool" where
  "brisk K (Bytes dt bs) \<longleftrightarrow> dt \<le> length bs \<and> length bs \<le> K"
| "brisk K Broken = False"

definition brisk_line :: "nat \<Rightarrow> lnk \<Rightarrow> bool" where
  "brisk_line K l \<longleftrightarrow> (\<forall>e \<in> set (script l). brisk K e)"

lemma brisk_arrival: "brisk_line K l \<Longrightarrow> arrival k (script l) \<le> k + K"
proof -
  have "\<forall>e \<in> set es. brisk K e \<Longrightarrow> arrival k es \<le> k + K" for es
  proof (induction k es rule: arrival.induct)
    case (2 k dt bs es)
    then show ?case by (cases "k \<le> length bs") auto
  qed auto
  then show "brisk_line K l \<Longrightarrow> arrival k (script l) \<le> k + K" by (simp add: brisk_line_def)
qed

lemma brisk_intact: "brisk_line K l \<Longrightarrow> intact l"
  by (auto simp: brisk_line_def intact_def)

lemma read_arrival:
  assumes "t_read n l = (Inr bs, l')" "1 \<le> k" "intact l" "script l \<noteq> []"
  shows "clock l' + int (arrival (k - length bs) (script l')) \<le> clock l + int (arrival k (script l))"
    "brisk_line K l \<Longrightarrow> brisk_line K l'"
proof -
  obtain dt ds es where s: "script l = Bytes dt ds # es"
    using assms(3,4) by (cases "script l"; cases "hd (script l)") (auto simp: intact_def)
  show "clock l' + int (arrival (k - length bs) (script l')) \<le> clock l + int (arrival k (script l))"
    using assms(1,2) by (auto simp: t_read.simps s split: if_splits)
  show "brisk_line K l \<Longrightarrow> brisk_line K l'"
    using assms(1,2) by (auto simp: t_read.simps s brisk_line_def split: if_splits)
qed

lemma stream_voice [simp]: "stream (voice t d l) = stream l" "wait_time (voice t d l) = wait_time l"
  "intact (voice t d l) = intact l" "brisk_line K (voice t d l) = brisk_line K l"
  by (simp_all add: stream_def wait_time_def intact_def brisk_line_def)

lemma buf_same [simp]: "brisk_line K (l\<lparr>buf := b\<rparr>) = brisk_line K l" "intact (l\<lparr>buf := b\<rparr>) = intact l"
  "wait_time (l\<lparr>buf := b\<rparr>) = wait_time l"
  by (simp_all add: brisk_line_def intact_def wait_time_def)

lemma recv_loop_framing:
  assumes "stream l = line @ LF_byte # rest" "LF_byte \<notin> set line" "length line \<le> MAX_LINE_LEN"
    "\<not> keepalive_line (split_ws (text_of line))" "intact l"
    "clock l + int (arrival (Suc (length line) - length (buf l)) (script l)) < deadline"
  shows "\<exists>l'. recv_loop None False deadline r l = (Inr (text_of line), l') \<and> stream l' = rest
    \<and> intact l' \<and> clock l' + int (wait_time l') = clock l + int (wait_time l) \<and> (\<forall>K. brisk_line K l \<longrightarrow> brisk_line K l')"
  using assms
proof (induction "None :: keepalive option" False deadline r l rule: recv_loop.induct)
  case (1 deadline r l)
  show ?case
  proof (cases "LF_byte \<in> set (buf l)")
    case True
    then obtain u v where uv: "buf l = u @ LF_byte # v" "LF_byte \<notin> set u"
      using split_list_first by metis
    then have "u @ LF_byte # v @ script_bytes (script l) = line @ LF_byte # rest"
      using "1.prems"(1) by (simp add: stream_def)
    then have e: "u = line" "v @ script_bytes (script l) = rest"
      using uv(2) "1.prems"(2) by (auto simp: append_eq_append_conv2 append_eq_Cons_conv Cons_eq_append_conv)
    have "recv_pass None False deadline (r, l)
        = Leave (Inr (text_of line), voice (text_of line) Rx (l\<lparr>buf := v\<rparr>))"
      using uv e "1.prems"(4) cut_line_Some [of "buf l" u v]
      by (auto simp: recv_pass_def Let_def keepalive_line_def)
    then show ?thesis
      using e "1.prems"(5) by (subst recv_loop.simps) (simp add: stream_def)
  next
    case False
    then obtain s where s: "line = buf l @ s" and sc: "script_bytes (script l) = s @ LF_byte # rest"
      using "1.prems"(1) by (auto simp: stream_def append_eq_append_conv2 append_eq_Cons_conv)
    then have len: "length (buf l) \<le> MAX_LINE_LEN" using "1.prems"(3) by simp
    have ne: "script l \<noteq> []" using sc by (auto simp: script_bytes_def)
    obtain res l2 where rd: "t_read 64 l = (res, l2)" by force
    obtain bs where b: "res = Inr bs" "script_bytes (script l) = bs @ script_bytes (script l2)"
      "clock l2 + int (wait_time l2) = clock l + int (wait_time l)" "intact l2" "buf l2 = buf l"
      using read_intact [OF rd _ "1.prems"(5) ne] by force
    note ar = read_arrival [OF rd [unfolded b(1)] _ "1.prems"(5) ne, of "Suc (length line) - length (buf l)"]
    let ?l2 = "l2\<lparr>buf := buf l2 @ bs\<rparr>"
    have lt: "clock l < deadline" using "1.prems"(6) by linarith
    have p: "recv_pass None False deadline (r, l) = Again (r, ?l2)"
      using False len lt rd b(1) by (simp add: recv_pass_def cut_line_def keepalive_tick_def)
    have dl: "clock ?l2 + int (arrival (Suc (length line) - length (buf ?l2)) (script ?l2)) < deadline"
      using ar(1) "1.prems"(6) b(5) s by simp
    have "\<exists>l'. recv_loop None False deadline r ?l2 = (Inr (text_of line), l') \<and> stream l' = rest
      \<and> intact l' \<and> clock l' + int (wait_time l') = clock ?l2 + int (wait_time ?l2) \<and> (\<forall>K. brisk_line K ?l2 \<longrightarrow> brisk_line K l')"
      using "1.prems" b dl by (intro "1.hyps" [OF p refl]) (simp_all add: stream_def)
    then show ?thesis using p b(3) ar(2) s by (subst recv_loop.simps) auto
  qed
qed

lemma recv_exact_framing:
  assumes "n \<le> length (stream l)" "intact l" "clock l + int (arrival (n - length (buf l)) (script l)) < deadline"
  shows "\<exists>l'. recv_exact_loop n deadline l = (Inr (take n (stream l)), l')
    \<and> stream l' = drop n (stream l) \<and> intact l' \<and> clock l' + int (wait_time l') = clock l + int (wait_time l)
    \<and> (\<forall>K. brisk_line K l \<longrightarrow> brisk_line K l')"
  using assms
proof (induction n deadline l rule: recv_exact_loop.induct)
  case (1 n deadline l)
  show ?case
  proof (cases "length (buf l) < n")
    case True
    then have ne: "script l \<noteq> []" using "1.prems"(1) by (auto simp: stream_def script_bytes_def)
    obtain res l2 where rd: "t_read (min (n - length (buf l)) 256) l = (res, l2)" by force
    obtain bs where b: "res = Inr bs" "script_bytes (script l) = bs @ script_bytes (script l2)"
      "clock l2 + int (wait_time l2) = clock l + int (wait_time l)" "intact l2" "buf l2 = buf l"
      using read_intact [OF rd _ "1.prems"(2) ne] True by force
    note ar = read_arrival [OF rd [unfolded b(1)] _ "1.prems"(2) ne, of "n - length (buf l)"]
    have le: "\<not> clock l \<ge> deadline" using "1.prems"(3) by linarith
    let ?l2 = "l2\<lparr>buf := buf l2 @ bs\<rparr>"
    have st: "stream ?l2 = stream l" using b by (simp add: stream_def)
    have dl: "clock ?l2 + int (arrival (n - length (buf ?l2)) (script ?l2)) < deadline"
      using ar(1) "1.prems"(3) b(5) True by (simp add: Suc_le_eq)
    have "\<exists>l'. recv_exact_loop n deadline ?l2 = (Inr (take n (stream ?l2)), l')
      \<and> stream l' = drop n (stream ?l2) \<and> intact l'
      \<and> clock l' + int (wait_time l') = clock ?l2 + int (wait_time ?l2) \<and> (\<forall>K. brisk_line K ?l2 \<longrightarrow> brisk_line K l')"
      using "1.prems" b(4) dl st by (intro "1.IH" [OF True le rd [symmetric] b(1)]) simp_all
    then show ?thesis using True le rd b(1,3) st ar(2) by (subst recv_exact_loop.simps) auto
  next
    case False
    then show ?thesis using "1.prems"(2)
      by (subst recv_exact_loop.simps) (simp add: stream_def)
  qed
qed

subsection \<open>What a reader without keep-alive sends\<close>

definition chat :: "tx_write \<Rightarrow> bool" where
  "chat x \<longleftrightarrow> (\<exists>n. x = Line (unwords [''PONG'', n]) \<or> x = Line (unwords [''AYT-OK'', n]))"

definition chats :: "lnk \<Rightarrow> lnk \<Rightarrow> bool" where
  "chats l l' \<longleftrightarrow> (\<exists>ws. sent l' = sent l @ ws \<and> (\<forall>x \<in> set ws. chat x))"

lemma chats_same: "sent l' = sent l \<Longrightarrow> chats l l'"
  by (simp add: chats_def)

lemma chats_trans: "chats a b \<Longrightarrow> chats b c \<Longrightarrow> chats a c"
  by (fastforce simp: chats_def)

lemma handle_probe_chats: "handle_probe p (r, l) = (r', l') \<Longrightarrow> chats l l'"
  by (auto simp: handle_probe_def proved_alive_def Let_def chats_def chat_def
      simp del: unwords.simps split: if_splits)

lemma handle_beacon_None: "handle_beacon None p s = s"
  by (cases s) (simp add: handle_beacon_def)

lemma recv_pass_chats:
  "recv_pass None False d (r, l) = Leave (res, l') \<Longrightarrow> chats l l'"
  "recv_pass None False d (r, l) = Again (r', l') \<Longrightarrow> chats l l'"
proof -
  have v: "chats l l'" if "handle_probe p (r, voice t Rx (l\<lparr>buf := b\<rparr>)) = (r', l')" for p t b r'
    using handle_probe_chats [OF that] by (simp add: chats_def)
  show "recv_pass None False d (r, l) = Leave (res, l') \<Longrightarrow> chats l l'"
    "recv_pass None False d (r, l) = Again (r', l') \<Longrightarrow> chats l l'"
    by (auto simp: recv_pass_def handle_beacon_None keepalive_tick_def Let_def
        split: if_splits option.splits sum.splits prod.splits dest: v)
      (auto intro!: chats_same dest: read_sent)
qed

lemma recv_loop_chats: "recv_loop None False d r l = (res, l') \<Longrightarrow> chats l l'"
proof (induction "None :: keepalive option" False d r l rule: recv_loop.induct)
  case (1 d r l)
  show ?case
  proof (cases "recv_pass None False d (r, l)")
    case (Leave x)
    then show ?thesis using 1(2) by (cases x) (auto simp: recv_loop.simps [of _ _ _ r] dest: recv_pass_chats)
  next
    case (Again x)
    obtain r2 l2 where x: "x = (r2, l2)" by force
    then have "chats l2 l'" using 1 Again by (simp add: recv_loop.simps [of _ _ _ r])
    then show ?thesis using recv_pass_chats(2) [OF Again [unfolded x]] chats_trans by blast
  qed
qed

lemma recv_line_chats: "recv_line t None False l = (res, l') \<Longrightarrow> chats l l'"
  unfolding recv_line_def by (rule recv_loop_chats)

lemma recv_exact_sent: "recv_exact_loop n d l = (res, l') \<Longrightarrow> sent l' = sent l"
proof (induction n d l rule: recv_exact_loop.induct)
  case (1 n d l)
  obtain x l1 where x: "t_read (min (n - length (buf l)) 256) l = (x, l1)" by force
  then show ?case using 1(1) [OF _ _ x [symmetric]] 1(2) read_sent [OF x]
    by (cases x) (auto simp: recv_exact_loop.simps [of n d l] split: if_splits)
qed

lemma discard_loop_sent: "sent (discard_loop l) = sent l"
proof (induction l rule: discard_loop.induct)
  case (1 l)
  obtain x l1 where x: "t_read 256 l = (x, l1)" by force
  show ?case
  proof (cases x)
    case (Inr chunk)
    then show ?thesis using 1 [OF x [symmetric] Inr] x read_sent [OF x]
      by (cases chunk) (simp_all add: discard_loop.simps [of l])
  qed (use x read_sent [OF x] in \<open>simp add: discard_loop.simps [of l]\<close>)
qed

subsection \<open>Properties\<close>

text \<open>C11: framing is binary safe under any fragmentation: when the line delivers a control line and a
  payload behind it, cut into pieces of any size with any pauses that stay inside the two timeouts,
  \<open>recv_line\<close> gives the text and \<open>recv_exact\<close> the payload, LF bytes in it included, and exactly the
  bytes that follow are left.\<close>

theorem framing_roundtrip:
  assumes "stream l = wire_bytes (LineRaw t d) @ rest" "intact l"
    and "list_all line_char t" "length t \<le> MAX_LINE_LEN" "\<not> keepalive_line (split_ws t)"
    and "int (wait_time l) < timeout" "int (wait_time l) < timeout2"
  shows "\<exists>l1 l2. recv_line timeout None False l = (Inr t, l1)
    \<and> recv_exact (length d) timeout2 l1 = (Inr d, l2) \<and> stream l2 = rest"
proof -
  note t = text_of_encode [OF assms(3)]
  obtain l1 where l1: "recv_line timeout None False l = (Inr t, l1)" "stream l1 = d @ rest"
    "intact l1" "clock l1 + int (wait_time l1) = clock l + int (wait_time l)"
    using recv_loop_framing [of l "encode_ascii t" "d @ rest" "clock l + timeout" "rl_init (clock l)"]
      arrival_wait [of _ l] le_less_trans [of "int (arrival _ (script l))" "int (wait_time l)"] assms t by (auto simp: recv_line_def encode_ascii_def)
  have "clock l \<le> clock l1" using recv_line_evolves [OF l1(1)] by (simp add: evolves_def)
  then have "int (arrival (length d - length (buf l1)) (script l1)) < timeout2"
    using arrival_wait [of "length d - length (buf l1)" l1] l1(4) assms(7) by linarith
  then obtain l2 where "recv_exact (length d) timeout2 l1 = (Inr d, l2)" "stream l2 = rest"
    using recv_exact_framing [of "length d" l1 "clock l1 + timeout2"] l1 assms(7)
    by (auto simp: recv_exact_def)
  with l1(1) show ?thesis by blast
qed

definition fresh_link :: "ev list \<Rightarrow> lnk" where
  "fresh_link es = \<lparr>clock = 0, script = es, delays = [], sent = [],
     snd_state = \<lparr>enabled = False, event = None, blip = 0\<rparr>, buf = [],
     ping_bit = 0, ayt_bit = 0, beacon_bit = 0, peer_beacon_bit = 0, ctl = [], control_bit = 0\<rparr>"

text \<open>A block whose payload holds an LF, cut in the middle of its header and of its payload.\<close>

lemma framing_roundtrip_witness:
  "\<exists>l1 l2. recv_line 2000 None False (fresh_link [Bytes 3 [68, 65], Bytes 9 [84, 65, 10, 7], Bytes 0 [10, 8, 99]])
      = (Inr ''DATA'', l1) \<and> recv_exact 3 5000 l1 = (Inr [7, 10, 8], l2) \<and> stream l2 = [99]"
  using framing_roundtrip [of "fresh_link [Bytes 3 [68, 65], Bytes 9 [84, 65, 10, 7], Bytes 0 [10, 8, 99]]"
      "''DATA''" "[7, 10, 8]" "[99]" 2000 5000]
  by (simp add: stream_def fresh_link_def script_bytes_def encode_ascii_def LF_byte_def intact_def
      line_char_def wait_time_def const_defs keepalive_line_def is_ping_def is_pong_def is_beacon_def
      is_marker_def split_ws_word word_ok_def is_space_def numeral_3_eq_3)

lemma recv_loop_transparent:
  "recv_loop ka idle deadline r l = (Inr t, l') \<Longrightarrow>
     \<not> keepalive_line (split_ws t) \<and> (ka \<noteq> None \<longrightarrow> \<not> is_here (split_ws t))"
proof (induction ka idle deadline r l rule: recv_loop.induct)
  case (1 ka idle deadline r l)
  show ?case
  proof (cases "recv_pass ka idle deadline (r, l)")
    case (Leave x)
    then have "recv_pass ka idle deadline (r, l) = Leave (Inr t, l')"
      using 1(2) by (simp add: recv_loop.simps [of _ _ _ r])
    then show ?thesis by (cases rule: recv_pass_cases) (auto simp: keepalive_line_def)
  next
    case (Again x)
    obtain r2 l2 where x: "x = (r2, l2)" by force
    then show ?thesis using 1 Again by (simp add: recv_loop.simps [of _ _ _ r])
  qed
qed

text \<open>C22: keep-alive is transparent: whatever arrives, \<open>recv_line\<close> never hands a numbered \<open>PING\<close> or
  \<open>PONG\<close>, a \<open>BEACON\<close> or a \<open>MARK\<close> to the protocol, nor a \<open>HERE\<close> while the reader owns the keep-alive.\<close>

theorem recv_line_transparent:
  "recv_line timeout ka idle l = (Inr t, l') \<Longrightarrow>
     \<not> keepalive_line (split_ws t) \<and> (ka \<noteq> None \<longrightarrow> \<not> is_here (split_ws t))"
  unfolding recv_line_def by (rule recv_loop_transparent)

text \<open>A \<open>PING\<close> in front of a \<open>CLOSE\<close>: it is answered, and \<open>CLOSE\<close> is what the reader gets.\<close>

definition ping_then_close :: lnk where
  "ping_then_close =
     fresh_link [Bytes 0 (encode_ascii ''PING 7'' @ [10] @ encode_ascii ''CLOSE'' @ [10])]"

lemma recv_ping_then_close:
  "fst (recv_line 2000 None False ping_then_close) = Inr ''CLOSE''"
  "sent (snd (recv_line 2000 None False ping_then_close)) = [Line ''PONG 7'']"
  by code_simp+

lemma recv_line_transparent_witness:
  "fst (recv_line 2000 None False ping_then_close) = Inr ''CLOSE'' \<and> \<not> keepalive_line (split_ws ''CLOSE'')"
  using recv_line_transparent [of 2000 None False ping_then_close "''CLOSE''"
      "snd (recv_line 2000 None False ping_then_close)"] recv_ping_then_close(1)
  by (simp add: prod_eq_iff)

end
