(* ===== verification/Liveness.thy ===== *)
theory Liveness
  imports Framing
begin

text \<open>
  The keep-alive state machine of \<open>recv_line\<close>.  Its states are the pairs of local variables and link
  that one read passes through (\<open>ka_reach\<close>); an \<open>evidence\<close> line is one that proves this end's
  transmit direction.  The invariants relate the timers to the last evidence: the link is declared
  lost neither before \<open>(retries + 2) * interval\<close> without evidence nor much after.
\<close>

inductive ka_reach :: "keepalive \<Rightarrow> bool \<Rightarrow> msec \<Rightarrow> lnk \<Rightarrow> rl \<times> lnk \<Rightarrow> bool"
  for k idle deadline l0 where
  start: "ka_reach k idle deadline l0 (rl_init (clock l0), l0)"
| again: "ka_reach k idle deadline l0 s \<Longrightarrow> recv_pass (Some k) idle deadline s = Again s'
    \<Longrightarrow> ka_reach k idle deadline l0 s'"

text \<open>The lines that prove the transmit direction: answers to this end's own probe or beacon.\<close>

definition evidence :: "keepalive \<Rightarrow> rl \<Rightarrow> string list \<Rightarrow> bool" where
  "evidence k r p \<longleftrightarrow>
     (is_pong p \<or> is_here p) \<and> Some (p ! 1) = outstanding r
     \<or> is_marker p \<and> p ! 1 = beacon_rx k \<and> p ! 2 = beacon_tx k
       \<and> Some (int_of (p ! 3)) = beacon_waiting r"

text \<open>What holds of the timers at any moment \<open>now\<close> of the read.\<close>

definition timers :: "keepalive \<Rightarrow> rl \<Rightarrow> msec \<Rightarrow> bool" where
  "timers k r now \<longleftrightarrow>
     last_ping r \<le> now \<and> last_rx r \<le> now \<and> last_beacon r \<le> now \<and> last_beacon_mark r \<le> last_rx r
     \<and> (beacon_waiting r = None \<longrightarrow> marker_probes r = 0 \<and> last_beacon r \<le> last_beacon_mark r)
     \<and> (if marker_probes r = 0 then last_ping r \<le> last_beacon_mark r
        else last_beacon_mark r + int (marker_probes r) * interval k \<le> last_ping r)
     \<and> marker_probes r \<le> retries k + 1 \<and> probes_sent r = 0"

definition steady :: "keepalive \<Rightarrow> bool" where
  "steady k \<longleftrightarrow> 0 < interval k \<and> 1 \<le> retries k \<and> beacon_interval k \<le> interval k"

lemma timers_init: "timers k (rl_init now) now"
  by (simp add: timers_def rl_init_def)

lemma timers_later: "timers k r now \<Longrightarrow> now \<le> now' \<Longrightarrow> timers k r now'"
  by (auto simp: timers_def)

lemma handle_beacon_timers:
  assumes "timers k r (clock l)" "handle_beacon (Some k) p (r, l) = (r2, l2)"
  shows "timers k r2 (clock l2)"
proof -
  have "clock l \<le> clock l2" using quiet_handle_beacon [of l "Some k" p r] assms(2) by (simp add: quiet_def)
  moreover have "timers k r2 (clock l)"
    using assms by (auto simp: handle_beacon_def timers_def Let_def simp del: unwords.simps split: if_splits)
  ultimately show ?thesis by (rule timers_later [rotated])
qed

lemma handle_probe_timers:
  assumes "timers k r (clock l)" "handle_probe p (r, l) = (r2, l2)"
  shows "timers k r2 (clock l2)"
proof -
  have c: "clock l \<le> clock l2" using quiet_handle_probe [of l p r] assms(2) by (simp add: quiet_def)
  show ?thesis
  proof (cases "is_ping p \<and> Some (p ! 1) \<noteq> outstanding r")
    case True
    then obtain c where "c = clock l2" "r2 = r\<lparr>last_rx := c, probes_sent := 0\<rparr>"
      using assms(2) by (auto simp: handle_probe_def Let_def)
    then show ?thesis using assms(1) c by (auto simp: timers_def)
  next
    case False
    then have "timers k r2 (clock l)"
      using assms by (auto simp: handle_probe_def proved_alive_def timers_def Let_def split: if_splits)
    then show ?thesis using c by (rule timers_later)
  qed
qed

lemma tick_beacon_timers:
  assumes "timers k r now" "tick_beacon k now (r, l) = (r2, l2)"
  shows "timers k r2 now"
    and "beacon_waiting r2 = None \<Longrightarrow> now - last_beacon_mark r2 < beacon_interval k"
    and "last_beacon_mark r2 = last_beacon_mark r" "last_rx r2 = last_rx r"
      "marker_probes r2 = marker_probes r" "last_ping r2 = last_ping r" "probes_sent r2 = probes_sent r"
  using assms by (auto simp: tick_beacon_def timers_def Let_def split: if_splits)

lemma tick_marker_timers:
  assumes "timers k r now" "tick_marker k now (r, l) = Inr (r2, l2)" "0 < interval k"
  shows "timers k r2 now"
  using assms
  by (auto simp: tick_marker_def send_ping_def timers_def Let_def algebra_simps split: if_splits)

text \<open>With a beacon interval no longer than the interval, the second arm of the timer never acts:
  whenever it could, the marker arm has just sent a probe.\<close>

lemma tick_idle_dead:
  assumes "timers k r now" "steady k" "tick_beacon k now (r, l) = (r1, l1)"
    and "tick_marker k now (r1, l1) = Inr (r2, l2)"
  shows "tick_idle k now (now - last_rx r) (r2, l2) = Inr (r2, l2)"
proof -
  note b = tick_beacon_timers [OF assms(1,3)]
  have "probes_sent r2 = 0"
    using assms(4) b(1) by (auto simp: tick_marker_def send_ping_def timers_def Let_def split: if_splits)
  moreover have "now - last_rx r < interval k \<or> now - last_ping r2 < interval k"
  proof (cases "last_ping r2 = now")
    case False
    then have "r2 = r1" and
      n: "beacon_waiting r1 = None \<or> now - last_beacon_mark r1 < interval k
        \<or> now - last_ping r1 < interval k"
      using assms(4) by (auto simp: tick_marker_def send_ping_def Let_def split: if_splits)
    moreover have "now - last_rx r \<le> now - last_beacon_mark r1"
      using assms(1) b(3) by (simp add: timers_def)
    ultimately show ?thesis using b(2) assms(2) by (auto simp: steady_def)
  qed (use assms(2) in \<open>simp add: steady_def\<close>)
  ultimately show ?thesis using assms(2) by (auto simp: tick_idle_def steady_def)
qed

text \<open>So one tick of the timers is the beacon arm and the marker arm.\<close>

lemma keepalive_tick_steady:
  assumes "timers k r now" "steady k" "tick_beacon k now (r, l) = (r1, l1)"
  shows "keepalive_tick (Some k) now (r, l) =
    (case tick_marker k now (r1, l1) of Inl e \<Rightarrow> Inl (e, l1) | Inr s \<Rightarrow> Inr s)"
  using tick_idle_dead [OF assms] assms(3)
  by (auto simp: keepalive_tick_def split: sum.split)

lemma tick_timers:
  assumes "timers k r now" "steady k" "keepalive_tick (Some k) now (r, l) = Inr (r2, l2)"
  shows "timers k r2 now" and "last_beacon_mark r2 = last_beacon_mark r"
    and "now - (if marker_probes r2 = 0 then last_beacon_mark r2 else last_ping r2) < interval k"
proof -
  obtain r1 l1 where b: "tick_beacon k now (r, l) = (r1, l1)" by force
  note f = tick_beacon_timers [OF assms(1) b]
  have m: "tick_marker k now (r1, l1) = Inr (r2, l2)"
    using assms(3) keepalive_tick_steady [OF assms(1,2) b] by (auto split: sum.splits)
  show t: "timers k r2 now" using tick_marker_timers [OF f(1) m] assms(2) by (simp add: steady_def)
  show "last_beacon_mark r2 = last_beacon_mark r"
    using m f(3) by (auto simp: tick_marker_def send_ping_def Let_def split: if_splits)
  show "now - (if marker_probes r2 = 0 then last_beacon_mark r2 else last_ping r2) < interval k"
  proof (cases "last_ping r2 = now \<and> marker_probes r2 \<noteq> 0")
    case False
    then have e: "r2 = r1" and
      n: "beacon_waiting r1 = None \<or> now - last_beacon_mark r1 < interval k
        \<or> now - last_ping r1 < interval k"
      using m by (auto simp: tick_marker_def send_ping_def Let_def split: if_splits)
    show ?thesis
    proof (cases "marker_probes r1 = 0")
      case True
      then show ?thesis using e n f(1,2) assms(2) by (auto simp: timers_def steady_def)
    next
      case ne: False
      then have "interval k \<le> int (marker_probes r1) * interval k"
        using assms(2) mult_right_mono [of 1 "int (marker_probes r1)" "interval k"]
        by (simp add: steady_def)
      then have "last_beacon_mark r1 + interval k \<le> last_ping r1" and "beacon_waiting r1 \<noteq> None"
        using f(1) ne by (auto simp: timers_def)
      then show ?thesis using e n ne assms(2) by (auto simp: steady_def)
    qed
  qed (use assms(2) in \<open>simp add: steady_def\<close>)
qed

lemma recv_pass_timers:
  assumes "timers k r (clock l)" "steady k" "recv_pass (Some k) idle deadline (r, l) = Again (r2, l2)"
  shows "timers k r2 (clock l2)"
  using assms(3)
proof (cases rule: recv_pass_cases)
  case (keepalive line rest l1 s)
  let ?v = "voice (text_of line) Rx (l1\<lparr>buf := rest\<rparr>)"
  have "clock l \<le> clock ?v" using keepalive(2) by (simp add: quiet_def)
  note v = timers_later [OF assms(1) this]
  have "s = (r2, l2)" using keepalive(6) by simp
  then show ?thesis
    using keepalive(5) handle_beacon_timers [OF v] handle_probe_timers [OF v] by metis
next
  case (read l1 r3 l3 chunk l4)
  have "clock l \<le> clock l1" using read(2) by (simp add: quiet_def)
  note timers_later [OF assms(1) this]
  from tick_timers(1) [OF this assms(2) read(6)] have "timers k r2 (clock l1)" using read(8) by simp
  moreover have "clock l1 \<le> clock l2"
    using quiet_tick_Inr [OF read(6)] evolves_read [OF read(7)] read(8)
    by (auto simp: quiet_def evolves_def)
  ultimately show ?thesis by (rule timers_later)
qed simp_all

lemma ka_reach_timers:
  "ka_reach k idle deadline l0 s \<Longrightarrow> steady k \<Longrightarrow> timers k (fst s) (clock (snd s))"
proof (induction rule: ka_reach.induct)
  case start
  then show ?case by (simp add: timers_init)
next
  case (again s s')
  then show ?case using recv_pass_timers by (cases s; cases s') auto
qed

lemma t_read_error: "t_read n l = (Inl x, l2) \<Longrightarrow> x = OSErr"
  by (auto simp: t_read.simps split: list.splits ev.splits if_splits)


text \<open>A quick keep-alive: on a silent line the probes go out at 200 and 400 ms, and the loss is
  declared at 600 ms.\<close>

definition quick_keepalive :: keepalive where
  "quick_keepalive = \<lparr>interval = 200, ka_timeout = 400, retries = 1, beacon_interval = 200,
     beacon_tx = ''U'', beacon_rx = ''P''\<rparr>"

fun passes :: "keepalive \<Rightarrow> bool \<Rightarrow> msec \<Rightarrow> nat \<Rightarrow> rl \<times> lnk \<Rightarrow> (rl \<times> lnk) option" where
  "passes k idle deadline 0 s = Some s"
| "passes k idle deadline (Suc n) s =
     (case recv_pass (Some k) idle deadline s of
        Again s' \<Rightarrow> passes k idle deadline n s' | Leave _ \<Rightarrow> None)"

lemma passes_reach:
  "passes k idle deadline n s = Some s' \<Longrightarrow> ka_reach k idle deadline l0 s
     \<Longrightarrow> ka_reach k idle deadline l0 s'"
proof (induction n arbitrary: s)
  case (Suc n)
  show ?case
  proof (cases "recv_pass (Some k) idle deadline s")
    case (Again x)
    then show ?thesis using Suc ka_reach.again by simp
  qed (use Suc in simp)
qed simp

definition quick_state :: "rl \<times> lnk" where
  "quick_state = the (passes quick_keepalive False 60000 3 (rl_init 0, fresh_link []))"

lemma quick_state_reach: "ka_reach quick_keepalive False 60000 (fresh_link []) quick_state"
proof -
  have "passes quick_keepalive False 60000 3 (rl_init 0, fresh_link []) \<noteq> None" by code_simp
  then show ?thesis
    using passes_reach [OF _ ka_reach.start] by (auto simp: quick_state_def fresh_link_def)
qed

lemma quick_state_loss:
  "case recv_pass (Some quick_keepalive) False 60000 quick_state of
     Leave (Inl x, l) \<Rightarrow> x = error LinkLostError \<and> clock l = 600
       \<and> sent l = [Line ''BEACON U 0'', Line ''PING 0'', Line ''PING 1'']
   | _ \<Rightarrow> False"
  by code_simp


subsection \<open>Detection in time\<close>

text \<open>A line on which no read takes longer than \<open>D\<close> and writes are instant.\<close>

definition punctual :: "msec \<Rightarrow> lnk \<Rightarrow> bool" where
  "punctual D l \<longleftrightarrow>
     delays l = [] \<and> (\<forall>x \<in> set (script l). int (ev_wait x) \<le> D) \<and> int READ_TIMEOUT \<le> D"

definition prompt :: "keepalive \<Rightarrow> msec \<Rightarrow> rl \<Rightarrow> msec \<Rightarrow> bool" where
  "prompt k D r now \<longleftrightarrow>
     now \<le> (if marker_probes r = 0 then last_beacon_mark r else last_ping r) + interval k + D
     \<and> (marker_probes r \<noteq> 0 \<longrightarrow>
          last_ping r \<le> last_beacon_mark r + int (marker_probes r) * (interval k + D))"

lemma punctual_quiet: "punctual D l \<Longrightarrow> quiet l l2 \<Longrightarrow> punctual D l2 \<and> clock l2 = clock l"
  by (auto simp: punctual_def quiet_def)

lemma punctual_read:
  assumes "punctual D l" "t_read n l = (Inr bs, l2)"
  shows "punctual D l2" and "clock l2 \<le> clock l + D"
  using assms by (auto simp: punctual_def t_read.simps split: list.splits ev.splits if_splits)

lemma handle_prompt:
  assumes "prompt k D r (clock l)" "0 \<le> interval k + D" "delays l = []"
    and "(r2, l2) = handle_beacon (Some k) p (r, l) \<or> (r2, l2) = handle_probe p (r, l)"
  shows "prompt k D r2 (clock l)"
  using assms
  by (elim disjE; auto simp: prompt_def handle_beacon_def handle_probe_def proved_alive_def Let_def
      simp del: unwords.simps split: if_splits)

lemma tick_prompt:
  assumes "prompt k D r now" "timers k r now" "steady k" "0 \<le> interval k + D"
    and "keepalive_tick (Some k) now (r, l) = Inr (r2, l2)" "now' \<le> now + D"
  shows "prompt k D r2 now'"
proof -
  obtain r1 l1 where b: "tick_beacon k now (r, l) = (r1, l1)" by force
  note f = tick_beacon_timers [OF assms(2) b] and t = tick_timers [OF assms(2,3,5)]
  have m: "tick_marker k now (r1, l1) = Inr (r2, l2)"
    using assms(5) keepalive_tick_steady [OF assms(2,3) b] by (auto split: sum.splits)
  then consider (same) "marker_probes r2 = marker_probes r" "last_ping r2 = last_ping r"
    | (probe) "marker_probes r2 = marker_probes r + 1" "last_ping r2 = now"
    using f by (auto simp: tick_marker_def send_ping_def Let_def split: if_splits)
  then have "marker_probes r2 \<noteq> 0 \<longrightarrow>
      last_ping r2 \<le> last_beacon_mark r2 + int (marker_probes r2) * (interval k + D)"
    using assms(1) t(2)
    by cases (auto simp: prompt_def algebra_simps split: if_splits)
  then show ?thesis using t(3) assms(6) by (auto simp: prompt_def)
qed

lemma ka_reach_prompt:
  assumes "ka_reach k idle deadline l0 s" "steady k" "punctual D l0"
  shows "punctual D (snd s) \<and> prompt k D (fst s) (clock (snd s))"
  using assms(1)
proof (induction rule: ka_reach.induct)
  case start
  then show ?case using assms(2,3) by (simp add: prompt_def rl_init_def punctual_def steady_def)
next
  case (again s s')
  obtain r l r2 l2 where s: "s = (r, l)" "s' = (r2, l2)" by (cases s; cases s') auto
  have t: "timers k r (clock l)" using ka_reach_timers [OF again(1) assms(2)] s by simp
  have pos: "0 \<le> interval k + D" using assms(2,3) by (simp add: steady_def punctual_def)
  from again(3) s have p: "punctual D l" and pr: "prompt k D r (clock l)" by simp_all
  from again(2) [unfolded s] have "punctual D l2 \<and> prompt k D r2 (clock l2)"
  proof (cases rule: recv_pass_cases)
    case (keepalive line rest l1 x)
    let ?v = "voice (text_of line) Rx (l1\<lparr>buf := rest\<rparr>)"
    have 1: "punctual D l1" "clock l1 = clock l" using punctual_quiet [OF p keepalive(2)] by simp_all
    then have 2: "punctual D (l1\<lparr>buf := rest\<rparr>)" by (simp add: punctual_def)
    have x: "x = (r2, l2)" using keepalive(6) by simp
    have 3: "punctual D l2" "clock l2 = clock l"
      using punctual_quiet [OF 2 keepalive(4)] x 1(2) by simp_all
    have "prompt k D r2 (clock ?v)"
      by (rule handle_prompt [OF _ pos])
        (use pr 1 keepalive(5) x in \<open>auto simp: punctual_def\<close>)
    then show ?thesis using 1 3 by simp
  next
    case (read l1 r3 l3 chunk l4)
    have 1: "punctual D l1" "clock l1 = clock l" using punctual_quiet [OF p read(2)] by simp_all
    have 3: "punctual D l3" "clock l3 = clock l"
      using punctual_quiet [OF 1(1) quiet_tick_Inr [OF read(6)]] 1(2) by simp_all
    note 4 = punctual_read [OF 3(1) read(7)]
    have "prompt k D r3 (clock l4)"
      by (rule tick_prompt [OF _ _ assms(2) pos read(6)]) (use pr t 1 3 4 in simp_all)
    then show ?thesis using read(8) 4 by (simp add: punctual_def)
  qed simp_all
  then show ?case by (simp add: s)
qed




text \<open>The peer answers the outstanding \<open>PING 0\<close>.\<close>

definition pong_pass :: "rl \<times> lnk" where
  "pong_pass = ((rl_init 0)\<lparr>outstanding := Some ''0'', beacon_waiting := Some 0, marker_probes := 1\<rparr>,
     (fresh_link [])\<lparr>clock := 700, buf := encode_ascii ''PONG 0'' @ [10]\<rparr>)"


text \<open>The parameters of \<open>const.py\<close>, which the server uses.\<close>

definition default_keepalive :: keepalive where
  "default_keepalive = \<lparr>interval = KEEPALIVE_INTERVAL, ka_timeout = KEEPALIVE_TIMEOUT,
     retries = KEEPALIVE_RETRIES, beacon_interval = BEACON_INTERVAL, beacon_tx = ''U'', beacon_rx = ''P''\<rparr>"


lemma recv_pass_timeout:
  assumes "timers k r (clock l)" "steady k"
  shows "recv_pass (Some (k\<lparr>ka_timeout := x\<rparr>)) idle deadline (r, l) = recv_pass (Some k) idle deadline (r, l)"
proof -
  let ?k = "k\<lparr>ka_timeout := x\<rparr>" and ?l = "if idle then control_idle l else l"
  have "clock l \<le> clock ?l" using quiet_idle [of l idle] by (simp add: quiet_def)
  then have t: "timers k r (clock ?l)" by (rule timers_later [OF assms(1)])
  then have t': "timers ?k r (clock ?l)" "steady ?k" using assms(2) by (auto simp: timers_def steady_def)
  obtain r1 l1 where b: "tick_beacon k (clock ?l) (r, ?l) = (r1, l1)" by force
  have "tick_beacon ?k now s = tick_beacon k now s" for now s by (cases s) (simp add: tick_beacon_def)
  then have b': "tick_beacon ?k (clock ?l) (r, ?l) = (r1, l1)" using b by simp
  have "tick_marker ?k now s = tick_marker k now s" for now s by (cases s) (auto simp: tick_marker_def)
  then have "keepalive_tick (Some ?k) (clock ?l) (r, ?l) = keepalive_tick (Some k) (clock ?l) (r, ?l)"
    using keepalive_tick_steady [OF t assms(2) b] keepalive_tick_steady [OF t' b'] by simp
  moreover have "handle_beacon (Some ?k) p s = handle_beacon (Some k) p s" for p s
    by (cases s) (simp add: handle_beacon_def Let_def)
  ultimately show ?thesis
    by (cases "cut_line (buf ?l)")
      (simp_all add: recv_pass_def Let_def split: prod.split split del: if_split cong: if_cong)
qed

lemma recv_loop_timeout:
  "timers k r (clock l) \<Longrightarrow> steady k \<Longrightarrow>
     recv_loop (Some (k\<lparr>ka_timeout := x\<rparr>)) idle deadline r l = recv_loop (Some k) idle deadline r l"
proof (induction "Some k" idle deadline r l rule: recv_loop.induct)
  case (1 idle deadline r l)
  show ?case
  proof (cases "recv_pass (Some k) idle deadline (r, l)")
    case (Again s)
    obtain r2 l2 where s: "s = (r2, l2)" by force
    then have "timers k r2 (clock l2)" using recv_pass_timers 1 Again by blast
    then show ?thesis using 1 Again s recv_pass_timeout
      by (simp add: recv_loop.simps [of _ _ _ r l])
  qed (use 1 recv_pass_timeout in \<open>simp add: recv_loop.simps [of _ _ _ r l]\<close>)
qed

text \<open>C24: the time-out of a keep-alive is without effect: with a beacon interval no longer than the probe
  interval, which the shipped parameters have, a read behaves the same whatever \<open>timeout\<close> says; the
  arm of \<open>recv_line\<close> that compares the silence with it is never taken.\<close>

theorem keepalive_timeout_unused:
  "steady k \<Longrightarrow>
     recv_line t (Some (k\<lparr>ka_timeout := x\<rparr>)) idle l = recv_line t (Some k) idle l"
  unfolding recv_line_def by (rule recv_loop_timeout [OF timers_init])

lemma keepalive_timeout_unused_witness:
  "recv_line 3600000 (Some (default_keepalive\<lparr>ka_timeout := 1\<rparr>)) False (fresh_link [])
     = recv_line 3600000 (Some default_keepalive) False (fresh_link [])"
  by (rule keepalive_timeout_unused) (simp add: steady_def default_keepalive_def const_defs)

end
