(* ===== verification/Const.thy ===== *)
theory Const
  imports Prelude
begin

text \<open>
  The constants of \<open>const.py\<close> that both ends of a transfer use; times in milliseconds.
  The constants of the framing, the names and the flow control stand in the theories of those parts.
\<close>

definition PROTOCOL_VERSION :: string where [const_defs]: "PROTOCOL_VERSION = ''PCUTP/2''"
definition MAX_BLOCK_SIZE :: nat where [const_defs]: "MAX_BLOCK_SIZE = 4096"
definition MAX_FILE_SIZE :: nat where [const_defs]: "MAX_FILE_SIZE = 16 * 1024 * 1024"
definition HANDSHAKE_TIMEOUT :: msec where [const_defs]: "HANDSHAKE_TIMEOUT = 10000"
definition HELLO_RETRIES :: nat where [const_defs]: "HELLO_RETRIES = 10"
definition ACK_TIMEOUT :: msec where [const_defs]: "ACK_TIMEOUT = 12000"
definition MAX_RETRIES :: nat where [const_defs]: "MAX_RETRIES = 5"
definition MAX_TIMEOUTS :: nat where [const_defs]: "MAX_TIMEOUTS = 5"
definition MAX_RESETS :: nat where [const_defs]: "MAX_RESETS = 2"
definition RST_RETRIES :: nat where [const_defs]: "RST_RETRIES = 3"
definition FLOW_GROW_ACKS :: nat where [const_defs]: "FLOW_GROW_ACKS = 8"
definition PROBE_GUARD :: msec where [const_defs]: "PROBE_GUARD = 1000"
definition PROBE_TIMEOUT :: msec where [const_defs]: "PROBE_TIMEOUT = 3000"
definition PROBE_RETRIES :: nat where [const_defs]: "PROBE_RETRIES = 10"
definition BASE_BAUDRATE :: nat where [const_defs]: "BASE_BAUDRATE = 115200"
definition DEFAULT_BLOCK_SIZE :: nat where [const_defs]: "DEFAULT_BLOCK_SIZE = 4096"
definition MAX_DROPS :: nat where [const_defs]: "MAX_DROPS = 3"
definition LINE_TIMEOUT :: msec where [const_defs]: "LINE_TIMEOUT = 30000"
definition DATA_TIMEOUT :: msec where [const_defs]: "DATA_TIMEOUT = 12000"
definition RECOVERY_TIMEOUT :: msec where [const_defs]: "RECOVERY_TIMEOUT = 60000"
definition HTTP_TIMEOUT :: msec where [const_defs]: "HTTP_TIMEOUT = 30000"
definition FETCH_TIMEOUT :: msec where [const_defs]: "FETCH_TIMEOUT = 45000"
definition PART_SUFFIX :: string where [const_defs]: "PART_SUFFIX = ''.PART''"

end
