(* ===== verification/Server.thy ===== *)
theory Server
  imports Const Consume Flow Compression Names Crc Liveness
begin

text \<open>
  The sender of \<open>server.py\<close>: its state, its line reader and the handshake.  \<open>config\<close> holds what
  \<open>PcutpServer.__init__\<close> fixes, \<open>server\<close> the link and the attributes that change.  \<open>progress\<close> and
  \<open>results\<close> are the logs of the \<open>on_progress\<close> and \<open>on_result\<close> calls.  An operation returns its value or its exception, and the
  state in which it ended.
\<close>

subsection \<open>State\<close>

record config =
  auto_block :: bool
  block_limit :: nat
  window_limit :: nat
  compression_enabled :: bool
  probe_guard :: msec
  probe_timeout :: msec
  probe_retries :: nat
  max_file_size :: nat
  ack_timeout :: msec
  max_retries :: nat
  baud :: nat
  idle_keepalive :: keepalive

text \<open>\<open>TransferResult\<close>\<close>

record transfer_result =
  t_filename :: string
  t_size :: nat
  t_blocks :: nat
  t_crc32 :: string
  t_retransmits :: nat
  t_verified :: bool
  t_compressed_blocks :: nat
  t_data_wire_bytes :: nat

record server =
  link :: lnk
  cfg :: config
  block_size :: nat
  negotiated_block_limit :: nat
  window_size :: nat
  flow :: bool
  barrier_id :: nat
  reset_token :: "string option"
  lz4 :: bool                       \<comment> \<open>\<open>self.compression\<close>\<close>
  use_compression :: bool
  identity :: bool
  compressed_blocks :: nat
  data_wire_bytes :: nat
  pending :: "string option"
  transfer_active :: bool
  raw_write_active :: bool
  progress :: "(nat \<times> nat) list"
  results :: "transfer_result list"

text \<open>\<open>PcutpServer.__init__\<close>; \<open>None\<close> stands for the default block size.\<close>

definition server_init ::
  "lnk \<Rightarrow> nat option \<Rightarrow> nat \<Rightarrow> msec \<Rightarrow> nat \<Rightarrow> nat \<Rightarrow> keepalive \<Rightarrow> nat \<Rightarrow> bool
     \<Rightarrow> msec \<Rightarrow> msec \<Rightarrow> nat \<Rightarrow> exn + server" where
  "server_init l bs max_size ack_t retries_n bd ka window lz guard probe_t probe_n =
     (let size = (case bs of None \<Rightarrow> MAX_BLOCK_SIZE | Some n \<Rightarrow> n) in
      if size < 1 \<or> \<not> (1 \<le> window \<and> window \<le> MAX_WINDOW) then Inl ValueErr
      else case keepalive_check ka of
        Inl e \<Rightarrow> Inl e
      | Inr k \<Rightarrow>
          let limit = min size MAX_BLOCK_SIZE in
          Inr \<lparr>link = l,
            cfg = \<lparr>auto_block = (bs = None), block_limit = limit, window_limit = window,
              compression_enabled = lz, probe_guard = guard, probe_timeout = probe_t,
              probe_retries = probe_n, max_file_size = max_size, ack_timeout = ack_t,
              max_retries = retries_n, baud = bd, idle_keepalive = k\<rparr>,
            block_size = limit, negotiated_block_limit = limit, window_size = 1, flow = False,
            barrier_id = 0, reset_token = None, lz4 = False, use_compression = False,
            identity = False, compressed_blocks = 0, data_wire_bytes = 0, pending = None,
            transfer_active = False, raw_write_active = False, progress = [],
            results = []\<rparr>)"

subsection \<open>Lines\<close>

definition on_link :: "(lnk \<Rightarrow> lnk) \<Rightarrow> server \<Rightarrow> server" where
  "on_link f s = s\<lparr>link := f (link s)\<rparr>"

text \<open>For evaluation: a state that is not yet a value is not copied.\<close>

lemma on_link_code [code]:
  "on_link f \<lparr>link = l, cfg = c, block_size = a1, negotiated_block_limit = a2, window_size = a3,
       flow = a4, barrier_id = a5, reset_token = a6, lz4 = a7, use_compression = a8, identity = a9,
       compressed_blocks = b1, data_wire_bytes = b2, pending = b3, transfer_active = b4,
       raw_write_active = b5, progress = b6, results = b7\<rparr> =
     \<lparr>link = f l, cfg = c, block_size = a1, negotiated_block_limit = a2, window_size = a3,
       flow = a4, barrier_id = a5, reset_token = a6, lz4 = a7, use_compression = a8, identity = a9,
       compressed_blocks = b1, data_wire_bytes = b2, pending = b3, transfer_active = b4,
       raw_write_active = b5, progress = b6, results = b7\<rparr>"
  by (simp add: on_link_def)

definition put :: "string list \<Rightarrow> server \<Rightarrow> server" where
  "put ws = on_link (send_line (unwords ws))"

definition clk :: "server \<Rightarrow> msec" where
  "clk s = clock (link s)"

definition hs_sound :: "string \<Rightarrow> server \<Rightarrow> server" where
  "hs_sound name = on_link (voice_hs name)"

definition fail :: "exn \<Rightarrow> server \<Rightarrow> server" where
  "fail e = on_link (send_line (wire e))"

lemma link_on_link [simp]: "link (on_link f s) = f (link s)"
  by (simp add: on_link_def)

lemmas link_ops = put_def hs_sound_def fail_def on_link_def

definition is_rmb :: "string list \<Rightarrow> bool" where
  "is_rmb p \<longleftrightarrow> \<not> (length p < 2 \<or> p ! 0 \<noteq> ''RMB'' \<or> p ! 1 \<notin> {''0'', ''1''})"

text \<open>\<open>PcutpServer._recv_line\<close>: state reports of the \<open>RMB\<close> control are acknowledged on the way.\<close>

function srv_recv_loop ::
  "msec \<Rightarrow> keepalive option \<Rightarrow> bool \<Rightarrow> server \<Rightarrow> (exn + string) \<times> server" where
  "srv_recv_loop deadline ka idle s =
     (case recv_line (max 0 (deadline - clk s)) ka idle (link s) of
        (Inl e, l) \<Rightarrow> (Inl e, s\<lparr>link := l\<rparr>)
      | (Inr line, l) \<Rightarrow>
          let p = split_ws line; s1 = s\<lparr>link := l\<rparr> in
          if \<not> is_rmb p then (Inr line, s1)
          else let s2 = put [''RMB-ACK'', p ! 1] s1 in
            if clk s2 \<ge> deadline then (Inl (error TimeoutErr), s2)
            else srv_recv_loop deadline ka idle s2)"
  by pat_completeness auto

termination srv_recv_loop
  by (relation "measure (\<lambda>(d, ka, idle, s). inp (link s))") (auto simp: link_ops dest: recv_line_drop)

definition srv_recv :: "msec \<Rightarrow> keepalive option \<Rightarrow> bool \<Rightarrow> server \<Rightarrow> (exn + string) \<times> server" where
  "srv_recv timeout ka idle s = srv_recv_loop (clk s + timeout) ka idle s"

declare srv_recv_loop.simps [simp del]

text \<open>What every operation but the handshake leaves alone.\<close>

definition frame :: "server \<Rightarrow> server \<Rightarrow> bool" where
  "frame s s' \<longleftrightarrow> evolves (link s) (link s') \<and> cfg s' = cfg s \<and> pending s' = pending s
     \<and> window_size s' = window_size s \<and> flow s' = flow s
     \<and> negotiated_block_limit s' = negotiated_block_limit s"

text \<open>What the operations of one transfer leave alone besides.\<close>

definition keeps :: "server \<Rightarrow> server \<Rightarrow> bool" where
  "keeps s s' \<longleftrightarrow> frame s s' \<and> block_size s' = block_size s \<and> use_compression s' = use_compression s"

lemma keeps_refl [simp]: "keeps s s"
  by (simp add: keeps_def frame_def)

lemma keeps_trans: "keeps a b \<Longrightarrow> keeps b c \<Longrightarrow> keeps a c"
  by (auto simp: keeps_def frame_def intro: evolves_trans)

lemma keeps_put [simp]: "keeps a b \<Longrightarrow> keeps a (put ws b)" "keeps a b \<Longrightarrow> keeps a (fail e b)"
  "keeps a b \<Longrightarrow> keeps a (hs_sound n b)"
  by (auto simp: keeps_def frame_def link_ops voice_hs_def evolves_def inp_def
      pending_input_def intro: order_trans [OF _ send_line_fields(3)] simp flip: send_line_fields(5))

text \<open>A step that touches nothing but the link.\<close>

definition only_link :: "server \<Rightarrow> server \<Rightarrow> bool" where
  "only_link s s' \<longleftrightarrow> s' = s\<lparr>link := link s'\<rparr> \<and> evolves (link s) (link s')"

lemma only_link_refl [simp]: "only_link s s"
  by (simp add: only_link_def)

lemma only_link_trans: "only_link a b \<Longrightarrow> only_link b c \<Longrightarrow> only_link a c"
  by (cases a; cases b; cases c) (auto simp: only_link_def intro: evolves_trans)

lemma only_link_keeps: "only_link a b \<Longrightarrow> keeps a b"
  by (cases a; cases b) (auto simp: only_link_def keeps_def frame_def)

lemma evolves_voice_hs: "evolves a b \<Longrightarrow> evolves a (voice_hs n b)"
  by (simp add: evolves_def voice_hs_def inp_def pending_input_def)

lemma only_link_put [simp]:
  "only_link a b \<Longrightarrow> only_link a (put ws b)" "only_link a b \<Longrightarrow> only_link a (fail e b)"
  "only_link a b \<Longrightarrow> only_link a (hs_sound n b)"
  by (cases a; cases b; auto simp: only_link_def link_ops evolves_voice_hs)+

lemma put_fields [simp]:
  "inp (link (put ws s)) = inp (link s)" "clk s \<le> clk (put ws s)"
  "sent (link (put ws s)) = sent (link s) @ [Line (unwords ws)]"
  by (simp_all add: link_ops clk_def)

lemma srv_recv_loop_only_link:
  "srv_recv_loop deadline ka idle s = (r, s') \<Longrightarrow>
     only_link s s' \<and> (\<forall>x. r = Inr x \<longrightarrow> inp (link s') < inp (link s))"
proof (induction deadline ka idle s rule: srv_recv_loop.induct)
  case (1 deadline ka idle s)
  obtain x l where x: "recv_line (max 0 (deadline - clk s)) ka idle (link s) = (x, l)" by force
  have o: "only_link s (s\<lparr>link := l\<rparr>)" using recv_line_evolves [OF x] by (simp add: only_link_def)
  show ?case
  proof (cases x)
    case (Inl e)
    then show ?thesis using 1(2) x o by (auto simp: srv_recv_loop.simps [of deadline])
  next
    case (Inr line)
    let ?p = "split_ws line" and ?s1 = "s\<lparr>link := l\<rparr>"
    let ?s2 = "put [''RMB-ACK'', ?p ! 1] ?s1"
    have i: "inp l < inp (link s)" by (rule recv_line_inp [OF x [unfolded Inr]])
    have o2: "only_link s ?s2" by (rule only_link_put(1) [OF o])
    show ?thesis
    proof (cases "is_rmb ?p \<and> clk ?s2 < deadline")
      case True
      then have "only_link ?s2 s' \<and> (\<forall>x. r = Inr x \<longrightarrow> inp (link s') < inp (link ?s2))"
        using 1 x Inr by (simp add: srv_recv_loop.simps [of deadline ka idle s] Let_def)
      then show ?thesis using only_link_trans [OF o2] i by force
    next
      case False
      then show ?thesis using 1(2) x Inr o o2 i
        by (auto simp: srv_recv_loop.simps [of deadline ka idle s] Let_def split: if_splits)
    qed
  qed
qed

lemma srv_recv_only_link: "srv_recv t ka idle s = (r, s') \<Longrightarrow> only_link s s'"
  and srv_recv_inp: "srv_recv t ka idle s = (Inr x, s') \<Longrightarrow> inp (link s') < inp (link s)"
  using srv_recv_loop_only_link by (auto simp: srv_recv_def)

lemmas srv_recv_drop = srv_recv_inp srv_recv_inp [OF sym]

text \<open>The server as a source of lines: the operations of a transfer keep \<open>keeps\<close>.\<close>

lemma keeps_inp: "keeps s s' \<Longrightarrow> inp (link s') \<le> inp (link s)"
  by (auto simp: keeps_def frame_def dest: evolves_inp)

interpretation srv: line_source keeps "\<lambda>s. inp (link s)" "\<lambda>(timeout, ka, idle). srv_recv timeout ka idle"
proof unfold_locales
  show "reads_by keeps (\<lambda>s. inp (link s)) got s r s'"
    if "(case t of (timeout, ka, idle) \<Rightarrow> srv_recv timeout ka idle) s = (r, s')" for t s r s'
    using that srv_recv_only_link [THEN only_link_keeps] srv_recv_inp
    by (cases t; cases r) (auto simp: reads_by_def)
qed (simp_all add: keeps_inp, rule keeps_trans)

lemma srv_recv_reads: "srv_recv t ka idle s = (r, s') \<Longrightarrow> reads_by keeps (\<lambda>s. inp (link s)) got s r s'"
  using srv.recv_reads [of "(t, ka, idle)"] by simp

subsection \<open>Handshake\<close>

definition proposal_words :: "server \<Rightarrow> string list \<Rightarrow> string list" where
  "proposal_words s extra =
     [''BAUD='' @ str_of (baud (cfg s)), ''MAXBLK='' @ str_of (block_size s)] @ extra"

definition ohru :: "string list \<Rightarrow> string list" where
  "ohru tail = [''OHRU'', PROTOCOL_VERSION] @ tail"

text \<open>The capabilities of a greeting: the attributes they set, the extra words of the proposal.\<close>

definition negotiate :: "caps \<Rightarrow> server \<Rightarrow> (exn + string list) \<times> server" where
  "negotiate caps s =
     (let bs = min (block_limit (cfg s)) (cap_get caps ''MAXBLK'' (block_limit (cfg s)));
          fl = (caps ''FLOW'' = Some 1);
          s1 = s\<lparr>block_size := bs, negotiated_block_limit := bs, flow := fl,
            lz4 := fl \<and> compression_enabled (cfg s) \<and> caps ''LZ4'' = Some 1,
            identity := caps ''IDENTITY'' = Some 1, window_size := 1\<rparr>;
          ident = (if identity s1 then [''IDENTITY=1''] else [])
      in if fl then
           let capacity = cap_get caps ''RXBUF'' 0 div (bs + FRAME_OVERHEAD) in
           if capacity < 1 then (Inl (error ProtocolError), s1)
           else let w = min (min (window_limit (cfg s)) (cap_get caps ''WINDOW'' 1)) capacity;
                    s2 = s1\<lparr>window_size := w\<rparr>
                in (Inr ([''FLOW=1'', ''WINDOW='' @ str_of w]
                     @ (if lz4 s2 then [''LZ4=1''] else []) @ ident), s2)
         else (Inr ident, s1))"

text \<open>The wait for \<open>HRU\<close> with \<open>n\<close> attempts left; \<open>None\<close>: the loop reported a time-out.\<close>

fun hru_loop ::
  "nat \<Rightarrow> msec \<Rightarrow> string list \<Rightarrow> server \<Rightarrow> (exn + string option) \<times> server" where
  "hru_loop 0 deadline tail s = (Inr None, fail (error TimeoutErr) s)"
| "hru_loop (Suc n) deadline tail s =
     (case srv_recv (max 0 (deadline - clk s)) None False s of
        (Inl e, s1) \<Rightarrow>
          if is_class TimeoutErr e then
            if n = 0 then (Inr None, fail (error TimeoutErr) s1)
            else let s2 = put (ohru tail) s1 in hru_loop n (clk s2 + HANDSHAKE_TIMEOUT) tail s2
          else (Inl e, s1)
      | (Inr reply, s1) \<Rightarrow>
          if startswith reply (''HELLO '' @ PROTOCOL_VERSION)
             \<or> startswith reply (''HELLO? '' @ PROTOCOL_VERSION)
          then let s2 = put (ohru tail) s1 in hru_loop n (clk s2 + HANDSHAKE_TIMEOUT) tail s2
          else (Inr (Some reply), s1))"

fun iam_loop :: "nat \<Rightarrow> server \<Rightarrow> (exn + unit) \<times> server" where
  "iam_loop 0 s = (Inl (error TimeoutErr), s)"
| "iam_loop (Suc n) s =
     (case srv_recv HANDSHAKE_TIMEOUT None False (put [''WHO?'', ''0''] s) of
        (Inl e, s1) \<Rightarrow> (Inl e, s1)
      | (Inr line, s1) \<Rightarrow>
          let iam = split_ws line in
          if iam = [''HRU''] then iam_loop n s1
          else if length iam \<ge> 3 \<and> take 2 iam = [''IAM'', ''0''] \<and> startswith (iam ! 2) ''TYPE=''
          then (Inr (), s1)
          else (Inl (error ProtocolError), s1))"

text \<open>What follows the reply of the peer: an implicit acknowledgement, the identity, a fresh session.\<close>

definition identify :: "server \<Rightarrow> (exn + unit) \<times> server" where
  "identify s = (if identity s then iam_loop HELLO_RETRIES s else (Inr (), s))"

definition finish_hello :: "string \<Rightarrow> server \<Rightarrow> (exn + bool) \<times> server" where
  "finish_hello reply s =
     (let implicit = (\<not> identity s \<and> startswith reply ''GET '') in
      if reply \<noteq> ''HRU'' \<and> \<not> implicit then (Inr False, fail (error ProtocolError) s)
      else case identify (hs_sound ''connected''
                 (if reply \<noteq> ''HRU'' then s\<lparr>pending := Some reply\<rparr> else s)) of
          (Inl e, s2) \<Rightarrow> (Inl e, s2)
        | (Inr _, s2) \<Rightarrow> (Inr True, s2\<lparr>link := reset_session (link s2)\<rparr>))"

definition await_hru :: "string list \<Rightarrow> server \<Rightarrow> (exn + bool) \<times> server" where
  "await_hru tail s =
     (case hru_loop HELLO_RETRIES (clk s + HANDSHAKE_TIMEOUT) tail s of
        (Inl e, s1) \<Rightarrow> (Inl e, s1)
      | (Inr None, s1) \<Rightarrow> (Inr False, s1)
      | (Inr (Some reply), s1) \<Rightarrow> finish_hello reply s1)"

text \<open>The answer to a greeting of the right version, with the words \<open>p\<close>.\<close>

definition greeting_words :: "string list \<Rightarrow> string list \<Rightarrow> string list" where
  "greeting_words p tail =
     (if p ! 0 = ''HELLO'' then [''HELLO'', PROTOCOL_VERSION, ''HRU?''] @ tail else ohru tail)"

fun propose :: "string list \<Rightarrow> (exn + string list) \<times> server \<Rightarrow> (exn + bool) \<times> server" where
  "propose p (Inl e, s) = (Inl e, s)"
| "propose p (Inr extra, s) =
     await_hru (proposal_words s extra)
       (hs_sound ''carrier'' (hs_sound ''ring''
         (put (greeting_words p (proposal_words s extra)) s)))"

definition greet :: "string list \<Rightarrow> server \<Rightarrow> (exn + bool) \<times> server" where
  "greet p s =
     (case options (drop 2 p) of
        Inl e \<Rightarrow> (Inl e, hs_sound ''dial'' s)
      | Inr caps \<Rightarrow> propose p (negotiate caps (hs_sound ''dial'' s)))"

definition handle_hello :: "string \<Rightarrow> server \<Rightarrow> (exn + bool) \<times> server" where
  "handle_hello line s =
     (let p = split_ws line in
      if length p < 2 \<or> p ! 0 \<notin> {''HELLO'', ''HELLO?''} then (Inr False, fail (error ProtocolError) s)
      else if p ! 1 \<noteq> PROTOCOL_VERSION then (Inr False, fail (error VersionError) s)
      else greet p s)"

subsection \<open>What the handshake settles\<close>

lemma hru_loop_only_link:
  "hru_loop n deadline tail s = (r, s') \<Longrightarrow>
     only_link s s' \<and> (\<forall>x. r = Inr (Some x) \<longrightarrow> inp (link s') < inp (link s))"
proof (induction n arbitrary: deadline s)
  case (Suc n)
  obtain x s1 where x: "srv_recv (max 0 (deadline - clk s)) None False s = (x, s1)" by force
  note o = srv_recv_only_link [OF x]
  note o2 = only_link_put(1) [OF o, of "ohru tail"] and of = only_link_put(2) [OF o, of "error TimeoutErr"]
  have i: "x = Inr y \<Longrightarrow> inp (link s1) < inp (link s)" for y using x srv_recv_inp by blast
  have le: "inp (link s1) \<le> inp (link s)" using o by (simp add: only_link_def evolves_def)
  have again: "hru_loop n d tail (put (ohru tail) s1) = (r, s') \<Longrightarrow>
      only_link s s' \<and> (\<forall>x. r = Inr (Some x) \<longrightarrow> inp (link s') < inp (link s))" for d
    using Suc.IH [of d "put (ohru tail) s1"] only_link_trans [OF o2] le by fastforce
  show ?case
    using Suc.prems x o of again i by (cases x) (auto simp: Let_def split: if_splits)
qed auto

lemma iam_loop_only_link: "iam_loop n s = (r, s') \<Longrightarrow> only_link s s'"
proof (induction n arbitrary: s)
  case (Suc n)
  obtain x s1 where x: "srv_recv HANDSHAKE_TIMEOUT None False (put [''WHO?'', ''0''] s) = (x, s1)"
    by force
  have o: "only_link s s1"
    using srv_recv_only_link [OF x] only_link_trans only_link_put(1) [OF only_link_refl] by blast
  then show ?case
    using Suc x only_link_trans [OF o] by (cases x) (auto simp: Let_def split: if_splits)
qed auto

text \<open>The sizes that the two ends have agreed on.\<close>

definition agreed :: "caps \<Rightarrow> server \<Rightarrow> bool" where
  "agreed caps s \<longleftrightarrow>
     negotiated_block_limit s = block_size s \<and> block_size s \<le> block_limit (cfg s)
     \<and> (\<forall>n. caps ''MAXBLK'' = Some n \<longrightarrow> block_size s \<le> n)
     \<and> flow s = (caps ''FLOW'' = Some 1)
     \<and> (flow s \<longrightarrow> window_size s \<le> window_limit (cfg s) \<and> window_size s \<le> cap_get caps ''WINDOW'' 1
          \<and> window_size s * (block_size s + FRAME_OVERHEAD) \<le> cap_get caps ''RXBUF'' 0)
     \<and> (\<not> flow s \<longrightarrow> window_size s = 1)
     \<and> (lz4 s \<longrightarrow> flow s \<and> compression_enabled (cfg s) \<and> caps ''LZ4'' = Some 1)"

lemma window_fits: "min w (r div c) * c \<le> r" for r :: nat
  by (meson div_times_less_eq_dividend le_trans min.cobounded2 mult_le_mono1)

lemma negotiate_agreed:
  assumes "negotiate caps s = (Inr extra, s')"
  shows "agreed caps s'" and "cfg s' = cfg s" and "link s' = link s"
    and "1 \<le> window_limit (cfg s) \<Longrightarrow> 1 \<le> cap_get caps ''WINDOW'' 1 \<Longrightarrow> 1 \<le> window_size s'"
proof -
  define bs where "bs = min (block_limit (cfg s)) (cap_get caps ''MAXBLK'' (block_limit (cfg s)))"
  have bs: "bs \<le> block_limit (cfg s)" "caps ''MAXBLK'' = Some n \<Longrightarrow> bs \<le> n" for n
    by (simp_all add: bs_def cap_get_def)
  define s1 where "s1 = s\<lparr>block_size := bs, negotiated_block_limit := bs, flow := (caps ''FLOW'' = Some 1),
    lz4 := caps ''FLOW'' = Some 1 \<and> compression_enabled (cfg s) \<and> caps ''LZ4'' = Some 1,
    identity := caps ''IDENTITY'' = Some 1, window_size := 1\<rparr>"
  define room where "room = cap_get caps ''RXBUF'' 0 div (bs + FRAME_OVERHEAD)"
  define w where "w = min (min (window_limit (cfg s)) (cap_get caps ''WINDOW'' 1)) room"
  have w: "w \<le> window_limit (cfg s)" "w \<le> cap_get caps ''WINDOW'' 1"
    "w * (bs + FRAME_OVERHEAD) \<le> cap_get caps ''RXBUF'' 0"
    unfolding w_def room_def by (simp, simp, rule window_fits)
  note e = assms [unfolded negotiate_def Let_def, folded bs_def, folded s1_def, folded room_def,
      folded w_def]
  consider (flow) "caps ''FLOW'' = Some 1" "1 \<le> room" "s' = s1\<lparr>window_size := w\<rparr>"
    | (plain) "caps ''FLOW'' \<noteq> Some 1" "s' = s1"
    using e by (cases "caps ''FLOW'' = Some 1"; cases "room < 1") simp_all
  then have "agreed caps s' \<and> cfg s' = cfg s \<and> link s' = link s \<and>
    (1 \<le> window_limit (cfg s) \<and> 1 \<le> cap_get caps ''WINDOW'' 1 \<longrightarrow> 1 \<le> window_size s')"
  proof cases
    case flow
    have "agreed caps s'" using bs w flow(1) by (simp add: flow(3) agreed_def s1_def)
    moreover have "1 \<le> window_limit (cfg s) \<and> 1 \<le> cap_get caps ''WINDOW'' 1 \<longrightarrow> 1 \<le> window_size s'"
      using flow(2) by (simp add: flow(3) w_def)
    ultimately show ?thesis by (simp add: flow(3) s1_def)
  next
    case plain
    have "agreed caps s'" using bs plain(1) by (simp add: plain(2) agreed_def s1_def)
    then show ?thesis by (simp add: plain(2) s1_def)
  qed
  then show "agreed caps s'" "cfg s' = cfg s" "link s' = link s"
    "1 \<le> window_limit (cfg s) \<Longrightarrow> 1 \<le> cap_get caps ''WINDOW'' 1 \<Longrightarrow> 1 \<le> window_size s'"
    by simp_all
qed

lemma only_link_fields:
  "only_link s s' \<Longrightarrow> cfg s' = cfg s \<and> window_size s' = window_size s \<and> pending s' = pending s
     \<and> block_size s' = block_size s \<and> flow s' = flow s \<and> barrier_id s' = barrier_id s"
  by (cases s; cases s') (simp add: only_link_def)

lemma agreed_cong:
  assumes "only_link s s'"
  shows "agreed caps s' = agreed caps s"
proof -
  have "agreed caps (s\<lparr>link := l\<rparr>) = agreed caps s" for l by (simp add: agreed_def)
  with assms show ?thesis unfolding only_link_def by metis
qed

lemma finish_hello_effect:
  assumes "finish_hello reply s = (r, s')"
  shows "evolves (link s) (link s') \<and> cfg s' = cfg s \<and> agreed caps s' = agreed caps s
    \<and> window_size s' = window_size s"
proof (cases "reply \<noteq> ''HRU'' \<and> \<not> (\<not> identity s \<and> startswith reply ''GET '')")
  case True
  then have "s' = fail (error ProtocolError) s" using assms by (auto simp: finish_hello_def Let_def)
  then show ?thesis by (simp add: link_ops agreed_def)
next
  case False
  define s1 where "s1 = hs_sound ''connected'' (if reply \<noteq> ''HRU'' then s\<lparr>pending := Some reply\<rparr> else s)"
  obtain x s2 where x: "identify s1 = (x, s2)"
    by force
  have o: "only_link s1 s2"
    using x iam_loop_only_link [of HELLO_RETRIES s1 x s2] by (cases "identity s1") (auto simp: identify_def)
  have "s' = s2 \<or> s' = s2\<lparr>link := reset_session (link s2)\<rparr>"
    using assms False x by (auto simp: finish_hello_def Let_def s1_def [symmetric] split: sum.splits if_splits)
  moreover have "evolves (link s) (link s1)" "cfg s1 = cfg s" "agreed caps s1 = agreed caps s"
    "window_size s1 = window_size s"
    by (simp_all add: s1_def link_ops evolves_voice_hs agreed_def)
  moreover have "evolves a b \<Longrightarrow> evolves a (reset_session b)" for a b
    by (simp add: reset_session_def evolves_def inp_def pending_input_def)
  moreover have "agreed caps (s2\<lparr>link := l\<rparr>) = agreed caps s2" for l by (simp add: agreed_def)
  moreover have "evolves (link s1) (link s2)" "agreed caps s2 = agreed caps s1" "cfg s2 = cfg s1"
    "window_size s2 = window_size s1"
    using o agreed_cong [OF o] only_link_fields [OF o] by (simp_all add: only_link_def)
  ultimately show ?thesis
    using evolves_trans [of "link s" "link s1" "link s2"] by (elim disjE) simp_all
qed

text \<open>The cases of a handshake that came to its end, and the frame of one that did not.\<close>

lemma handle_hello_cases:
  assumes "handle_hello line s = (r, s')"
  obtains (refused) "r \<noteq> Inr True" "evolves (link s) (link s')" "cfg s' = cfg s"
  | (greeted) caps extra s1 s2 reply s3 where "options (drop 2 (split_ws line)) = Inr caps"
      "negotiate caps (hs_sound ''dial'' s) = (Inr extra, s1)"
      "hru_loop HELLO_RETRIES (clk s2 + HANDSHAKE_TIMEOUT) (proposal_words s1 extra) s2
        = (Inr (Some reply), s3)"
      "only_link s1 s2" "finish_hello reply s3 = (r, s')" "evolves (link s) (link s1)"
      "2 \<le> length (split_ws line)" "split_ws line ! 0 \<in> {''HELLO'', ''HELLO?''}"
      "split_ws line ! 1 = PROTOCOL_VERSION"
proof -
  let ?p = "split_ws line" and ?s0 = "hs_sound ''dial'' s"
  have v0: "evolves (link s) (link ?s0)" by (simp add: link_ops evolves_voice_hs)
  show ?thesis
  proof (cases "length ?p < 2 \<or> ?p ! 0 \<notin> {''HELLO'', ''HELLO?''} \<or> ?p ! 1 \<noteq> PROTOCOL_VERSION")
    case True
    then consider (head) "length ?p < 2 \<or> ?p ! 0 \<notin> {''HELLO'', ''HELLO?''}"
      | (version) "\<not> (length ?p < 2 \<or> ?p ! 0 \<notin> {''HELLO'', ''HELLO?''})" "?p ! 1 \<noteq> PROTOCOL_VERSION"
      by blast
    then have "r = Inr False \<and> (s' = fail (error ProtocolError) s \<or> s' = fail (error VersionError) s)"
    proof cases
      case head
      then show ?thesis using assms by (simp only: handle_hello_def Let_def if_P prod.inject) simp
    next
      case version
      then show ?thesis
        using assms by (simp only: handle_hello_def Let_def if_not_P if_P prod.inject) simp
    qed
    then show ?thesis by (intro refused) (auto simp: link_ops)
  next
    case ok: False
    then have g: "greet ?p s = (r, s')"
      using assms by (auto simp: handle_hello_def Let_def split: if_splits)
    show ?thesis
    proof (cases "options (drop 2 ?p)")
      case (Inl x)
      then show ?thesis using g v0 by (intro refused) (auto simp: greet_def Let_def link_ops)
    next
      case caps: (Inr caps)
      obtain x s1 where n: "negotiate caps ?s0 = (x, s1)" by force
      show ?thesis
      proof (cases x)
        case (Inl y)
        have "link s1 = link ?s0" "cfg s1 = cfg s"
          using n Inl by (auto simp: negotiate_def Let_def link_ops split: if_splits)
        then show ?thesis using g v0 caps n Inl
          by (intro refused) (auto simp: greet_def Let_def)
      next
        case (Inr extra)
        note na = negotiate_agreed [OF n [unfolded Inr]]
        let ?tail = "proposal_words s1 extra"
        define s2 where "s2 = hs_sound ''carrier'' (hs_sound ''ring''
          (put (greeting_words ?p ?tail) s1))"
        have o: "only_link s1 s2" by (simp add: s2_def)
        obtain y s3 where h: "hru_loop HELLO_RETRIES (clk s2 + HANDSHAKE_TIMEOUT) ?tail s2 = (y, s3)"
          by force
        have o3: "only_link s1 s3" using hru_loop_only_link [OF h] only_link_trans [OF o] by blast
        have v: "evolves (link s) (link s1)" and c: "cfg s1 = cfg s" using v0 na by (simp_all add: link_ops)
        have v3: "evolves (link s) (link s3)" "cfg s3 = cfg s"
          using v c o3 only_link_fields [OF o3] evolves_trans by (auto simp: only_link_def)
        have e: "(r, s') = (case (y, s3) of (Inl e, s3) \<Rightarrow> (Inl e, s3) | (Inr None, s3) \<Rightarrow> (Inr False, s3)
            | (Inr (Some reply), s3) \<Rightarrow> finish_hello reply s3)"
          using g caps n Inr h by (simp add: greet_def await_hru_def s2_def [symmetric])
        show ?thesis
        proof (cases "\<exists>reply. y = Inr (Some reply)")
          case True
          then obtain reply where y: "y = Inr (Some reply)" by blast
          show ?thesis by (rule greeted [OF caps n [unfolded Inr] h [unfolded y] o _ v]) (use e y ok in auto)
        next
          case False
          then have "r \<noteq> Inr True" "s' = s3"
            using e by (auto split: sum.splits option.splits)
          then show ?thesis using v3 refused by auto
        qed
      qed
    qed
  qed
qed

lemma handle_hello_effect:
  assumes "handle_hello line s = (r, s')"
  shows "evolves (link s) (link s') \<and> cfg s' = cfg s \<and> (r = Inr True \<longrightarrow> inp (link s') < inp (link s))"
  using assms
proof (cases rule: handle_hello_cases)
  case (greeted caps extra s1 s2 reply s3)
  note f = finish_hello_effect [OF greeted(5), of caps] and n = negotiate_agreed [OF greeted(2)]
  have o: "only_link s1 s3" using hru_loop_only_link [OF greeted(3)] greeted(4) only_link_trans by blast
  then have "evolves (link s1) (link s')" using f evolves_trans by (auto simp: only_link_def)
  moreover have "inp (link s') < inp (link s1)"
    using hru_loop_only_link [OF greeted(3)] greeted(4) f
    by (auto simp: only_link_def dest!: evolves_inp)
  moreover have "inp (link s1) \<le> inp (link s)" using greeted(6) by (rule evolves_inp)
  ultimately show ?thesis
    using greeted(6) f n(2) only_link_fields [OF o] evolves_trans by (auto simp: link_ops)
qed auto

lemma handshake_effect:
  assumes "handle_hello line s = (Inr True, s')"
  shows "\<exists>caps. options (drop 2 (split_ws line)) = Inr caps \<and> agreed caps s' \<and> cfg s' = cfg s"
  using assms
proof (cases rule: handle_hello_cases)
  case (greeted caps extra s1 s2 reply s3)
  have o: "only_link s1 s3" using hru_loop_only_link [OF greeted(3)] greeted(4) only_link_trans by blast
  have "agreed caps s'"
    using finish_hello_effect [OF greeted(5)] agreed_cong [OF o] negotiate_agreed(1) [OF greeted(2)]
    by simp
  moreover have "cfg s' = cfg s" using handle_hello_effect [OF assms] by simp
  ultimately show ?thesis using greeted(1) by blast
qed simp

text \<open>C17: a handshake that succeeds leaves both ends within what either announced: the block size is
  at most both limits, the window at most both windows, a full window of blocks with their framing fits
  the peer's receive buffer, and compression is on only if both ends want it; without \<open>FLOW=1\<close> the
  window is one block.\<close>

theorem handshake_agreed:
  assumes "handle_hello line s = (Inr True, s')"
  shows "\<exists>caps. options (drop 2 (split_ws line)) = Inr caps \<and> agreed caps s' \<and> cfg s' = cfg s"
  by (rule handshake_effect [OF assms])

definition line_bytes :: "string list \<Rightarrow> byte list" where
  "line_bytes ls = concat (map (\<lambda>l. encode_ascii l @ [LF_byte]) ls)"

definition demo_server :: "ev list \<Rightarrow> server" where
  "demo_server es =
     (case server_init (fresh_link es) None MAX_FILE_SIZE ACK_TIMEOUT MAX_RETRIES BASE_BAUDRATE
        default_keepalive MAX_WINDOW True PROBE_GUARD PROBE_TIMEOUT PROBE_RETRIES of
        Inr s \<Rightarrow> s | Inl _ \<Rightarrow> undefined)"

definition demo_hello :: string where
  "demo_hello = ''HELLO PCUTP/2 FLOW=1 MAXBLK=1024 WINDOW=2 RXBUF=16384 LZ4=1 IDENTITY=1''"

definition greeted_server :: "(exn + bool) \<times> server" where
  "greeted_server = handle_hello demo_hello
     (demo_server [Bytes 20 (line_bytes [''HRU'', ''IAM 0 TYPE=PYTHON'']), Bytes 5 []])"

lemma greeted_server_run:
  "case greeted_server of (r, s) \<Rightarrow> r = Inr True \<and> flow s \<and> window_size s = 2 \<and> sent (link s) = map Line
     [''HELLO PCUTP/2 HRU? BAUD=115200 MAXBLK=1024 FLOW=1 WINDOW=2 LZ4=1 IDENTITY=1'', ''WHO? 0'']"
  by code_simp

lemma handshake_agreed_witness:
  "\<exists>caps. options (drop 2 (split_ws demo_hello)) = Inr caps \<and> agreed caps (snd greeted_server)
     \<and> window_size (snd greeted_server) = 2"
proof -
  obtain s where s: "greeted_server = (Inr True, s)" "window_size s = 2"
    using greeted_server_run by (auto split: prod.splits)
  show ?thesis
    using handshake_agreed [OF s(1) [unfolded greeted_server_def]] s(2) by (auto simp only: s(1) snd_conv)
qed

end
