(* ===== verification/Sender.thy ===== *)
theory Sender
  imports Server
begin

text \<open>
  The transfer of one file, \<open>_send_window\<close> and \<open>_send_block\<close> of \<open>server.py\<close>, with the recovery
  of a silent or confused receiver.  \<open>window\<close> holds the local variables of \<open>_send_window\<close>; a
  frame is a header line and the raw bytes behind it.  Every wait consumes a line of the
  receiver or runs into a bounded number of attempts, which is why the loops end.
\<close>

subsection \<open>Frames\<close>

definition block_of :: "byte list \<Rightarrow> nat \<Rightarrow> nat \<Rightarrow> byte list" where
  "block_of d bs seq = take bs (drop (seq * bs) d)"

definition data_header :: "nat \<Rightarrow> byte list \<Rightarrow> string" where
  "data_header seq chunk =
     unwords [''DATA'', str_of seq, str_of (length chunk), crc32_hex chunk 0]"

definition zdata_header :: "nat \<Rightarrow> byte list \<Rightarrow> byte list \<Rightarrow> string" where
  "zdata_header seq packed chunk =
     unwords [''ZDATA'', str_of seq, str_of (length packed), str_of (length chunk), crc32_hex chunk 0]"

definition packed_block :: "server \<Rightarrow> byte list \<Rightarrow> nat \<Rightarrow> byte list option" where
  "packed_block s d seq =
     (if use_compression s then worthwhile (block_of d (block_size s) seq) (baud (cfg s)) else None)"

definition make_frame :: "server \<Rightarrow> byte list \<Rightarrow> nat \<Rightarrow> string \<times> byte list" where
  "make_frame s d seq =
     (let chunk = block_of d (block_size s) seq in
      case packed_block s d seq of
        Some packed \<Rightarrow> (zdata_header seq packed chunk, packed)
      | None \<Rightarrow> (data_header seq chunk, chunk))"

definition write_frame :: "string \<times> byte list \<Rightarrow> server \<Rightarrow> server" where
  "write_frame f s =
     (let s1 = on_link (send_line_and_raw (fst f) (snd f)) (s\<lparr>raw_write_active := True\<rparr>)
      in s1\<lparr>raw_write_active := False,
           data_wire_bytes := data_wire_bytes s1 + (length (fst f) + 1 + length (snd f))\<rparr>)"

definition report :: "nat \<Rightarrow> nat \<Rightarrow> server \<Rightarrow> server" where
  "report n sz s = s\<lparr>progress := progress s @ [(n, sz)]\<rparr>"

subsection \<open>Filling the window\<close>

record window =
  base :: nat
  next_seq :: nat
  retransmits :: nat
  recoveries :: nat
  resets :: nat
  cwnd :: nat
  clean_acks :: nat
  attempts :: "nat \<rightharpoonup> nat"
  frames :: "nat \<rightharpoonup> string \<times> byte list"

definition window_init :: window where
  "window_init = \<lparr>base = 0, next_seq = 0, retransmits = 0, recoveries = 0, resets = 0, cwnd = 1,
     clean_acks = 0, attempts = Map.empty, frames = Map.empty\<rparr>"

definition tries :: "window \<Rightarrow> nat" where
  "tries w = (case attempts w (next_seq w) of None \<Rightarrow> 0 | Some n \<Rightarrow> n)"

text \<open>The body of the filling loop after its retry test.\<close>

definition transmit :: "byte list \<Rightarrow> window \<times> server \<Rightarrow> window \<times> server" where
  "transmit d = (\<lambda>(w, s).
     let i = next_seq w;
         f = (case frames w i of Some f \<Rightarrow> f | None \<Rightarrow> make_frame s d i);
         s1 = (if frames w i = None \<and> packed_block s d i \<noteq> None
               then s\<lparr>compressed_blocks := compressed_blocks s + 1\<rparr> else s)
     in (w\<lparr>attempts := (attempts w)(i \<mapsto> tries w + 1),
           retransmits := retransmits w + (if tries w > 0 then 1 else 0),
           frames := (frames w)(i \<mapsto> f), next_seq := i + 1\<rparr>,
         write_frame f s1))"

lemmas transmit_code [code] = transmit_def [THEN fun_cong, of _ "(w, s)", unfolded prod.case] for w s

lemma transmit_next [simp]: "next_seq (fst (transmit d (w, s))) = next_seq w + 1"
  "base (fst (transmit d (w, s))) = base w" "cwnd (fst (transmit d (w, s))) = cwnd w"
  by (simp_all add: transmit_def Let_def)

function fill :: "byte list \<Rightarrow> nat \<Rightarrow> window \<times> server \<Rightarrow> (exn + window) \<times> server" where
  "fill d blocks (w, s) =
     (if next_seq w < min blocks (base w + cwnd w) then
        if tries w > max_retries (cfg s) then (Inl (error RetryError), s)
        else fill d blocks (transmit d (w, s))
      else (Inr w, s))"
  by pat_completeness auto

termination fill
  by (relation "measure (\<lambda>(d, blocks, w, s). blocks - next_seq w)")
    (auto simp: transmit_def Let_def)

declare fill.simps [simp del]

subsection \<open>Asking a silent receiver\<close>

definition bump :: "server \<Rightarrow> server" where
  "bump s = s\<lparr>barrier_id := barrier_id s + 1\<rparr>"

definition token :: "server \<Rightarrow> string" where
  "token s = str_of (barrier_id s)"

text \<open>The inner loop that \<open>_probe_receiver\<close> has twice and \<open>_recover_window\<close> once: lines are read up to
  a deadline until \<open>judge\<close> finds one that settles the matter, with a value or an exception;
  \<open>None\<close>: the time is over.\<close>

function wait_for ::
  "(server \<Rightarrow> string list \<Rightarrow> (exn + 'a) option) \<Rightarrow> msec \<Rightarrow> server \<Rightarrow> (exn + 'a option) \<times> server" where
  "wait_for judge deadline s =
     (if \<not> clk s < deadline then (Inr None, s)
      else case srv_recv (deadline - clk s) None False s of
        (Inl e, s1) \<Rightarrow> if is_class TimeoutErr e then (Inr None, s1) else (Inl e, s1)
      | (Inr line, s1) \<Rightarrow>
          (case judge s1 (split_ws line) of
             None \<Rightarrow> wait_for judge deadline s1
           | Some (Inl e) \<Rightarrow> (Inl e, s1)
           | Some (Inr v) \<Rightarrow> (Inr (Some v), s1)))"
  by pat_completeness auto

termination wait_for
  by (relation "measure (\<lambda>(j, d, s). inp (link s))") (auto dest: srv_recv_drop)

declare wait_for.simps [simp del]

definition probe_judge :: "string \<Rightarrow> server \<Rightarrow> string list \<Rightarrow> (exn + string) option" where
  "probe_judge probe s p =
     (if length p = 3 \<and> take 2 p = [''HERE'', probe] \<and> isdecimal (p ! 2)
      then Some (Inr (unwords [''DROP'', str_of (int_of (p ! 2)), str_of (int_of (p ! 2))]))
      else if p \<noteq> [] \<and> p ! 0 \<in> {''ACK'', ''NAK'', ''DROP'', ''RST'', ''ERR''}
      then Some (Inr (unwords p))
      else None)"

definition ask :: "server \<Rightarrow> (exn + string option) \<times> server" where
  "ask s = wait_for (probe_judge (token s)) (clk s + probe_timeout (cfg s)) s"

fun probe_loop :: "nat \<Rightarrow> server \<Rightarrow> (exn + string option) \<times> server" where
  "probe_loop 0 s = (Inr None, s)"
| "probe_loop (Suc n) s =
     (case ask (put [''AYT?'', token (bump s)] (bump s)) of
        (Inr None, s1) \<Rightarrow> probe_loop n s1
      | res \<Rightarrow> res)"

definition rst_judge :: "string \<Rightarrow> server \<Rightarrow> string list \<Rightarrow> (exn + unit) option" where
  "rst_judge tok s p =
     (if p = [''RST-ACK'', tok, ''0''] then Some (Inr ())
      else if p \<noteq> [] \<and> p ! 0 \<in> {''ACK'', ''NAK'', ''DROP'', ''HERE'', ''RESUME''} then None
      else Some (Inl (error ProtocolError)))"

definition await_rst :: "string \<Rightarrow> server \<Rightarrow> (exn + unit option) \<times> server" where
  "await_rst tok s = wait_for (rst_judge tok) (clk s + probe_timeout (cfg s)) s"

fun rst_loop :: "nat \<Rightarrow> string \<Rightarrow> server \<Rightarrow> (exn + string) \<times> server" where
  "rst_loop 0 tok s = (Inl (error LinkLostError), s)"
| "rst_loop (Suc n) tok s =
     (case await_rst tok (put [''RST'', ''0'', tok] s) of
        (Inl e, s1) \<Rightarrow> (Inl e, s1)
      | (Inr (Some _), s1) \<Rightarrow> (Inr (unwords [''RST'', ''0'']), s1\<lparr>reset_token := Some tok\<rparr>)
      | (Inr None, s1) \<Rightarrow> rst_loop n tok s1)"

fun after_probes :: "(exn + string option) \<times> server \<Rightarrow> (exn + string) \<times> server" where
  "after_probes (Inl e, s) = (Inl e, s)"
| "after_probes (Inr (Some reply), s) = (Inr reply, s)"
| "after_probes (Inr None, s) = rst_loop RST_RETRIES (token (bump s)) (bump s)"

fun after_guard :: "(exn + string) \<times> server \<Rightarrow> (exn + string) \<times> server" where
  "after_guard (Inr late, s) =
     (if late \<noteq> '''' then (Inr late, s) else after_probes (probe_loop (probe_retries (cfg s)) s))"
| "after_guard (Inl e, s) =
     (if is_class TimeoutErr e then after_probes (probe_loop (probe_retries (cfg s)) s)
      else (Inl e, s))"

text \<open>\<open>_probe_receiver\<close>\<close>

definition probe_receiver :: "server \<Rightarrow> (exn + string) \<times> server" where
  "probe_receiver s = after_guard (srv_recv (probe_guard (cfg s)) None False s)"

subsection \<open>The recovery barrier\<close>

definition old_resume :: "server \<Rightarrow> string list \<Rightarrow> bool" where
  "old_resume s p \<longleftrightarrow>
     length p = 3 \<and> p ! 0 = ''RESUME'' \<and> isdecimal (p ! 1) \<and> 0 < int_of (p ! 1)
     \<and> int_of (p ! 1) \<le> barrier_id s \<and> isdecimal (p ! 2)"

definition resume_judge ::
  "string \<Rightarrow> nat \<Rightarrow> nat \<Rightarrow> server \<Rightarrow> string list \<Rightarrow> (exn + nat) option" where
  "resume_judge tok lo hi s p =
     (if length p = 3 \<and> take 2 p = [''RESUME'', tok] then
        if \<not> isdecimal (p ! 2) \<or> \<not> (lo \<le> int_of (p ! 2) \<and> int_of (p ! 2) \<le> hi)
        then Some (Inl (error ProtocolError))
        else Some (Inr (int_of (p ! 2)))
      else if (case reset_token s of None \<Rightarrow> False | Some t \<Rightarrow> p = [''RST-ACK'', t, ''0'']) then None
      else if p \<noteq> [] \<and> p ! 0 \<in> {''ACK'', ''NAK'', ''DROP'', ''RESUME'', ''HERE''} then None
      else Some (Inl (error ProtocolError)))"

definition await_resume :: "string \<Rightarrow> nat \<Rightarrow> nat \<Rightarrow> server \<Rightarrow> (exn + nat option) \<times> server" where
  "await_resume tok lo hi s = wait_for (resume_judge tok lo hi) (clk s + ack_timeout (cfg s)) s"

fun recover_loop :: "nat \<Rightarrow> string \<Rightarrow> nat \<Rightarrow> nat \<Rightarrow> server \<Rightarrow> (exn + nat) \<times> server" where
  "recover_loop 0 tok lo hi s = (Inl (error TimeoutErr), s)"
| "recover_loop (Suc n) tok lo hi s =
     (case await_resume tok lo hi (put [''BARRIER'', tok] s) of
        (Inl e, s1) \<Rightarrow> (Inl e, s1)
      | (Inr (Some k), s1) \<Rightarrow> (Inr k, s1)
      | (Inr None, s1) \<Rightarrow> recover_loop n tok lo hi s1)"

text \<open>\<open>_recover_window\<close>\<close>

definition recover_window :: "nat \<Rightarrow> nat \<Rightarrow> server \<Rightarrow> (exn + nat) \<times> server" where
  "recover_window lo hi s = recover_loop (max_retries (cfg s) + 1) (token (bump s)) lo hi (bump s)"

subsection \<open>What these steps leave alone, and what they consume\<close>

abbreviation reads :: "('r \<Rightarrow> bool) \<Rightarrow> server \<Rightarrow> 'r \<Rightarrow> server \<Rightarrow> bool" where
  "reads \<equiv> reads_by keeps (\<lambda>s. inp (link s))"

lemmas reads_keeps = reads_moves [where moves = keeps]
lemmas reads_def = reads_by_def [where moves = keeps]
lemmas reads_none = srv.reads_none
lemmas reads_after = srv.reads_after
lemmas reads_then = srv.reads_then
lemmas reads_same = srv.reads_same

lemma keeps_bump [simp]: "keeps a b \<Longrightarrow> keeps a (bump b)"
  by (simp add: keeps_def frame_def bump_def)

lemma keeps_report [simp]: "keeps a b \<Longrightarrow> keeps a (report n sz b)"
  by (simp add: keeps_def frame_def report_def)

lemma keeps_token [simp]: "keeps a b \<Longrightarrow> keeps a (b\<lparr>reset_token := t\<rparr>)"
  by (simp add: keeps_def frame_def)

lemma evolves_write: "evolves a b \<Longrightarrow> evolves a (send_line_and_raw h d b)"
  by (auto simp: send_line_and_raw_def t_write_def voice_def evolves_def inp_def pending_input_def
      split: list.split)

lemma keeps_write_frame [simp]: "keeps a b \<Longrightarrow> keeps a (write_frame f b)"
  by (simp add: keeps_def frame_def write_frame_def on_link_def Let_def evolves_write)

lemma transmit_keeps: "keeps s (snd (transmit d (w, s)))"
  by (auto simp: transmit_def Let_def keeps_def frame_def write_frame_def on_link_def evolves_write)

lemma fill_keeps: "fill d blocks (w, s) = (r, s') \<Longrightarrow> keeps s s'"
proof (induction d blocks "(w, s)" arbitrary: w s rule: fill.induct)
  case (1 d blocks w s)
  obtain w1 s1 where t: "transmit d (w, s) = (w1, s1)" by force
  then have "keeps s s1" using transmit_keeps [of s d w] by simp
  then show ?case
    using 1 t keeps_trans by (auto simp: fill.simps [of d blocks w s] split: if_splits)
qed

lemma wait_for_reads: "wait_for judge deadline s = (r, s') \<Longrightarrow> reads settled s r s'"
proof (induction judge deadline s rule: wait_for.induct)
  case (1 judge deadline s)
  obtain x s1 where x: "srv_recv (deadline - clk s) None False s = (x, s1)" by force
  note rx = srv_recv_reads [OF x]
  show ?case
  proof (cases "clk s < deadline")
    case go: True
    show ?thesis
    proof (cases x)
      case (Inl e)
      then have "s' = s1" "\<not> settled r"
        using "1.prems" go x by (auto simp: wait_for.simps [of judge deadline s] split: if_splits)
      then show ?thesis using rx by (auto simp: reads_def)
    next
      case (Inr line)
      show ?thesis
      proof (cases "judge s1 (split_ws line)")
        case None
        then have "reads settled s1 r s'" using 1 go x Inr
          by (simp add: wait_for.simps [of judge deadline s])
        then show ?thesis by (rule reads_after [OF reads_keeps [OF rx]])
      next
        case (Some v)
        then have "s' = s1"
          using "1.prems" go x Inr by (cases v) (auto simp: wait_for.simps [of judge deadline s])
        then show ?thesis using reads_same [OF rx, of settled r] Inr by simp
      qed
    qed
  next
    case False
    then show ?thesis using "1.prems" by (auto simp: wait_for.simps [of judge deadline s] reads_def)
  qed
qed

lemmas waits =
  wait_for_reads [of "probe_judge (token s)" "clk s + probe_timeout (cfg s)" s for s, folded ask_def]
  wait_for_reads [of "rst_judge tok" "clk s + probe_timeout (cfg s)" s for tok s, folded await_rst_def]
  wait_for_reads [of "resume_judge tok lo hi" "clk s + ack_timeout (cfg s)" s for tok lo hi s,
    folded await_resume_def]

lemma probe_loop_reads: "probe_loop n s = (r, s') \<Longrightarrow> reads settled s r s'"
proof (induction n arbitrary: s)
  case 0
  then show ?case by (auto intro: reads_none)
next
  case (Suc n)
  let ?s = "put [''AYT?'', token (bump s)] (bump s)"
  obtain x s1 where x: "ask ?s = (x, s1)" by force
  have rx: "reads settled s x s1" by (rule reads_after [OF _ waits(1) [OF x]]) simp
  show ?case
  proof (cases "x = Inr None")
    case True
    then have "reads settled s1 r s'" using Suc x by simp
    then show ?thesis by (rule reads_after [OF reads_keeps [OF rx]])
  next
    case False
    then have "r = x" "s' = s1" using Suc.prems x by (auto split: sum.splits option.splits)
    then show ?thesis using rx by simp
  qed
qed

lemma rst_loop_reads: "rst_loop n tok s = (r, s') \<Longrightarrow> reads got s r s'"
proof (induction n arbitrary: s)
  case 0
  then show ?case by (auto intro: reads_none)
next
  case (Suc n)
  let ?s = "put [''RST'', ''0'', tok] s"
  obtain x s1 where x: "await_rst tok ?s = (x, s1)" by force
  have rx: "reads settled s x s1" by (rule reads_after [OF _ waits(2) [OF x]]) simp
  show ?case
  proof (cases x rule: outcome_cases)
    case (error y)
    then have "r = Inl y" "s' = s1" using Suc.prems x by simp_all
    then show ?thesis using rx by (auto intro: reads_none reads_keeps)
  next
    case over
    then have "reads got s1 r s'" using Suc x by simp
    then show ?thesis by (rule reads_after [OF reads_keeps [OF rx]])
  next
    case (fine y)
    then have "s' = s1\<lparr>reset_token := Some tok\<rparr>" using Suc.prems x by simp
    then show ?thesis by (intro reads_then [OF rx]) (simp_all add: fine)
  qed
qed

lemma after_probes_reads:
  assumes "after_probes (probe_loop n s) = (r, s')"
  shows "reads got s r s'"
proof -
  obtain x s1 where x: "probe_loop n s = (x, s1)" by force
  note rx = probe_loop_reads [OF x]
  show ?thesis
  proof (cases x rule: outcome_cases)
    case over
    then have "reads got (bump s1) r s'" using assms x by (simp add: rst_loop_reads)
    then show ?thesis by (rule reads_after [rotated]) (simp add: reads_keeps [OF rx])
  next
    case (error y)
    then show ?thesis using assms x rx by (auto intro: reads_none reads_keeps)
  next
    case (fine y)
    then show ?thesis using assms x reads_same [OF rx, of got r] by simp
  qed
qed

lemma probe_receiver_reads:
  assumes "probe_receiver s = (r, s')"
  shows "reads got s r s'"
proof -
  obtain x s1 where x: "srv_recv (probe_guard (cfg s)) None False s = (x, s1)" by force
  note rx = srv_recv_reads [OF x]
  have "r = x \<and> s' = s1 \<or> after_probes (probe_loop (probe_retries (cfg s1)) s1) = (r, s')"
    using assms x by (cases x) (auto simp: probe_receiver_def split: if_splits)
  then show ?thesis
    using rx after_probes_reads [of _ s1 r s'] reads_after [OF reads_keeps [OF rx]] by metis
qed

lemma recover_loop_reads: "recover_loop n tok lo hi s = (r, s') \<Longrightarrow> reads got s r s'"
proof (induction n arbitrary: s)
  case 0
  then show ?case by (auto intro: reads_none)
next
  case (Suc n)
  let ?s = "put [''BARRIER'', tok] s"
  obtain x s1 where x: "await_resume tok lo hi ?s = (x, s1)" by force
  have rx: "reads settled s x s1" by (rule reads_after [OF _ waits(3) [OF x]]) simp
  show ?case
  proof (cases x rule: outcome_cases)
    case over
    then have "reads got s1 r s'" using Suc x by simp
    then show ?thesis by (rule reads_after [OF reads_keeps [OF rx]])
  next
    case (error y)
    then show ?thesis using Suc.prems x rx by (auto intro: reads_none reads_keeps)
  next
    case (fine y)
    then show ?thesis using Suc.prems x reads_same [OF rx, of got r] by simp
  qed
qed

lemma recover_window_reads: "recover_window lo hi s = (r, s') \<Longrightarrow> reads got s r s'"
  unfolding recover_window_def by (rule reads_after [OF _ recover_loop_reads [of _ _ _ _ "bump s"]]) simp

end
