(* ===== verification/Window.thy ===== *)
theory Window
  imports Sender
begin

text \<open>
  The reply loop of \<open>_send_window\<close> and the window protocol as a whole: cumulative acknowledgements,
  full resets, recovery after a \<open>NAK\<close>, \<open>DROP\<close> or garbled line, probing after a time-out.
\<close>

definition is_ack :: "string list \<Rightarrow> bool" where
  "is_ack p \<longleftrightarrow> length p = 2 \<and> p ! 0 = ''ACK'' \<and> isdecimal (p ! 1)"

text \<open>\<open>attempts\<close> and \<open>frames\<close> restricted to the blocks from \<open>n\<close> on.\<close>

definition from_block :: "nat \<Rightarrow> (nat \<rightharpoonup> 'a) \<Rightarrow> nat \<rightharpoonup> 'a" where
  "from_block n m = (\<lambda>i. if i \<ge> n then m i else None)"

definition prune :: "window \<Rightarrow> window" where
  "prune w = w\<lparr>attempts := from_block (base w) (attempts w), frames := from_block (base w) (frames w)\<rparr>"

definition report_base :: "byte list \<Rightarrow> window \<Rightarrow> server \<Rightarrow> server" where
  "report_base d w s = report (min (base w * block_size s) (length d)) (length d) s"

type_synonym reply_result = "(window \<times> server, (exn + window) \<times> server) pass"

definition commit :: "nat \<Rightarrow> nat \<Rightarrow> window \<Rightarrow> window" where
  "commit ack full w =
     (let w1 = w\<lparr>base := ack + 1, clean_acks := clean_acks w + 1\<rparr>;
          w2 = (if clean_acks w1 \<ge> FLOW_GROW_ACKS then w1\<lparr>cwnd := full\<rparr> else w1)
      in (prune w2)\<lparr>recoveries := 0\<rparr>)"

definition on_ack :: "msec \<Rightarrow> byte list \<Rightarrow> nat \<Rightarrow> window \<times> server \<Rightarrow> reply_result" where
  "on_ack deadline d ack = (\<lambda>(w, s).
     if ack \<ge> next_seq w then Leave (Inl (error ProtocolError), s)
     else if ack < base w
     then if clk s \<ge> deadline then Leave (Inl (error TimeoutErr), s) else Again (w, s)
     else Leave (Inr (commit ack (window_size s) w),
                 report_base d (commit ack (window_size s) w) s))"

lemmas on_ack_code [code] = on_ack_def [THEN fun_cong, of _ _ _ "(w, s)", unfolded prod.case] for w s

fun finish_rst :: "byte list \<Rightarrow> window \<Rightarrow> (exn + nat) \<times> server \<Rightarrow> reply_result" where
  "finish_rst d w (Inl e, s) = Leave (Inl e, s)"
| "finish_rst d w (Inr n, s) =
     (if n \<noteq> 0 then Leave (Inl (error ProtocolError), s)
      else Leave (Inr (w\<lparr>base := 0, next_seq := 0, cwnd := 1, clean_acks := 0,
                        attempts := Map.empty, recoveries := 0\<rparr>), report 0 (length d) s))"

definition on_rst :: "byte list \<Rightarrow> window \<times> server \<Rightarrow> reply_result" where
  "on_rst d = (\<lambda>(w, s).
     if resets w + 1 > MAX_RESETS then Leave (Inl (error RetryError), s)
     else finish_rst d (w\<lparr>resets := resets w + 1\<rparr>) (recover_window 0 (next_seq w) s))"

lemmas on_rst_code [code] = on_rst_def [THEN fun_cong, of _ "(w, s)", unfolded prod.case] for w s

fun finish_nak :: "byte list \<Rightarrow> window \<Rightarrow> (exn + nat) \<times> server \<Rightarrow> reply_result" where
  "finish_nak d w (Inl e, s) = Leave (Inl e, s)"
| "finish_nak d w (Inr n, s) =
     (let w1 = w\<lparr>base := n, recoveries := if n > base w then 0 else recoveries w + 1\<rparr> in
      if recoveries w1 > max_retries (cfg s) then Leave (Inl (error RetryError), s)
      else Leave (Inr ((prune w1)\<lparr>next_seq := n\<rparr>), report_base d w1 s))"

definition on_nak :: "byte list \<Rightarrow> window \<times> server \<Rightarrow> reply_result" where
  "on_nak d = (\<lambda>(w, s).
     finish_nak d (w\<lparr>cwnd := 1, clean_acks := 0\<rparr>) (recover_window (base w) (next_seq w) s))"

lemmas on_nak_code [code] = on_nak_def [THEN fun_cong, of _ "(w, s)", unfolded prod.case] for w s

text \<open>What a reply that is not a \<open>HERE\<close> does.\<close>

definition handle_reply ::
  "msec \<Rightarrow> byte list \<Rightarrow> string list \<Rightarrow> window \<times> server \<Rightarrow> reply_result" where
  "handle_reply deadline d p = (\<lambda>(w, s).
     if is_ack p then on_ack deadline d (int_of (p ! 1)) (w, s)
     else if length p = 2 \<and> p ! 0 = ''RST'' \<and> p ! 1 = ''0'' then on_rst d (w, s)
     else if p = [] \<or> p ! 0 \<in> {''NAK'', ''DROP''} then on_nak d (w, s)
     else if old_resume s p \<and> clk s < deadline then Again (w, s)
     else Leave (Inl (error ProtocolError), s))"

lemmas handle_reply_code [code] = handle_reply_def [THEN fun_cong, of _ _ _ "(w, s)", unfolded prod.case] for w s

fun probed :: "msec \<Rightarrow> byte list \<Rightarrow> window \<Rightarrow> (exn + string) \<times> server \<Rightarrow> reply_result" where
  "probed deadline d w (Inl e, s) = Leave (Inl e, s)"
| "probed deadline d w (Inr reply, s) = handle_reply deadline d (split_ws reply) (w, s)"

definition sift ::
  "msec \<Rightarrow> byte list \<Rightarrow> string list \<Rightarrow> window \<times> server \<Rightarrow> reply_result" where
  "sift deadline d p = (\<lambda>(w, s).
     if take 1 p = [''HERE'']
     then if clk s \<ge> deadline then probed deadline d w (probe_receiver s) else Again (w, s)
     else handle_reply deadline d p (w, s))"

lemmas sift_code [code] = sift_def [THEN fun_cong, of _ _ _ "(w, s)", unfolded prod.case] for w s

fun late_reply :: "msec \<Rightarrow> byte list \<Rightarrow> window \<Rightarrow> (exn + string) \<times> server \<Rightarrow> reply_result" where
  "late_reply deadline d w (Inl e, s) = Leave (Inl e, s)"
| "late_reply deadline d w (Inr reply, s) = sift deadline d (split_ws reply) (w, s)"

fun on_line :: "msec \<Rightarrow> byte list \<Rightarrow> window \<Rightarrow> (exn + string) \<times> server \<Rightarrow> reply_result" where
  "on_line deadline d w (Inr reply, s) = sift deadline d (split_ws reply) (w, s)"
| "on_line deadline d w (Inl e, s) =
     (if is_class TimeoutErr e
      then late_reply deadline d (w\<lparr>cwnd := 1, clean_acks := 0\<rparr>) (probe_receiver s)
      else Leave (Inl e, s))"

definition reply_pass :: "msec \<Rightarrow> byte list \<Rightarrow> window \<times> server \<Rightarrow> reply_result" where
  "reply_pass deadline d = (\<lambda>(w, s).
     on_line deadline d w (srv_recv (max 0 (deadline - clk s)) None False s))"

lemmas reply_pass_code [code] = reply_pass_def [THEN fun_cong, of _ _ "(w, s)", unfolded prod.case] for w s

subsection \<open>Every pass reads a line\<close>

fun pass_state :: "reply_result \<Rightarrow> server" where
  "pass_state (Leave (_, s)) = s"
| "pass_state (Again (_, s)) = s"

fun pass_goes_on :: "reply_result \<Rightarrow> bool" where
  "pass_goes_on (Leave (r, _)) = got r"
| "pass_goes_on (Again _) = True"

definition follows :: "server \<Rightarrow> reply_result \<Rightarrow> bool" where
  "follows s x \<longleftrightarrow> keeps s (pass_state x)"

lemma follows_simps [simp]:
  "follows s (Leave (r, s')) = keeps s s'" "follows s (Again (w, s')) = keeps s s'"
  by (simp_all add: follows_def)

lemma follows_trans: "keeps a b \<Longrightarrow> follows b x \<Longrightarrow> follows a x"
  by (auto simp: follows_def intro: keeps_trans)

lemma handle_reply_follows: "follows s (handle_reply deadline d p (w, s))"
proof -
  have ack: "follows s (on_ack deadline d n (w, s))" for n
    by (simp add: on_ack_def report_base_def)
  have "follows s (finish_rst d v (recover_window 0 n s))" for v n
    using recover_window_reads [of 0 n s, THEN reads_keeps]
    by (cases "(d, v, recover_window 0 n s)" rule: finish_rst.cases) auto
  then have rst: "follows s (on_rst d (w, s))" by (simp add: on_rst_def)
  have "follows s (finish_nak d v (recover_window m n s))" for v m n
    using recover_window_reads [of m n s, THEN reads_keeps]
    by (cases "(d, v, recover_window m n s)" rule: finish_nak.cases)
      (auto simp: Let_def report_base_def)
  then have nak: "follows s (on_nak d (w, s))" by (simp add: on_nak_def)
  show ?thesis using ack rst nak by (simp add: handle_reply_def)
qed

lemma probed_follows:
  "follows s (probed deadline d w (probe_receiver s))"
proof (cases "probe_receiver s")
  case (Pair x s1)
  then show ?thesis
    using probe_receiver_reads [OF Pair, THEN reads_keeps] handle_reply_follows follows_trans
    by (cases x) auto
qed

lemma sift_follows: "follows s (sift deadline d p (w, s))"
  using handle_reply_follows probed_follows by (simp add: sift_def)

lemma reply_pass_follows:
  assumes "reply_pass deadline d (w, s) = x"
  shows "follows s x \<and> (pass_goes_on x \<longrightarrow> inp (link (pass_state x)) < inp (link s))"
proof -
  obtain r s1 where r: "srv_recv (max 0 (deadline - clk s)) None False s = (r, s1)" by force
  note rr = srv_recv_reads [OF r]
  have via: "follows s y \<and> inp (link (pass_state y)) < inp (link s)"
    if "reads got s q s2" "got q" "follows s2 y" for q :: "exn + string" and s2 y
    using that reads_then [OF that(1,2), of "pass_state y" "\<lambda>_. True" "()"]
    by (auto simp: follows_def reads_def)
  show ?thesis
  proof (cases r)
    case (Inr line)
    then have "x = sift deadline d (split_ws line) (w, s1)" using assms r by (simp add: reply_pass_def)
    then show ?thesis using via [OF rr] sift_follows Inr by auto
  next
    case (Inl e)
    show ?thesis
    proof (cases "is_class TimeoutErr e")
      case True
      obtain q s2 where q: "probe_receiver s1 = (q, s2)" by force
      note rq = reads_after [OF reads_keeps [OF rr] probe_receiver_reads [OF q]]
      let ?w = "w\<lparr>cwnd := 1, clean_acks := 0\<rparr>"
      have x: "x = late_reply deadline d ?w (q, s2)"
        using assms r Inl True q by (simp add: reply_pass_def)
      show ?thesis
      proof (cases q)
        case (Inl y)
        then show ?thesis using x rq by (simp add: reads_def)
      next
        case (Inr line)
        then show ?thesis using x via [OF rq] sift_follows by auto
      qed
    next
      case False
      then show ?thesis using assms r Inl rr by (auto simp: reply_pass_def reads_def)
    qed
  qed
qed

function reply_loop :: "msec \<Rightarrow> byte list \<Rightarrow> window \<Rightarrow> server \<Rightarrow> (exn + window) \<times> server" where
  "reply_loop deadline d w s =
     (case reply_pass deadline d (w, s) of
        Leave res \<Rightarrow> res
      | Again (w1, s1) \<Rightarrow> reply_loop deadline d w1 s1)"
  by pat_completeness auto

termination reply_loop
  by (relation "measure (\<lambda>(t, d, w, s). inp (link s))") (auto dest!: reply_pass_follows)

declare reply_loop.simps [simp del]

lemma reply_loop_reads: "reply_loop deadline d w s = (r, s') \<Longrightarrow> reads got s r s'"
proof (induction deadline d w s rule: reply_loop.induct)
  case (1 deadline d w s)
  show ?case
  proof (cases "reply_pass deadline d (w, s)")
    case (Leave x)
    then show ?thesis using 1(2) reply_pass_follows [OF Leave]
      by (cases x) (simp add: reply_loop.simps [of deadline d w s] reads_def)
  next
    case (Again x)
    obtain w1 s1 where x: "x = (w1, s1)" by force
    then have "reads got s1 r s'"
      using 1 Again by (simp add: reply_loop.simps [of deadline d w s])
    moreover have "keeps s s1" using reply_pass_follows [OF Again] x by simp
    ultimately show ?thesis by (rule reads_after [rotated])
  qed
qed

function window_loop :: "byte list \<Rightarrow> nat \<Rightarrow> window \<Rightarrow> server \<Rightarrow> (exn + nat) \<times> server" where
  "window_loop d blocks w s =
     (if base w < blocks then
        case fill d blocks (w, s) of
          (Inl e, s1) \<Rightarrow> (Inl e, s1)
        | (Inr w1, s1) \<Rightarrow>
            (case reply_loop (clk s1 + ack_timeout (cfg s1)) d w1 s1 of
               (Inl e, s2) \<Rightarrow> (Inl e, s2)
             | (Inr w2, s2) \<Rightarrow> window_loop d blocks w2 s2)
      else (Inr (retransmits w), s))"
  by pat_completeness auto

lemma round_reads:
  assumes "fill d blocks (w, s) = (Inr w1, s1)" "reply_loop t d w1 s1 = (Inr w2, s2)"
  shows "keeps s s2" and "inp (link s2) < inp (link s)"
proof -
  have "reads got s (Inr w2 :: exn + window) s2"
    by (rule reads_after [OF fill_keeps [OF assms(1)] reply_loop_reads [OF assms(2)]])
  then show "keeps s s2" "inp (link s2) < inp (link s)" by (simp_all add: reads_def)
qed

termination window_loop
  by (relation "measure (\<lambda>(d, blocks, w, s). inp (link s))") (auto intro!: round_reads [OF sym sym])

declare window_loop.simps [simp del]

definition send_window :: "byte list \<Rightarrow> nat \<Rightarrow> server \<Rightarrow> (exn + nat) \<times> server" where
  "send_window d blocks s = window_loop d blocks window_init s"

end
