(* ===== verification/SendFile.thy ===== *)
theory SendFile
  imports Window
begin

text \<open>
  One file from the server's side: the stop-and-wait transfer of a block for receivers without flow
  control (\<open>_send_block\<close>), the choice of block size and compression, \<open>META\<close>, the blocks, \<open>DONE\<close> and
  the wait for the verdict (\<open>send_file\<close>).
\<close>

subsection \<open>Stop and wait\<close>

text \<open>\<open>_send_block\<close> with \<open>n\<close> attempts left; it returns the number of retransmissions.\<close>

fun block_loop :: "nat \<Rightarrow> nat \<Rightarrow> nat \<Rightarrow> nat \<Rightarrow> byte list \<Rightarrow> server \<Rightarrow> (exn + nat) \<times> server" where
  "block_loop 0 attempt timeouts seq chunk s = (Inl (error RetryError), fail (error RetryError) s)"
| "block_loop (Suc n) attempt timeouts seq chunk s =
     (case srv_recv (ack_timeout (cfg s)) None False (write_frame (data_header seq chunk, chunk) s) of
        (Inl e, s1) \<Rightarrow>
          if \<not> is_class TimeoutErr e then (Inl e, s1)
          else if timeouts + 1 \<ge> MAX_TIMEOUTS then (Inl (error TimeoutErr), fail (error TimeoutErr) s1)
          else block_loop n (attempt + 1) (timeouts + 1) seq chunk s1
      | (Inr reply, s1) \<Rightarrow>
          let p = split_ws reply in
          if take 2 p = [''ACK'', str_of seq] then (Inr attempt, s1)
          else if p \<noteq> [] \<and> p ! 0 = ''NAK'' then block_loop n (attempt + 1) timeouts seq chunk s1
          else (Inl (error ProtocolError), s1))"

definition send_block :: "nat \<Rightarrow> byte list \<Rightarrow> server \<Rightarrow> (exn + nat) \<times> server" where
  "send_block seq chunk s = block_loop (max_retries (cfg s) + 1) 0 0 seq chunk s"

text \<open>The blocks from \<open>seq\<close> on, \<open>n\<close> of them.\<close>

fun send_blocks :: "byte list \<Rightarrow> nat \<Rightarrow> nat \<Rightarrow> nat \<Rightarrow> server \<Rightarrow> (exn + nat) \<times> server" where
  "send_blocks d 0 seq retrans s = (Inr retrans, s)"
| "send_blocks d (Suc n) seq retrans s =
     (case send_block seq (block_of d (block_size s) seq) s of
        (Inl e, s1) \<Rightarrow> (Inl e, s1)
      | (Inr k, s1) \<Rightarrow>
          send_blocks d n (seq + 1) (retrans + k)
            (report (min ((seq + 1) * block_size s1) (length d)) (length d) s1))"

subsection \<open>Block size and compression of a file\<close>

definition probes :: "nat \<Rightarrow> nat \<Rightarrow> nat list" where
  "probes sz width = [0, sz div 2 - width div 2, sz - width]"

definition slice :: "byte list \<Rightarrow> nat \<Rightarrow> nat \<Rightarrow> byte list" where
  "slice d width start = take width (drop start d)"

definition compressible :: "byte list \<Rightarrow> server \<Rightarrow> bool" where
  "compressible d s =
     (let sample = min 1024 (negotiated_block_limit s)
      in list_ex (\<lambda>a. snd (compress (slice d sample a)) \<noteq> 0) (probes (length d) sample))"

definition pays_off :: "byte list \<Rightarrow> server \<Rightarrow> bool" where
  "pays_off d s =
     (let limit = negotiated_block_limit s
      in list_ex (\<lambda>a. worthwhile (slice d limit a) (baud (cfg s)) \<notin> {None, Some []}) (probes (length d) limit))"

definition file_block :: "byte list \<Rightarrow> server \<Rightarrow> nat" where
  "file_block d s =
     (if auto_block (cfg s)
      then if use_compression s \<and> pays_off d s then negotiated_block_limit s
        else choose_block (length d) (negotiated_block_limit s) (window_size s) (baud (cfg s))
      else block_size s)"

definition prepare :: "byte list \<Rightarrow> server \<Rightarrow> server" where
  "prepare d s =
     (let s1 = s\<lparr>compressed_blocks := 0, data_wire_bytes := 0,
                 use_compression := lz4 s \<and> compressible d s\<rparr>
      in s1\<lparr>block_size := file_block d s1\<rparr>)"

definition block_count :: "nat \<Rightarrow> nat \<Rightarrow> nat" where
  "block_count sz bs = max 1 (ceil_div sz bs)"

definition meta_words :: "string \<Rightarrow> byte list \<Rightarrow> nat \<Rightarrow> string list" where
  "meta_words name d bs =
     [''META'', name, str_of (length d), str_of bs, str_of (block_count (length d) bs), crc32_hex d 0]"

subsection \<open>The verdict\<close>

text \<open>Late acknowledgements and old answers to a barrier are skipped.\<close>

definition late_line :: "nat \<Rightarrow> server \<Rightarrow> string list \<Rightarrow> bool" where
  "late_line blocks s p \<longleftrightarrow>
     flow s \<and> (is_ack p \<and> int_of (p ! 1) < blocks \<or> old_resume s p)"

function final_wait :: "msec \<Rightarrow> nat \<Rightarrow> server \<Rightarrow> (exn + string) \<times> server" where
  "final_wait deadline blocks s =
     (case srv_recv (max 0 (deadline - clk s)) None False s of
        (Inl e, s1) \<Rightarrow> (Inl e, s1)
      | (Inr line, s1) \<Rightarrow>
          if late_line blocks s1 (split_ws line)
          then if clk s1 \<ge> deadline then (Inl (error TimeoutErr), s1) else final_wait deadline blocks s1
          else (Inr line, s1))"
  by pat_completeness auto

termination final_wait
  by (relation "measure (\<lambda>(d, b, s). inp (link s))") (auto dest: srv_recv_drop)

declare final_wait.simps [simp del]

fun after_final ::
  "string \<Rightarrow> byte list \<Rightarrow> nat \<Rightarrow> nat \<Rightarrow> (exn + string) \<times> server \<Rightarrow> (exn + transfer_result option) \<times> server" where
  "after_final name d blocks retrans (Inl e, s) = (Inl e, s)"
| "after_final name d blocks retrans (Inr line, s) =
     (let crc = crc32_hex d 0; verified = (take 2 (split_ws line) = [''OK'', crc]) in
      (Inr (Some \<lparr>t_filename = name, t_size = length d, t_blocks = blocks, t_crc32 = crc,
         t_retransmits = retrans, t_verified = verified,
         t_compressed_blocks = compressed_blocks s, t_data_wire_bytes = data_wire_bytes s\<rparr>),
       if verified then hs_sound ''fanfare'' s else s))"

definition await_verdict ::
  "string \<Rightarrow> byte list \<Rightarrow> nat \<Rightarrow> nat \<Rightarrow> server \<Rightarrow> (exn + transfer_result option) \<times> server" where
  "await_verdict name d blocks retrans s =
     after_final name d blocks retrans (final_wait (clk s + ack_timeout (cfg s)) blocks s)"

fun after_blocks ::
  "string \<Rightarrow> byte list \<Rightarrow> nat \<Rightarrow> (exn + nat) \<times> server \<Rightarrow> (exn + transfer_result option) \<times> server" where
  "after_blocks name d blocks (Inl e, s) = (Inl e, if flow s \<and> is_pcutp e then fail e s else s)"
| "after_blocks name d blocks (Inr retrans, s) =
     await_verdict name d blocks retrans (put [''DONE'', crc32_hex d 0] s)"

definition send_data :: "byte list \<Rightarrow> nat \<Rightarrow> server \<Rightarrow> (exn + nat) \<times> server" where
  "send_data d blocks s = (if flow s then send_window d blocks s else send_blocks d blocks 0 0 s)"

fun after_ready ::
  "string \<Rightarrow> byte list \<Rightarrow> nat \<Rightarrow> (exn + string) \<times> server \<Rightarrow> (exn + transfer_result option) \<times> server" where
  "after_ready name d blocks (Inl e, s) = (Inl e, s)"
| "after_ready name d blocks (Inr reply, s) =
     (if reply \<noteq> ''READY'' then (Inr None, s) else after_blocks name d blocks (send_data d blocks s))"

definition announce :: "string \<Rightarrow> byte list \<Rightarrow> server \<Rightarrow> (exn + transfer_result option) \<times> server" where
  "announce name d s =
     after_ready name d (block_count (length d) (block_size s))
       (srv_recv (ack_timeout (cfg s)) None False (put (meta_words name d (block_size s)) s))"

definition send_file :: "string \<Rightarrow> byte list \<Rightarrow> server \<Rightarrow> (exn + transfer_result option) \<times> server" where
  "send_file name d s = announce name d (prepare d s)"

subsection \<open>What a transfer leaves alone\<close>

lemma block_loop_keeps: "block_loop n a t seq chunk s = (r, s') \<Longrightarrow> keeps s s'"
proof (induction n arbitrary: a t s)
  case 0
  then show ?case by auto
next
  case (Suc n)
  let ?s = "write_frame (data_header seq chunk, chunk) s"
  obtain x s1 where x: "srv_recv (ack_timeout (cfg s)) None False ?s = (x, s1)" by force
  have k: "keeps s s1"
    by (rule keeps_trans [OF _ reads_keeps [OF srv_recv_reads [OF x]]]) simp
  then show ?case
    using Suc x keeps_trans by (cases x) (auto simp: Let_def split: if_splits)
qed

lemma send_blocks_keeps: "send_blocks d n seq k s = (r, s') \<Longrightarrow> keeps s s'"
proof (induction n arbitrary: seq k s)
  case (Suc n)
  obtain x s1 where x: "send_block seq (block_of d (block_size s) seq) s = (x, s1)" by force
  have k: "keeps s s1" by (rule block_loop_keeps [OF x [unfolded send_block_def]])
  show ?case
  proof (cases x)
    case (Inr j)
    let ?s1 = "report (min ((seq + 1) * block_size s1) (length d)) (length d) s1"
    have "keeps ?s1 s'"
      using Suc.prems x Inr by (intro Suc.IH [of "seq + 1" "k + j"]) simp
    then show ?thesis by (rule keeps_trans [OF keeps_report [OF k]])
  qed (use Suc.prems x k in auto)
qed simp

lemma window_loop_keeps: "window_loop d blocks w s = (r, s') \<Longrightarrow> keeps s s'"
proof (induction d blocks w s rule: window_loop.induct)
  case (1 d blocks w s)
  obtain x s1 where x: "fill d blocks (w, s) = (x, s1)" by force
  note k1 = fill_keeps [OF x]
  show ?case
  proof (cases "base w < blocks")
    case lt: True
    show ?thesis
    proof (cases x)
      case (Inl e)
      then show ?thesis using 1(2) lt x k1 by (simp add: window_loop.simps [of d blocks w s])
    next
      case (Inr w1)
      obtain y s2 where y: "reply_loop (clk s1 + ack_timeout (cfg s1)) d w1 s1 = (y, s2)" by force
      have k2: "keeps s s2" using k1 reply_loop_reads [OF y, THEN reads_keeps] keeps_trans by blast
      show ?thesis
      proof (cases y)
        case Inl
        then show ?thesis using 1(2) lt x Inr y k2 by (simp add: window_loop.simps [of d blocks w s])
      next
        case y2: (Inr w2)
        then have "keeps s2 s'"
          using 1 lt x Inr y by (simp add: window_loop.simps [of d blocks w s])
        then show ?thesis using k2 keeps_trans by blast
      qed
    qed
  next
    case False
    then show ?thesis using 1(2) by (simp add: window_loop.simps [of d blocks w s])
  qed
qed

lemma send_data_keeps: "send_data d blocks s = (r, s') \<Longrightarrow> keeps s s'"
  using send_blocks_keeps window_loop_keeps by (auto simp: send_data_def send_window_def split: if_splits)

lemma final_wait_keeps: "final_wait deadline blocks s = (r, s') \<Longrightarrow> keeps s s'"
proof (induction deadline blocks s rule: final_wait.induct)
  case (1 deadline blocks s)
  obtain x s1 where x: "srv_recv (max 0 (deadline - clk s)) None False s = (x, s1)" by force
  note k = reads_keeps [OF srv_recv_reads [OF x]]
  show ?case
    using 1 x k keeps_trans
    by (cases x) (auto simp: final_wait.simps [of deadline blocks s] split: if_splits)
qed

lemma frame_trans: "frame a b \<Longrightarrow> frame b c \<Longrightarrow> frame a c"
  by (auto simp: frame_def intro: evolves_trans)

lemma keeps_frame: "keeps a b \<Longrightarrow> frame a b"
  by (simp add: keeps_def)

lemma frame_prepare: "frame s (prepare d s)"
  by (simp add: frame_def prepare_def Let_def)

lemma frame_put: "frame a b \<Longrightarrow> frame a (put ws b)" "frame a b \<Longrightarrow> frame a (fail e b)"
  "frame a b \<Longrightarrow> frame a (hs_sound n b)"
  by (auto simp: frame_def link_ops evolves_voice_hs)

lemma send_file_keeps:
  assumes "send_file name d s = (r, s')"
  shows "keeps (prepare d s) s'"
proof -
  let ?p = "prepare d s"
  let ?s0 = "put (meta_words name d (block_size ?p)) ?p" and ?blocks = "block_count (length d) (block_size ?p)"
  have k0: "keeps ?p ?s0" by simp
  obtain x s1 where x: "srv_recv (ack_timeout (cfg ?p)) None False ?s0 = (x, s1)" by force
  note k1 = keeps_trans [OF k0 reads_keeps [OF srv_recv_reads [OF x]]]
  have e: "after_ready name d ?blocks (x, s1) = (r, s')" using assms x by (simp add: send_file_def announce_def)
  show ?thesis
  proof (cases "x = Inr ''READY''")
    case True
    obtain y s2 where y: "send_data d ?blocks s1 = (y, s2)" by force
    note k2 = keeps_trans [OF k1 send_data_keeps [OF y]]
    have e2: "after_blocks name d ?blocks (y, s2) = (r, s')" using e True y by simp
    show ?thesis
    proof (cases y)
      case (Inl z)
      then show ?thesis using e2 k2 by auto
    next
      case (Inr k)
      let ?s2 = "put [''DONE'', crc32_hex d 0] s2"
      obtain z s3 where z: "final_wait (clk ?s2 + ack_timeout (cfg ?s2)) ?blocks ?s2 = (z, s3)" by force
      note k3 = keeps_trans [OF keeps_put(1) [OF k2] final_wait_keeps [OF z]]
      then show ?thesis using e2 Inr z by (cases z) (auto simp: await_verdict_def Let_def)
    qed
  next
    case False
    then show ?thesis using e k1 by (cases x) auto
  qed
qed

lemma send_file_frame: "send_file name d s = (r, s') \<Longrightarrow> frame s s'"
  by (rule frame_trans [OF frame_prepare keeps_frame [OF send_file_keeps]])

end
