(* ===== verification/Session.thy ===== *)
theory Session
  imports SendFile
begin

text \<open>
  A session of the server: a handshake, then requests until the peer hangs up (\<open>serve_once\<close>), the
  request itself (\<open>_handle_get\<close>) and the end of the daemon (\<open>shutdown\<close>).  The fetcher is not part of
  the protocol: it is the argument \<open>fetch\<close> that, given the URL and the size limit, says what the
  download gives, or raises, and how long it takes.
\<close>

type_synonym fetcher = "string \<Rightarrow> nat \<Rightarrow> (exn + byte list) \<times> nat"

definition tune :: "(msec \<Rightarrow> sound \<Rightarrow> sound) \<Rightarrow> server \<Rightarrow> server" where
  "tune f = on_link (\<lambda>l. l\<lparr>snd_state := f (clock l) (snd_state l)\<rparr>)"

definition spend :: "nat \<Rightarrow> server \<Rightarrow> server" where
  "spend ms = on_link (\<lambda>l. l\<lparr>clock := clock l + int ms\<rparr>)"

fun exn_class :: "exn \<Rightarrow> err_class" where
  "exn_class (Pcutp cls _ _) = cls"
| "exn_class _ = PcutpError"

text \<open>\<open>except PcutpError\<close> of \<open>_handle_get\<close>: anything else goes on up.\<close>

definition get_failed :: "exn \<Rightarrow> server \<Rightarrow> (exn + transfer_result option) \<times> server" where
  "get_failed e s =
     (if is_pcutp e then (Inr None, fail e (tune (\<lambda>now. net_error now (exn_class e)) s)) else (Inl e, s))"

fun after_fetch ::
  "string \<Rightarrow> (exn + byte list) \<times> nat \<Rightarrow> server \<Rightarrow> (exn + transfer_result option) \<times> server" where
  "after_fetch name (Inl e, ms) s = get_failed e (spend ms s)"
| "after_fetch name (Inr d, ms) s = send_file name d (tune (\<lambda>now. net_response now (length d)) (spend ms s))"

definition handle_get :: "fetcher \<Rightarrow> string \<Rightarrow> server \<Rightarrow> (exn + transfer_result option) \<times> server" where
  "handle_get fetch line s =
     (let p = split_ws line in
      if length p \<noteq> 3 \<or> p ! 0 \<noteq> ''GET'' then (Inl (error ProtocolError), fail (error ProtocolError) s)
      else case sanitize_filename (p ! 1) of
        Inl e \<Rightarrow> get_failed e s
      | Inr name \<Rightarrow>
          after_fetch name (fetch (p ! 2) (max_file_size (cfg s)))
            (tune net_request (put [''FETCHING''] s)))"

subsection \<open>Requests\<close>

definition next_request :: "msec \<Rightarrow> bool \<Rightarrow> server \<Rightarrow> (exn + string) \<times> server" where
  "next_request timeout idle s =
     (case pending s of
        Some request \<Rightarrow> (Inr request, s\<lparr>pending := None\<rparr>)
      | None \<Rightarrow> srv_recv timeout (Some (idle_keepalive (cfg s))) idle s)"

fun lingered :: "(exn + bool) \<times> lnk \<Rightarrow> (exn + unit) \<times> lnk" where
  "lingered (Inl e, l) = (Inl e, l)"
| "lingered (Inr _, l) = linger LINGER_TIME l"

definition with_link :: "server \<Rightarrow> 'r \<times> lnk \<Rightarrow> 'r \<times> server" where
  "with_link s x = (fst x, on_link (\<lambda>_. snd x) s)"

definition hang_up :: "server \<Rightarrow> (exn + unit) \<times> server" where
  "hang_up s =
     (let s1 = hs_sound ''disconnect'' (put [''BYE''] s)
      in with_link s1 (lingered (send_fin CLOSE_TIMEOUT CLOSE_RETRIES (link s1))))"

type_synonym serve_result = "(server, (exn + unit) \<times> server) pass"

fun greeted :: "(exn + bool) \<times> server \<Rightarrow> serve_result" where
  "greeted (Inl e, s) = Leave (Inl e, s)"
| "greeted (Inr ok, s) = (if ok then Again s else Leave (Inr (), s))"

fun served :: "(exn + transfer_result option) \<times> server \<Rightarrow> serve_result" where
  "served (Inl e, s) =
     Leave (Inl e, if is_pcutp e then s\<lparr>transfer_active := False, raw_write_active := False\<rparr> else s)"
| "served (Inr None, s) = Again (s\<lparr>transfer_active := False\<rparr>)"
| "served (Inr (Some t), s) = Again (s\<lparr>transfer_active := False, results := results s @ [t]\<rparr>)"

fun on_request :: "fetcher \<Rightarrow> (exn + string) \<times> server \<Rightarrow> serve_result" where
  "on_request fetch (Inl e, s) = Leave (Inl e, s)"
| "on_request fetch (Inr request, s) =
     (if request = ''CLOSE'' then Leave (hang_up s)
      else if startswith request ''HELLO '' \<or> startswith request ''HELLO? ''
      then greeted (handle_hello request s)
      else served (handle_get fetch request (s\<lparr>transfer_active := True\<rparr>)))"

definition serve_pass :: "fetcher \<Rightarrow> msec \<Rightarrow> bool \<Rightarrow> server \<Rightarrow> serve_result" where
  "serve_pass fetch timeout idle s = on_request fetch (next_request timeout idle s)"

subsection \<open>Every pass uses up input or the pending request\<close>

lemma frame_tune: "frame a b \<Longrightarrow> frame a (tune f b)"
  by (simp add: frame_def tune_def on_link_def evolves_def inp_def pending_input_def)

lemma frame_spend: "frame a b \<Longrightarrow> frame a (spend ms b)"
  by (simp add: frame_def spend_def on_link_def evolves_def inp_def pending_input_def)

lemma frame_refl [simp]: "frame s s"
  by (simp add: frame_def)

lemma handle_get_frame: "handle_get fetch t s = (r, s') \<Longrightarrow> frame s s'"
proof -
  assume g: "handle_get fetch t s = (r, s')"
  let ?p = "split_ws t" and ?s = "tune net_request (put [''FETCHING''] s)"
  obtain x ms where x: "fetch (?p ! 2) (max_file_size (cfg s)) = (x, ms)" by force
  have f: "frame s ?s" by (intro frame_tune frame_put) simp
  have failed: "frame s (snd (get_failed e b))" if "frame s b" for e b
    using that by (auto simp: get_failed_def intro: frame_put frame_tune)
  have fetched: "frame s (snd (after_fetch name (x, ms) ?s))" for name
  proof (cases x)
    case (Inl e)
    then show ?thesis using failed [OF frame_spend [OF f]] by simp
  next
    case (Inr d)
    let ?s2 = "tune (\<lambda>now. net_response now (length d)) (spend ms ?s)"
    have f2: "frame s ?s2" by (intro frame_tune frame_spend f)
    have "frame s (snd (send_file name d ?s2))"
      by (rule frame_trans [OF f2 send_file_frame [OF surjective_pairing]])
    then show ?thesis by (simp only: Inr after_fetch.simps)
  qed
  consider "s' = fail (error ProtocolError) s" | e where "get_failed e s = (r, s')"
    | name where "after_fetch name (x, ms) ?s = (r, s')"
    using g x by (auto simp: handle_get_def Let_def split: if_splits sum.splits)
  then show "frame s s'"
  proof cases
    case 1
    then show ?thesis by (simp add: frame_put)
  next
    case 2
    then show ?thesis using failed [of s] by (metis frame_refl snd_conv)
  next
    case 3
    then show ?thesis using fetched by (metis snd_conv)
  qed
qed

text \<open>What is left to do: the input, and then the request that is waiting.\<close>

definition chores :: "server \<Rightarrow> nat" where
  "chores s = (if pending s = None then 0 else 1)"

lemma served_Again:
  "served x = Again s' \<Longrightarrow> link s' = link (snd x) \<and> pending s' = pending (snd x)"
  by (cases x rule: served.cases) auto

lemma serve_pass_less:
  assumes "serve_pass fetch timeout idle s = Again s'"
  shows "inp (link s') < inp (link s) \<or> inp (link s') = inp (link s) \<and> chores s' < chores s"
proof -
  obtain x s1 where x: "next_request timeout idle s = (x, s1)" by force
  obtain request where r: "x = Inr request" and p: "on_request fetch (Inr request, s1) = Again s'"
    using assms x by (cases x) (auto simp: serve_pass_def)
  have n: "inp (link s1) < inp (link s) \<and> pending s1 = pending s \<or>
      link s1 = link s \<and> pending s \<noteq> None \<and> pending s1 = None"
    using x r srv_recv_inp [of timeout "Some (idle_keepalive (cfg s))" idle s request s1]
      srv_recv_only_link [of timeout "Some (idle_keepalive (cfg s))" idle s "Inr request" s1]
    by (auto simp: next_request_def only_link_fields split: option.splits)
  show ?thesis
  proof (cases "startswith request ''HELLO '' \<or> startswith request ''HELLO? ''")
    case True
    then have h: "handle_hello request s1 = (Inr True, s')"
      using p by (cases "handle_hello request s1" rule: greeted.cases) (auto split: if_splits)
    then show ?thesis using handle_hello_effect [OF h] n by auto
  next
    case False
    obtain y s2 where y: "handle_get fetch request (s1\<lparr>transfer_active := True\<rparr>) = (y, s2)" by force
    have "served (y, s2) = Again s'" using p False y by (auto split: if_splits)
    then have "link s' = link s2" "pending s' = pending s2" using served_Again by fastforce+
    moreover have "inp (link s2) \<le> inp (link s1)" "pending s2 = pending s1"
      using handle_get_frame [OF y] by (auto simp: frame_def dest: evolves_inp)
    ultimately show ?thesis using n by (auto simp: chores_def)
  qed
qed

function serve_loop :: "fetcher \<Rightarrow> msec \<Rightarrow> bool \<Rightarrow> server \<Rightarrow> (exn + unit) \<times> server" where
  "serve_loop fetch timeout idle s =
     (case serve_pass fetch timeout idle s of
        Leave res \<Rightarrow> res
      | Again s1 \<Rightarrow> serve_loop fetch timeout idle s1)"
  by pat_completeness auto

termination serve_loop
  by (relation "measures [\<lambda>(f, t, i, s). inp (link s), \<lambda>(f, t, i, s). chores s]")
    (auto dest: serve_pass_less)

declare serve_loop.simps [simp del]

text \<open>\<open>serve_once\<close>\<close>

fun after_hello :: "fetcher \<Rightarrow> msec \<Rightarrow> bool \<Rightarrow> (exn + bool) \<times> server \<Rightarrow> (exn + unit) \<times> server" where
  "after_hello fetch timeout idle (Inl e, s) = (Inl e, s)"
| "after_hello fetch timeout idle (Inr ok, s) =
     (if ok then serve_loop fetch timeout idle s else (Inr (), s))"

fun after_first :: "fetcher \<Rightarrow> msec \<Rightarrow> bool \<Rightarrow> (exn + string) \<times> server \<Rightarrow> (exn + unit) \<times> server" where
  "after_first fetch timeout idle (Inl e, s) = (Inl e, s)"
| "after_first fetch timeout idle (Inr line, s) = after_hello fetch timeout idle (handle_hello line s)"

definition serve_once :: "fetcher \<Rightarrow> msec \<Rightarrow> bool \<Rightarrow> server \<Rightarrow> (exn + unit) \<times> server" where
  "serve_once fetch timeout idle s =
     after_first fetch timeout idle (srv_recv timeout None False (s\<lparr>pending := None\<rparr>))"

text \<open>\<open>shutdown\<close>: exceptions of the protocol are swallowed.\<close>

fun fin_awaited :: "(exn + bool) \<times> lnk \<Rightarrow> (exn + unit) \<times> lnk" where
  "fin_awaited (Inl e, l) = (Inl e, l)"
| "fin_awaited (Inr _, l) = lingered (await_fin CLOSE_TIMEOUT l)"

fun swallow :: "(exn + unit) \<times> server \<Rightarrow> (exn + unit) \<times> server" where
  "swallow (Inl e, s) = (if is_pcutp e then (Inr (), s) else (Inl e, s))"
| "swallow (Inr _, s) = (Inr (), s)"

definition shutdown :: "server \<Rightarrow> (exn + unit) \<times> server" where
  "shutdown s =
     (if transfer_active s then (Inr (), if raw_write_active s then s else put [''ERR'', ''RETRY''] s)
      else swallow (with_link s (fin_awaited (send_fin CLOSE_TIMEOUT CLOSE_RETRIES (link s)))))"

end
