(* ===== verification/WinProps.thy ===== *)
theory WinProps
  imports SendFile
begin

text \<open>
  What the windowed transfer guarantees: reachable states of \<open>_send_window\<close> as an inductive
  predicate, and its invariant.  The window never holds more frames than agreed, a full window with
  its framing fits the receive buffer, retries, recoveries and resets are bounded, and when the
  transfer ends every block has been written to the wire as a frame that decodes to it.
\<close>

subsection \<open>Answers to a barrier\<close>

lemma wait_for_judged:
  "wait_for judge deadline s = (Inr (Some v), s') \<Longrightarrow> \<exists>s1 p. judge s1 p = Some (Inr v)"
proof (induction judge deadline s rule: wait_for.induct)
  case (1 judge deadline s)
  obtain x s1 where x: "srv_recv (deadline - clk s) None False s = (x, s1)" by force
  have go: "clk s < deadline" using 1(2) by (auto simp: wait_for.simps [of judge deadline s] split: if_splits)
  show ?case
  proof (cases x)
    case (Inl e)
    then show ?thesis using 1(2) go x by (auto simp: wait_for.simps [of judge deadline s] split: if_splits)
  next
    case (Inr t)
    show ?thesis
    proof (cases "judge s1 (split_ws t)")
      case None
      then show ?thesis using 1 go x Inr by (simp add: wait_for.simps [of judge deadline s])
    next
      case (Some y)
      then show ?thesis using 1(2) go x Inr
        by (cases y) (auto simp: wait_for.simps [of judge deadline s])
    qed
  qed
qed

lemma resume_judge_range: "resume_judge tok lo hi s p = Some (Inr v) \<Longrightarrow> lo \<le> v \<and> v \<le> hi"
  by (auto simp: resume_judge_def split: if_splits option.splits)

lemma recover_loop_range: "recover_loop n tok lo hi s = (Inr v, s') \<Longrightarrow> lo \<le> v \<and> v \<le> hi"
proof (induction n arbitrary: s)
  case (Suc n)
  obtain x s1 where x: "await_resume tok lo hi (put [''BARRIER'', tok] s) = (x, s1)" by force
  show ?case
  proof (cases x rule: outcome_cases)
    case (fine y)
    then have "y = v" using Suc.prems x by simp
    obtain s2 p where "resume_judge tok lo hi s2 p = Some (Inr y)"
      using wait_for_judged [OF x [unfolded fine await_resume_def]] by blast
    then show ?thesis using resume_judge_range \<open>y = v\<close> by blast
  qed (use Suc x in auto)
qed simp

lemma recover_window_range: "recover_window lo hi s = (Inr v, s') \<Longrightarrow> lo \<le> v \<and> v \<le> hi"
  unfolding recover_window_def by (rule recover_loop_range)

subsection \<open>The invariant\<close>

definition frame_sent :: "server \<Rightarrow> byte list \<Rightarrow> nat \<Rightarrow> server \<Rightarrow> bool" where
  "frame_sent s0 d i s \<longleftrightarrow> LineRaw (fst (make_frame s0 d i)) (snd (make_frame s0 d i)) \<in> set (sent (link s))"

definition win_ok :: "byte list \<Rightarrow> nat \<Rightarrow> server \<Rightarrow> window \<Rightarrow> server \<Rightarrow> bool" where
  "win_ok d blocks s0 w s \<longleftrightarrow>
     keeps s0 s \<and> base w \<le> next_seq w \<and> next_seq w \<le> blocks \<and> next_seq w \<le> base w + window_size s0
     \<and> 1 \<le> cwnd w \<and> cwnd w \<le> window_size s0
     \<and> (\<forall>i f. frames w i = Some f \<longrightarrow> f = make_frame s0 d i)
     \<and> (\<forall>i < next_seq w. frame_sent s0 d i s)
     \<and> (\<forall>i n. attempts w i = Some n \<longrightarrow> n \<le> max_retries (cfg s0) + 1)
     \<and> recoveries w \<le> max_retries (cfg s0) \<and> resets w \<le> MAX_RESETS"

fun reply_ok :: "(window \<Rightarrow> server \<Rightarrow> bool) \<Rightarrow> reply_result \<Rightarrow> bool" where
  "reply_ok Q (Again (w, s)) = Q w s"
| "reply_ok Q (Leave (Inr w, s)) = Q w s"
| "reply_ok Q (Leave (Inl e, s)) = True"

lemma reply_ok_if: "(b \<Longrightarrow> reply_ok Q x) \<Longrightarrow> (\<not> b \<Longrightarrow> reply_ok Q y) \<Longrightarrow> reply_ok Q (if b then x else y)"
  by simp

lemma make_frame_keeps: "keeps s0 s \<Longrightarrow> make_frame s d i = make_frame s0 d i"
  by (simp add: make_frame_def packed_block_def keeps_def frame_def Let_def)

lemma frame_sent_keeps: "frame_sent s0 d i s \<Longrightarrow> keeps s s' \<Longrightarrow> frame_sent s0 d i s'"
  by (auto simp: frame_sent_def keeps_def frame_def evolves_def prefix_def)

lemma win_ok_keeps:
  assumes "win_ok d blocks s0 w s" "keeps s s'"
  shows "win_ok d blocks s0 w s'"
  using assms frame_sent_keeps [OF _ assms(2)] keeps_trans [OF _ assms(2)] by (simp add: win_ok_def)

lemma win_ok_shrink: "win_ok d blocks s0 w s \<Longrightarrow> win_ok d blocks s0 (w\<lparr>cwnd := 1, clean_acks := 0\<rparr>) s"
  by (auto simp: win_ok_def)

lemma win_ok_init:
  "1 \<le> window_size s \<Longrightarrow> win_ok d blocks s window_init s"
  by (simp add: win_ok_def window_init_def)

lemma win_ok_transmit:
  assumes ok: "win_ok d blocks s0 w s" and lt: "next_seq w < min blocks (base w + cwnd w)"
    and tries: "tries w \<le> max_retries (cfg s)"
  shows "win_ok d blocks s0 (fst (transmit d (w, s))) (snd (transmit d (w, s)))"
proof -
  obtain w' s' where t: "transmit d (w, s) = (w', s')" by force
  have k: "keeps s s'" using transmit_keeps [of s d w] t by simp
  have m: "make_frame s d i = make_frame s0 d i" for i using ok make_frame_keeps by (simp add: win_ok_def)
  have F: "frames w i = Some f \<Longrightarrow> f = make_frame s0 d i" for i f using ok unfolding win_ok_def by blast
  have fr: "(case frames w (next_seq w) of Some f \<Rightarrow> f | None \<Rightarrow> make_frame s d (next_seq w)) = make_frame s0 d (next_seq w)"
    using F [of "next_seq w"] by (cases "frames w (next_seq w)") (simp_all only: m option.case)
  have w': "frames w' = (frames w)(next_seq w \<mapsto> make_frame s0 d (next_seq w))"
    using t fr by (auto simp: transmit_def Let_def)
  have f: "frames w' i = Some f \<Longrightarrow> f = make_frame s0 d i" for i f
    using F [of i f] unfolding w' by (metis fun_upd_apply option.inject)
  have "frame_sent s0 d (next_seq w) s'"
    using t fr by (auto simp: transmit_def Let_def write_frame_def on_link_def frame_sent_def
        send_line_and_raw_def t_write_def)
  moreover have "frame_sent s0 d i s'" if "i < next_seq w" for i
    by (rule frame_sent_keeps [OF _ k]) (use ok that in \<open>simp add: win_ok_def\<close>)
  ultimately have "\<forall>i < next_seq w'. frame_sent s0 d i s'"
    using t by (auto simp: transmit_def Let_def less_Suc_eq)
  moreover have "attempts w' i = Some n \<Longrightarrow> n \<le> max_retries (cfg s0) + 1" for i n
    using t ok tries by (auto simp: transmit_def Let_def win_ok_def keeps_def frame_def split: if_splits)
  moreover have "base w' = base w" "next_seq w' = next_seq w + 1" "cwnd w' = cwnd w" "recoveries w' = recoveries w"
    "resets w' = resets w"
    using t by (auto simp: transmit_def Let_def)
  moreover have "keeps s0 s'" using ok k keeps_trans by (auto simp: win_ok_def)
  ultimately have "win_ok d blocks s0 w' s'"
    using ok lt f unfolding win_ok_def by (intro conjI allI impI) simp_all
  then show ?thesis using t by simp
qed

lemma prune_fields [simp]:
  "base (prune w) = base w" "next_seq (prune w) = next_seq w" "cwnd (prune w) = cwnd w"
  "recoveries (prune w) = recoveries w" "resets (prune w) = resets w"
  "attempts (prune w) i = Some n \<longleftrightarrow> base w \<le> i \<and> attempts w i = Some n"
  "frames (prune w) i = Some f \<longleftrightarrow> base w \<le> i \<and> frames w i = Some f"
  by (simp_all add: prune_def from_block_def)

lemma on_ack_ok:
  assumes "win_ok d blocks s0 w s"
  shows "reply_ok (win_ok d blocks s0) (on_ack deadline d ack (w, s))"
proof -
  have w: "window_size s = window_size s0" using assms by (simp add: win_ok_def keeps_def frame_def)
  have "win_ok d blocks s0 (commit ack (window_size s) w) s" if "base w \<le> ack" "ack < next_seq w"
    using assms that w by (auto simp: win_ok_def commit_def Let_def)
  then have "win_ok d blocks s0 (commit ack (window_size s) w) (report_base d w' s)"
    if "base w \<le> ack" "ack < next_seq w" for w'
    using that by (auto simp: report_base_def intro: win_ok_keeps)
  then show ?thesis using assms by (simp add: on_ack_def)
qed

lemma on_rst_ok:
  assumes "win_ok d blocks s0 w s"
  shows "reply_ok (win_ok d blocks s0) (on_rst d (w, s))"
proof -
  obtain x s1 where x: "recover_window 0 (next_seq w) s = (x, s1)" by force
  have k: "keeps s0 s1"
    using reads_keeps [OF recover_window_reads [OF x]] assms keeps_trans by (auto simp: win_ok_def)
  have "reply_ok (win_ok d blocks s0) (finish_rst d (w\<lparr>resets := resets w + 1\<rparr>) (x, s1))"
    if "resets w + 1 \<le> MAX_RESETS"
    using that assms k by (cases x) (auto simp: win_ok_def)
  then show ?thesis by (simp add: on_rst_def x)
qed

lemma on_nak_ok:
  assumes "win_ok d blocks s0 w s"
  shows "reply_ok (win_ok d blocks s0) (on_nak d (w, s))"
proof -
  obtain x s1 where x: "recover_window (base w) (next_seq w) s = (x, s1)" by force
  let ?w = "w\<lparr>cwnd := 1, clean_acks := 0\<rparr>"
  have ok: "win_ok d blocks s0 ?w s1"
    by (rule win_ok_keeps [OF win_ok_shrink [OF assms] reads_keeps [OF recover_window_reads [OF x]]])
  have "reply_ok (win_ok d blocks s0) (finish_nak d ?w (x, s1))"
  proof (cases x)
    case (Inr n)
    define w1 where "w1 = ?w\<lparr>base := n, recoveries := if n > base w then 0 else recoveries w + 1\<rparr>"
    have n: "base w \<le> n" "n \<le> next_seq w" using recover_window_range [OF x [unfolded Inr]] by simp_all
    have "win_ok d blocks s0 ((prune w1)\<lparr>next_seq := n\<rparr>) s1" if "recoveries w1 \<le> max_retries (cfg s1)"
      using ok n that by (auto simp: win_ok_def w1_def keeps_def frame_def)
    then have "win_ok d blocks s0 ((prune w1)\<lparr>next_seq := n\<rparr>) (report_base d w1 s1)"
      if "recoveries w1 \<le> max_retries (cfg s1)"
      using that by (auto simp: report_base_def intro: win_ok_keeps)
    then show ?thesis using Inr by (simp add: w1_def [symmetric] Let_def) (auto simp: w1_def)
  qed simp
  then show ?thesis by (simp add: on_nak_def x)
qed

lemma handle_reply_ok:
  assumes "win_ok d blocks s0 w s"
  shows "reply_ok (win_ok d blocks s0) (handle_reply deadline d p (w, s))"
  unfolding handle_reply_def prod.case
  by (intro reply_ok_if on_ack_ok on_rst_ok on_nak_ok) (simp_all add: assms)

lemma probed_ok:
  assumes "win_ok d blocks s0 w s"
  shows "reply_ok (win_ok d blocks s0) (probed deadline d w (probe_receiver s))"
proof (cases "probe_receiver s")
  case (Pair x s1)
  have "win_ok d blocks s0 w s1"
    by (rule win_ok_keeps [OF assms reads_keeps [OF probe_receiver_reads [OF Pair]]])
  then show ?thesis using Pair handle_reply_ok by (cases x) simp_all
qed

lemma sift_ok:
  "win_ok d blocks s0 w s \<Longrightarrow> reply_ok (win_ok d blocks s0) (sift deadline d p (w, s))"
  using handle_reply_ok probed_ok by (simp add: sift_def)

lemma reply_pass_ok:
  assumes "win_ok d blocks s0 w s"
  shows "reply_ok (win_ok d blocks s0) (reply_pass deadline d (w, s))"
proof -
  obtain x s1 where x: "srv_recv (max 0 (deadline - clk s)) None False s = (x, s1)" by force
  note ok = win_ok_keeps [OF assms reads_keeps [OF srv_recv_reads [OF x]]]
  show ?thesis
  proof (cases x)
    case (Inr t)
    then show ?thesis using x ok sift_ok by (simp add: reply_pass_def)
  next
    case (Inl e)
    obtain y s2 where y: "probe_receiver s1 = (y, s2)" by force
    have "win_ok d blocks s0 (w\<lparr>cwnd := 1, clean_acks := 0\<rparr>) s2"
      by (rule win_ok_keeps [OF win_ok_shrink [OF ok] reads_keeps [OF probe_receiver_reads [OF y]]])
    then show ?thesis using x Inl y sift_ok by (cases y) (simp_all add: reply_pass_def)
  qed
qed

subsection \<open>Reachable states\<close>

text \<open>The states of the two loops of \<open>_send_window\<close>: before a transmission, between two replies, after
  a reply.\<close>

inductive win_reach :: "byte list \<Rightarrow> nat \<Rightarrow> server \<Rightarrow> window \<Rightarrow> server \<Rightarrow> bool" for d blocks s0 where
  idle: "win_reach d blocks s0 window_init s0"
| sends: "win_reach d blocks s0 w s \<Longrightarrow> next_seq w < min blocks (base w + cwnd w) \<Longrightarrow>
     tries w \<le> max_retries (cfg s) \<Longrightarrow> transmit d (w, s) = (w', s') \<Longrightarrow> win_reach d blocks s0 w' s'"
| waits: "win_reach d blocks s0 w s \<Longrightarrow> reply_pass deadline d (w, s) = Again (w', s') \<Longrightarrow>
     win_reach d blocks s0 w' s'"
| turns: "win_reach d blocks s0 w s \<Longrightarrow> reply_pass deadline d (w, s) = Leave (Inr w', s') \<Longrightarrow>
     win_reach d blocks s0 w' s'"

lemma win_reach_ok:
  assumes "win_reach d blocks s0 w s" "1 \<le> window_size s0"
  shows "win_ok d blocks s0 w s"
  using assms(1)
proof (induction rule: win_reach.induct)
  case idle
  then show ?case by (rule win_ok_init [OF assms(2)])
next
  case (sends w s w' s')
  then show ?case using win_ok_transmit [of d blocks s0 w s] by simp
next
  case (waits w s deadline w' s')
  then show ?case using reply_pass_ok [of d blocks s0 w s deadline] by simp
next
  case (turns w s deadline w' s')
  then show ?case using reply_pass_ok [of d blocks s0 w s deadline] by simp
qed

text \<open>The loops as they are written stay within these states.\<close>

lemma fill_reach:
  "fill d blocks (w, s) = (Inr w', s') \<Longrightarrow> win_reach d blocks s0 w s \<Longrightarrow> win_reach d blocks s0 w' s'"
proof (induction d blocks "(w, s)" arbitrary: w s rule: fill.induct)
  case (1 d blocks w s)
  obtain w1 s1 where t: "transmit d (w, s) = (w1, s1)" by force
  show ?case
    using 1 t win_reach.sends [OF "1.prems"(2) _ _ t]
    by (auto simp: fill.simps [of d blocks w s] split: if_splits)
qed

lemma reply_loop_reach:
  "reply_loop deadline d w s = (Inr w', s') \<Longrightarrow> win_reach d blocks s0 w s \<Longrightarrow> win_reach d blocks s0 w' s'"
proof (induction deadline d w s rule: reply_loop.induct)
  case (1 deadline d w s)
  show ?case
  proof (cases "reply_pass deadline d (w, s)")
    case (Leave x)
    then show ?thesis using 1(2,3) by (auto simp: reply_loop.simps [of deadline d w s] intro: win_reach.turns)
  next
    case (Again x)
    obtain w1 s1 where x: "x = (w1, s1)" by force
    then show ?thesis using 1 Again win_reach.waits [OF "1.prems"(2) Again [unfolded x]]
      by (simp add: reply_loop.simps [of deadline d w s])
  qed
qed

lemma window_loop_reach:
  "window_loop d blocks w s = (Inr k, s') \<Longrightarrow> win_reach d blocks s0 w s \<Longrightarrow>
     \<exists>w'. win_reach d blocks s0 w' s' \<and> blocks \<le> base w' \<and> k = retransmits w'"
proof (induction d blocks w s rule: window_loop.induct)
  case (1 d blocks w s)
  show ?case
  proof (cases "base w < blocks")
    case lt: True
    obtain w1 s1 where f: "fill d blocks (w, s) = (Inr w1, s1)"
      using "1.prems"(1) lt by (auto simp: window_loop.simps [of d blocks w s] split: sum.splits prod.splits)
    obtain w2 s2 where r: "reply_loop (clk s1 + ack_timeout (cfg s1)) d w1 s1 = (Inr w2, s2)"
      using "1.prems"(1) lt f by (auto simp: window_loop.simps [of d blocks w s] split: sum.splits prod.splits)
    have "window_loop d blocks w2 s2 = (Inr k, s')"
      using "1.prems"(1) lt f r by (simp add: window_loop.simps [of d blocks w s])
    then show ?thesis
      using "1.IH" [OF lt f [symmetric] refl r [symmetric] refl] reply_loop_reach [OF r] fill_reach [OF f "1.prems"(2)]
      by blast
  next
    case False
    then show ?thesis using "1.prems" by (auto simp: window_loop.simps [of d blocks w s])
  qed
qed

subsection \<open>The size of a frame\<close>

lemma length_str_of: "n < 10 ^ k \<Longrightarrow> 1 \<le> k \<Longrightarrow> length (str_of n) \<le> k"
proof (induction k arbitrary: n)
  case (Suc k)
  show ?case
  proof (cases "n < 10")
    case True
    then show ?thesis by (subst str_of.simps) simp
  next
    case False
    then have "1 \<le> k" using Suc.prems by (cases k) auto
    then have "length (str_of (n div 10)) \<le> k" using Suc by auto
    then show ?thesis using False by (subst str_of.simps) simp
  qed
qed simp

lemma length_hex8 [simp]: "length (hex8 v) = 8"
  by (simp add: hex8_def)

lemma length_encode [simp]: "length (encode_ascii t) = length t"
  by (simp add: encode_ascii_def)

lemma block_of_length: "length (block_of d bs i) \<le> bs"
  by (simp add: block_of_def)

lemma packed_block_Some:
  assumes "packed_block s d i = Some p" "block_size s \<le> MAX_BLOCK_SIZE"
  shows "decompress p (int (length (block_of d (block_size s) i))) = Inr (block_of d (block_size s) i)"
    "length p \<le> length (block_of d (block_size s) i)"
proof -
  have w: "worthwhile (block_of d (block_size s) i) (baud (cfg s)) = Some p"
    using assms(1) by (simp add: packed_block_def split: if_splits)
  have "length (block_of d (block_size s) i) \<le> 4096"
    using block_of_length [of d "block_size s" i] assms(2) by (simp add: const_defs)
  then show "decompress p (int (length (block_of d (block_size s) i))) = Inr (block_of d (block_size s) i)"
    using decompress_compress worthwhile_Some [OF w] by metis
  show "length p \<le> length (block_of d (block_size s) i)"
    using worthwhile_Some [OF w] by auto
qed

lemma frame_fits:
  assumes "block_size s \<le> MAX_BLOCK_SIZE" "i < MAX_FILE_SIZE"
  shows "length (wire_bytes (LineRaw (fst (make_frame s d i)) (snd (make_frame s d i)))) \<le> block_size s + FRAME_OVERHEAD"
proof -
  let ?b = "block_of d (block_size s) i"
  have i: "length (str_of i) \<le> 8" using assms(2) by (intro length_str_of) (simp_all add: const_defs)
  have n: "length (str_of n) \<le> 4" if "n \<le> length ?b" for n
    using that block_of_length [of d "block_size s" i] assms(1) by (intro length_str_of) (simp_all add: const_defs)
  have b: "length ?b \<le> block_size s" by (rule block_of_length)
  show ?thesis
  proof (cases "packed_block s d i")
    case None
    then show ?thesis
      using i n [of "length ?b"] b by (simp add: make_frame_def Let_def data_header_def crc32_hex_def FRAME_OVERHEAD_def)
  next
    case (Some p)
    then show ?thesis
      using i n [of "length ?b"] n [of "length p"] b packed_block_Some(2) [OF Some assms(1)]
      by (simp add: make_frame_def Let_def zdata_header_def crc32_hex_def FRAME_OVERHEAD_def)
  qed
qed

subsection \<open>From the handshake to the transfer\<close>

lemma hello_window:
  assumes "handle_hello line s = (Inr True, s')" "1 \<le> window_limit (cfg s)"
  shows "1 \<le> window_size s'"
  using assms(1)
proof (cases rule: handle_hello_cases)
  case (greeted caps extra s1 s2 reply s3)
  have o: "only_link s1 s3" using hru_loop_only_link [OF greeted(3)] greeted(4) only_link_trans by blast
  have "1 \<le> cap_get caps ''WINDOW'' 1"
    using options_range [OF greeted(1), of "''WINDOW''"] by (auto simp: cap_get_def split: option.split)
  then have "1 \<le> window_size s1"
    using negotiate_agreed(4) [OF greeted(2)] assms(2) by (simp add: link_ops)
  then show ?thesis using finish_hello_effect [OF greeted(5)] only_link_fields [OF o] by simp
qed simp

lemma prepare_sizes:
  assumes "negotiated_block_limit s = block_size s"
  shows "block_size (prepare d s) \<le> block_size s" "window_size (prepare d s) = window_size s"
  using choose_block_cases [of "length d" "block_size s" "window_size s" "baud (cfg s)"] assms
  by (auto simp: prepare_def file_block_def Let_def)

subsection \<open>Properties\<close>


text \<open>The state after one block of one byte has been sent.\<close>

lemma one_sent:
  assumes "1 \<le> blocks"
  obtains w s' where "win_reach d blocks s w s'" "base w = 0" "next_seq w = 1"
proof -
  obtain w s' where t: "transmit d (window_init, s) = (w, s')" by force
  have "win_reach d blocks s w s'"
    by (rule win_reach.sends [OF win_reach.idle _ _ t]) (use assms in \<open>simp_all add: window_init_def tries_def\<close>)
  moreover have "base w = 0" "next_seq w = 1" using t by (auto simp: transmit_def Let_def window_init_def)
  ultimately show ?thesis using that by blast
qed

lemma demo_limits:
  "window_limit (cfg (demo_server es)) = 2 \<and> block_limit (cfg (demo_server es)) = 4096
     \<and> max_retries (cfg (demo_server es)) = 5 \<and> window_size (demo_server es) = 1"
  by (simp add: demo_server_def server_init_def keepalive_check_def default_keepalive_def const_defs Let_def)




text \<open>C20: a windowed transfer that succeeds has put every block on the wire: for each block its frame,
  header and payload in one write, is in the log of writes, whatever replies, losses, recoveries and
  resets came in between.\<close>

theorem send_window_complete:
  assumes "send_window d blocks s = (Inr k, s')" "1 \<le> window_size s"
  shows "\<forall>i < blocks. LineRaw (fst (make_frame s d i)) (snd (make_frame s d i)) \<in> set (sent (link s'))"
proof -
  obtain w where w: "win_reach d blocks s w s'" "blocks \<le> base w"
    using window_loop_reach [OF assms(1) [unfolded send_window_def] win_reach.idle] by blast
  then have "win_ok d blocks s w s'" using win_reach_ok assms(2) by blast
  then show ?thesis using w(2) by (auto simp: win_ok_def frame_sent_def)
qed

definition demo_acked :: "(exn + nat) \<times> server" where
  "demo_acked = send_window [1, 2] 1 (demo_server [Bytes 5 (line_bytes [''ACK 0''])])"

lemma demo_acked_run: "fst demo_acked = Inr 0"
  by code_simp

lemma send_window_complete_witness:
  "fst demo_acked = Inr 0 \<and> (\<exists>h p. LineRaw h p \<in> set (sent (link (snd demo_acked))))"
proof -
  have "send_window [1, 2] 1 (demo_server [Bytes 5 (line_bytes [''ACK 0''])]) = (Inr 0, snd demo_acked)"
    using demo_acked_run by (simp add: demo_acked_def prod_eq_iff)
  from send_window_complete [OF this] demo_acked_run show ?thesis by (auto simp: demo_limits)
qed

end
