(* ===== verification/Client.thy ===== *)
theory Client
  imports Const Flow Compression Names Crc Framing
begin

text \<open>
  The receiver of \<open>client.py\<close>: its state, the files it writes and its side of the handshake.  The
  destination directory is a map from names to contents; \<open>disk\<close> scripts what becomes of the next
  file operations, each may fail with an \<open>OSError\<close> before or in the middle of its work.  A file that
  is open for writing has the content that was written to it: when the operating system flushes it
  is not modelled.  \<open>shown\<close> is the log of the \<open>on_progress\<close> calls.
\<close>

datatype disk_event = Fine | Fails | Writes nat \<comment> \<open>an error after so many bytes\<close>

record client =
  c_link :: lnk
  free_space :: "nat option"
  peer_closing :: bool
  c_max_block :: nat
  c_window_limit :: nat
  receive_buffer :: nat
  c_window_size :: nat
  c_flow :: bool
  c_lz4_enabled :: bool             \<comment> \<open>\<open>self.compression_enabled\<close>\<close>
  c_lz4 :: bool                     \<comment> \<open>\<open>self.compression\<close>\<close>
  c_identity :: bool
  files :: "string \<rightharpoonup> byte list"
  disk :: "disk_event list"
  shown :: "(nat \<times> nat) list"

text \<open>\<open>PcutpClient.__init__\<close> over a directory that holds \<open>fs\<close>.\<close>

definition client_init ::
  "lnk \<Rightarrow> (string \<rightharpoonup> byte list) \<Rightarrow> disk_event list \<Rightarrow> nat option \<Rightarrow> nat \<Rightarrow> nat \<Rightarrow> nat \<Rightarrow> bool
     \<Rightarrow> exn + client" where
  "client_init l fs ds free maxblk window rxbuf lz =
     (if \<not> (1 \<le> maxblk \<and> maxblk \<le> MAX_BLOCK_SIZE) \<or> \<not> (1 \<le> window \<and> window \<le> MAX_WINDOW) then Inl ValueErr
      else if rxbuf < maxblk + FRAME_OVERHEAD then Inl ValueErr
      else Inr \<lparr>c_link = l, free_space = free, peer_closing = False, c_max_block = maxblk,
        c_window_limit = window, receive_buffer = rxbuf, c_window_size = 1, c_flow = False,
        c_lz4_enabled = lz, c_lz4 = False, c_identity = False, files = fs, disk = ds, shown = []\<rparr>)"

subsection \<open>Lines\<close>

definition over_link :: "(lnk \<Rightarrow> lnk) \<Rightarrow> client \<Rightarrow> client" where
  "over_link f c = c\<lparr>c_link := f (c_link c)\<rparr>"

text \<open>For evaluation: a state that is not yet a value is not copied.\<close>

lemma over_link_code [code]:
  "over_link f \<lparr>c_link = l, free_space = a1, peer_closing = a2, c_max_block = a3, c_window_limit = a4,
       receive_buffer = a5, c_window_size = a6, c_flow = a7, c_lz4_enabled = a8, c_lz4 = a9,
       c_identity = b1, files = b2, disk = b3, shown = b4\<rparr> =
     \<lparr>c_link = f l, free_space = a1, peer_closing = a2, c_max_block = a3, c_window_limit = a4,
       receive_buffer = a5, c_window_size = a6, c_flow = a7, c_lz4_enabled = a8, c_lz4 = a9,
       c_identity = b1, files = b2, disk = b3, shown = b4\<rparr>"
  by (simp add: over_link_def)

definition say :: "string list \<Rightarrow> client \<Rightarrow> client" where
  "say ws = over_link (send_line (unwords ws))"

definition hear :: "msec \<Rightarrow> client \<Rightarrow> (exn + string) \<times> client" where
  "hear timeout c = (case recv_line timeout None False (c_link c) of (r, l) \<Rightarrow> (r, c\<lparr>c_link := l\<rparr>))"

text \<open>\<open>_raise_for_err\<close>\<close>

definition raise_for_err :: "string \<Rightarrow> exn option" where
  "raise_for_err t =
     (let p = split_ws t in
      if take 1 p = [''ERR'']
      then Some (mk_error PcutpError (Some (if length p > 1 then p ! 1 else ''PROTOCOL'')) '''')
      else None)"

subsection \<open>Files\<close>

fun disk_step :: "disk_event list \<Rightarrow> disk_event \<times> disk_event list" where
  "disk_step [] = (Fine, [])"
| "disk_step (e # es) = (e, es)"

definition name_rmb :: "string \<Rightarrow> string" where
  "name_rmb name = name @ ''.PCUTP''"

definition name_part :: "string \<Rightarrow> string" where
  "name_part name = name @ PART_SUFFIX"

text \<open>How many of \<open>n\<close> bytes an operation gets done, and whether it raises.\<close>

fun portion :: "disk_event \<Rightarrow> nat \<Rightarrow> nat" where
  "portion Fine n = n"
| "portion Fails n = 0"
| "portion (Writes k) n = min k n"

definition disk_result :: "disk_event \<Rightarrow> exn + unit" where
  "disk_result e = (if e = Fine then Inr () else Inl OSErr)"

text \<open>\<open>mkdir\<close>; a new or emptied file; \<open>handle.write\<close> at the end of the file; \<open>os.replace\<close>; \<open>unlink\<close>.\<close>

definition make_dir :: "client \<Rightarrow> (exn + unit) \<times> client" where
  "make_dir c = (case disk_step (disk c) of (e, ds) \<Rightarrow> (disk_result e, c\<lparr>disk := ds\<rparr>))"

definition truncate_file :: "string \<Rightarrow> client \<Rightarrow> (exn + unit) \<times> client" where
  "truncate_file name c = (case disk_step (disk c) of (e, ds) \<Rightarrow>
     (disk_result e, c\<lparr>files := (if e = Fails then files c else (files c)(name \<mapsto> [])), disk := ds\<rparr>))"

definition append_file :: "string \<Rightarrow> byte list \<Rightarrow> client \<Rightarrow> (exn + unit) \<times> client" where
  "append_file name bs c = (case disk_step (disk c) of (e, ds) \<Rightarrow>
     (disk_result e,
      c\<lparr>files := (files c)(name \<mapsto> (case files c name of None \<Rightarrow> [] | Some old \<Rightarrow> old) @ take (portion e (length bs)) bs),
        disk := ds\<rparr>))"

definition replace_file :: "string \<Rightarrow> string \<Rightarrow> client \<Rightarrow> (exn + unit) \<times> client" where
  "replace_file a b c = (case disk_step (disk c) of (e, ds) \<Rightarrow>
     (case files c a of
        None \<Rightarrow> (Inl OSErr, c\<lparr>disk := ds\<rparr>)
      | Some bs \<Rightarrow> (disk_result e,
          c\<lparr>files := (if e = Fine then (files c)(b \<mapsto> bs, a := None) else files c), disk := ds\<rparr>)))"

definition unlink_file :: "string \<Rightarrow> client \<Rightarrow> (exn + unit) \<times> client" where
  "unlink_file name c = (case disk_step (disk c) of (e, ds) \<Rightarrow>
     (disk_result e, c\<lparr>files := (if e = Fine then (files c)(name := None) else files c), disk := ds\<rparr>))"

fun and_then :: "(exn + unit) \<times> client \<Rightarrow> (client \<Rightarrow> (exn + unit) \<times> client) \<Rightarrow> (exn + unit) \<times> client" where
  "and_then (Inl e, c) f = (Inl e, c)"
| "and_then (Inr _, c) f = f c"

text \<open>\<open>write_text\<close>: the file is opened, then written.\<close>

definition write_file :: "string \<Rightarrow> byte list \<Rightarrow> client \<Rightarrow> (exn + unit) \<times> client" where
  "write_file name bs c = and_then (truncate_file name c) (append_file name bs)"

subsection \<open>The checkpoint beside the partial file\<close>

record meta =
  m_filename :: string
  m_size :: nat
  m_blocksize :: nat
  m_blocks :: nat
  m_crc :: string

definition json_str :: "string \<Rightarrow> string" where
  "json_str s = CHR 0x22 # concat (map (\<lambda>ch. if ch = LF then [CHR 0x5C, CHR ''n''] else [ch]) s) @ [CHR 0x22]"

definition json_field :: "string \<times> string \<Rightarrow> string" where
  "json_field kv = json_str (fst kv) @ '': '' @ snd kv"

fun commas :: "string list \<Rightarrow> string" where
  "commas [] = []"
| "commas [x] = x"
| "commas (x # xs) = x @ '', '' @ commas xs"

text \<open>\<open>json.dumps(record, sort_keys=True)\<close> of \<open>_write_rmb\<close>\<close>

definition rmb_record :: "meta \<Rightarrow> string \<Rightarrow> nat \<Rightarrow> nat \<Rightarrow> u32 \<Rightarrow> string" where
  "rmb_record m state n received running =
     CHR ''{'' # commas (map json_field
       [(''blocks'', str_of (m_blocks m)), (''blocksize'', str_of (m_blocksize m)),
        (''crc32'', json_str (m_crc m)), (''filename'', json_str (m_filename m)),
        (''next_seq'', str_of n), (''received'', str_of received),
        (''running_crc32'', json_str (hex8 running)), (''size'', str_of (m_size m)),
        (''state'', json_str state)]) @ ''}''"

definition write_rmb ::
  "string \<Rightarrow> meta \<Rightarrow> string \<Rightarrow> nat \<Rightarrow> nat \<Rightarrow> u32 \<Rightarrow> client \<Rightarrow> (exn + unit) \<times> client" where
  "write_rmb checkpoint m state n received running c =
     and_then (write_file (checkpoint @ ''.TMP'')
         (encode_ascii (rmb_record m state n received running @ [LF])) c)
       (replace_file (checkpoint @ ''.TMP'') checkpoint)"

subsection \<open>Handshake\<close>

definition offer_words :: "bool \<Rightarrow> client \<Rightarrow> string list" where
  "offer_words first c =
     [if first then ''HELLO'' else ''HELLO?'', PROTOCOL_VERSION, ''FLOW=1'',
      ''MAXBLK='' @ str_of (c_max_block c), ''WINDOW='' @ str_of (c_window_limit c),
      ''RXBUF='' @ str_of (receive_buffer c)]
     @ (if c_lz4_enabled c then [''LZ4=1''] else []) @ [''IDENTITY=1'']"

fun offer_loop :: "nat \<Rightarrow> bool \<Rightarrow> msec \<Rightarrow> client \<Rightarrow> (exn + string) \<times> client" where
  "offer_loop 0 first timeout c = (Inr '''', c)"
| "offer_loop (Suc n) first timeout c =
     (case hear timeout (say (offer_words first c) c) of
        (Inl e, c1) \<Rightarrow>
          if is_class TimeoutErr e \<and> n > 0 then offer_loop n False timeout c1 else (Inl e, c1)
      | (Inr answer, c1) \<Rightarrow> (Inr answer, c1))"

text \<open>The answer: what it grants is checked against what was offered.\<close>

definition adopt :: "caps \<Rightarrow> client \<Rightarrow> (exn + nat) \<times> client" where
  "adopt caps c =
     (let maxblk = cap_get caps ''MAXBLK'' DEFAULT_BLOCK_SIZE;
          c1 = c\<lparr>c_flow := (caps ''FLOW'' = Some 1),
                 c_lz4 := caps ''FLOW'' = Some 1 \<and> caps ''LZ4'' = Some 1,
                 c_identity := (caps ''IDENTITY'' = Some 1)\<rparr>;
          c2 = c1\<lparr>c_window_size := if c_flow c1 then cap_get caps ''WINDOW'' 1 else 1\<rparr>
      in if c_lz4 c1 \<and> \<not> c_lz4_enabled c then (Inl (error ProtocolError), c1)
         else if maxblk > c_max_block c \<or> c_window_size c2 > c_window_limit c
            \<or> c_window_size c2 * (maxblk + FRAME_OVERHEAD) > receive_buffer c
         then (Inl (error ProtocolError), c2)
         else (Inr maxblk, c2))"

definition read_answer :: "string \<Rightarrow> client \<Rightarrow> (exn + nat) \<times> client" where
  "read_answer answer c =
     (case raise_for_err answer of
        Some e \<Rightarrow> (Inl e, c)
      | None \<Rightarrow>
          let p = split_ws answer; normal = (take 3 p = [''HELLO'', PROTOCOL_VERSION, ''HRU?'']) in
          if \<not> normal \<and> take 2 p \<noteq> [''OHRU'', PROTOCOL_VERSION] then (Inl (error ProtocolError), c)
          else case options (drop (if normal then 3 else 2) p) of
            Inl e \<Rightarrow> (Inl e, c)
          | Inr caps \<Rightarrow> adopt caps c)"

text \<open>The wait for \<open>WHO?\<close>.  When all attempts went to repeated proposals the loop just ends.\<close>

definition iam_words :: "string list" where
  "iam_words = [''IAM'', ''0'', ''TYPE=PYTHON'', ''ROLE=CLIENT'', ''VER=2.1'']"

fun who_loop :: "nat \<Rightarrow> msec \<Rightarrow> client \<Rightarrow> (exn + unit) \<times> client" where
  "who_loop 0 timeout c = (Inr (), c)"
| "who_loop (Suc n) timeout c =
     (case hear timeout c of
        (Inl e, c1) \<Rightarrow>
          if is_class TimeoutErr e \<and> n > 0 then who_loop n timeout (say [''HRU''] c1) else (Inl e, c1)
      | (Inr t, c1) \<Rightarrow>
          let p = split_ws t in
          if p = [''WHO?'', ''0''] then (Inr (), say iam_words c1)
          else if take 3 p = [''HELLO'', PROTOCOL_VERSION, ''HRU?''] \<or> take 2 p = [''OHRU'', PROTOCOL_VERSION]
          then who_loop n timeout (say [''HRU''] c1)
          else (Inl (error ProtocolError), c1))"

definition identify_self :: "msec \<Rightarrow> client \<Rightarrow> (exn + unit) \<times> client" where
  "identify_self timeout c =
     (let c1 = say [''HRU''] c in
      if c_identity c1 then who_loop HELLO_RETRIES timeout c1 else (Inr (), c1))"

fun open_session :: "nat \<Rightarrow> (exn + unit) \<times> client \<Rightarrow> (exn + nat) \<times> client" where
  "open_session maxblk (Inl e, c) = (Inl e, c)"
| "open_session maxblk (Inr _, c) = (Inr maxblk, c\<lparr>peer_closing := False\<rparr>)"

fun after_answer :: "msec \<Rightarrow> (exn + nat) \<times> client \<Rightarrow> (exn + nat) \<times> client" where
  "after_answer timeout (Inl e, c) = (Inl e, c)"
| "after_answer timeout (Inr maxblk, c) = open_session maxblk (identify_self timeout c)"

fun after_offer :: "msec \<Rightarrow> (exn + string) \<times> client \<Rightarrow> (exn + nat) \<times> client" where
  "after_offer timeout (Inl e, c) = (Inl e, c)"
| "after_offer timeout (Inr answer, c) = after_answer timeout (read_answer answer c)"

definition hello :: "msec \<Rightarrow> client \<Rightarrow> (exn + nat) \<times> client" where
  "hello timeout c = after_offer timeout (offer_loop HELLO_RETRIES True timeout c)"

text \<open>\<open>close\<close>: one half-close, the wait for the peer's, and the watch over the line after it.\<close>

fun after_fin :: "(exn + bool) \<times> lnk \<Rightarrow> (exn + unit) \<times> lnk" where
  "after_fin (Inl e, l) = (Inl e, l)"
| "after_fin (Inr True, l) =
     (case await_fin CLOSE_TIMEOUT l of (Inl e, l1) \<Rightarrow> (Inl e, l1) | (Inr _, l1) \<Rightarrow> linger LINGER_TIME l1)"
| "after_fin (Inr False, l) = linger LINGER_TIME l"

definition close :: "client \<Rightarrow> (exn + unit) \<times> client" where
  "close c = (case after_fin (send_fin CLOSE_TIMEOUT CLOSE_RETRIES (c_link c)) of
     (r, l) \<Rightarrow> (r, c\<lparr>c_link := l\<rparr>))"

text \<open>A client with the default settings over an empty directory.\<close>

definition demo_client :: "ev list \<Rightarrow> client" where
  "demo_client es =
     (case client_init (fresh_link es) Map.empty [] None 4096 2 16384 True of
        Inr c \<Rightarrow> c | Inl _ \<Rightarrow> undefined)"

end
