(* ===== verification/Receive.thy ===== *)
theory Receive
  imports Client
begin

text \<open>
  The transfer as \<open>client.py\<close> receives it: \<open>_recv_meta\<close> and a pass of the loop of \<open>_receive\<close>.  \<open>rx\<close>
  holds the loop's local variables.  A pass of the loop reads one control line and, behind a data
  header, its payload; \<open>rx_pass\<close> either leaves the loop, with the \<open>DONE\<close> line or an exception, or
  goes on.
\<close>

record rx =
  expected :: nat
  running :: u32
  received :: nat
  drops :: nat
  resets :: nat

definition rx_init :: rx where
  "rx_init = \<lparr>expected = 0, running = 0, received = 0, drops = 0, resets = 0\<rparr>"

type_synonym rx_result = "(rx \<times> client, (exn + string \<times> rx) \<times> client) pass"

subsection \<open>META\<close>

definition parse_meta :: "string \<Rightarrow> exn + meta" where
  "parse_meta t =
     (let p = split_ws t in
      if length p \<noteq> 6 \<or> p ! 0 \<noteq> ''META'' then Inl (error ProtocolError)
      else if \<not> (isdecimal (p ! 2) \<and> isdecimal (p ! 3) \<and> isdecimal (p ! 4)) then Inl (error ProtocolError)
      else case parse_hex (upper (p ! 5)) of
        Inl _ \<Rightarrow> Inl (error ProtocolError)
      | Inr _ \<Rightarrow>
          (case sanitize_filename (p ! 1) of
             Inl e \<Rightarrow> Inl e
           | Inr name \<Rightarrow> Inr \<lparr>m_filename = name, m_size = int_of (p ! 2), m_blocksize = int_of (p ! 3),
               m_blocks = int_of (p ! 4), m_crc = upper (p ! 5)\<rparr>))"

fun checked_line :: "(exn + string) \<times> client \<Rightarrow> (exn + string) \<times> client" where
  "checked_line (Inl e, c) = (Inl e, c)"
| "checked_line (Inr t, c) = (case raise_for_err t of Some e \<Rightarrow> (Inl e, c) | None \<Rightarrow> (Inr t, c))"

fun after_fetching :: "(exn + string) \<times> client \<Rightarrow> (exn + string) \<times> client" where
  "after_fetching (Inl e, c) = (Inl e, c)"
| "after_fetching (Inr t, c) =
     (if t = ''FETCHING'' then checked_line (hear FETCH_TIMEOUT c) else (Inr t, c))"

fun meta_of :: "(exn + string) \<times> client \<Rightarrow> (exn + meta) \<times> client" where
  "meta_of (Inl e, c) = (Inl e, c)"
| "meta_of (Inr t, c) = (parse_meta t, c)"

definition recv_meta :: "msec \<Rightarrow> client \<Rightarrow> (exn + meta) \<times> client" where
  "recv_meta timeout c = meta_of (after_fetching (checked_line (hear timeout c)))"

subsection \<open>A data block\<close>

fun drop_kind :: "bool \<Rightarrow> string" where
  "drop_kind True = ''DROP''"
| "drop_kind False = ''NAK''"

text \<open>The file starts over: the partial file is emptied.\<close>

fun after_reset :: "rx \<times> string list \<Rightarrow> (exn + unit) \<times> client \<Rightarrow> rx_result" where
  "after_reset (v, ws) (Inl e, c) = Leave (Inl e, c)"
| "after_reset (v, ws) (Inr _, c) = Again (v, say ws c)"

definition gap :: "string \<Rightarrow> nat \<Rightarrow> rx \<Rightarrow> client \<Rightarrow> rx_result" where
  "gap name seq v c =
     (let v1 = v\<lparr>drops := drops v + 1\<rparr> in
      if drops v1 \<ge> MAX_DROPS then
        if resets v1 + 1 > MAX_RESETS then Leave (Inl (error ProtocolError), say [''ERR'', ''RETRY''] c)
        else after_reset (rx_init\<lparr>resets := resets v1 + 1\<rparr>, [''RST'', ''0'']) (truncate_file (name_part name) c)
      else Again (v1, say [''DROP'', str_of (expected v1), str_of seq] c))"

fun after_rmb :: "meta \<Rightarrow> rx \<Rightarrow> (exn + unit) \<times> client \<Rightarrow> rx_result" where
  "after_rmb m v (Inl e, c) = Leave (Inl e, c)"
| "after_rmb m v (Inr _, c) = Again (v, c\<lparr>shown := shown c @ [(received v, m_size m)]\<rparr>)"

fun after_append :: "meta \<Rightarrow> string \<Rightarrow> nat \<Rightarrow> rx \<Rightarrow> (exn + unit) \<times> client \<Rightarrow> rx_result" where
  "after_append m name seq v (Inl e, c) = Leave (Inl (error StorageError), say [''ERR'', ''WRITE''] c)"
| "after_append m name seq v (Inr _, c) =
     (let c1 = say [''ACK'', str_of seq] c in
      after_rmb m v
        (if expected v = m_blocks m \<or> expected v mod 8 = 0
         then write_rmb (name_rmb name) m ''ACTIVE'' (expected v) (received v) (running v) c1
         else (Inr (), c1)))"

definition store_block ::
  "meta \<Rightarrow> string \<Rightarrow> nat \<Rightarrow> byte list \<Rightarrow> rx \<Rightarrow> client \<Rightarrow> rx_result" where
  "store_block m name seq payload v c =
     after_append m name seq
       (v\<lparr>running := crc32 payload (running v), received := received v + length payload,
          expected := expected v + 1, drops := 0\<rparr>)
       (append_file (name_part name) payload c)"

text \<open>A payload that has arrived and, if packed, been decoded.\<close>

definition take_block ::
  "meta \<Rightarrow> string \<Rightarrow> nat \<Rightarrow> string \<Rightarrow> byte list \<Rightarrow> rx \<Rightarrow> client \<Rightarrow> rx_result" where
  "take_block m name seq want payload v c =
     (if crc32_hex payload 0 \<noteq> want then Again (v, say [''NAK'', str_of (expected v), ''CRC''] c)
      else if seq < expected v
      then Again (v, say [''ACK'', str_of (if c_flow c then expected v - 1 else seq)] c)
      else if seq \<noteq> expected v then gap name seq v c
      else if length payload \<noteq> min (m_blocksize m) (m_size m - received v)
      then Leave (Inl (error ProtocolError), say [''ERR'', ''PROTOCOL''] c)
      else store_block m name seq payload v c)"

text \<open>A data header: sequence number, length on the wire, length of the block if it is packed, CRC.\<close>

type_synonym head = "nat \<times> nat \<times> nat option \<times> string"

fun after_payload ::
  "meta \<Rightarrow> string \<Rightarrow> head \<Rightarrow> rx \<Rightarrow> (exn + byte list) \<times> lnk \<Rightarrow> client \<Rightarrow> rx_result" where
  "after_payload m name h v (Inl e, l) c =
     (if is_class TimeoutErr e
      then Again (v, say [drop_kind (c_flow c), str_of (expected v), ''RAW''] (c\<lparr>c_link := discard_input l\<rparr>))
      else Leave (Inl e, c\<lparr>c_link := l\<rparr>))"
| "after_payload m name (seq, n, None, want) v (Inr payload, l) c =
     take_block m name seq want payload v (c\<lparr>c_link := l\<rparr>)"
| "after_payload m name (seq, n, Some raw, want) v (Inr payload, l) c =
     (case decompress payload (int raw) of
        Inl e \<Rightarrow>
          if is_class ProtocolError e
          then Again (v, say [''NAK'', str_of (expected v), ''DECODE''] (c\<lparr>c_link := l\<rparr>))
          else Leave (Inl e, c\<lparr>c_link := l\<rparr>)
      | Inr block \<Rightarrow> take_block m name seq want block v (c\<lparr>c_link := l\<rparr>))"

definition data_head :: "meta \<Rightarrow> string list \<Rightarrow> client \<Rightarrow> exn \<times> bool + head" where
  "data_head m p c =
     (let packed = (c_lz4 c \<and> length p = 5 \<and> p ! 0 = ''ZDATA'') in
      if \<not> packed \<and> (length p \<noteq> 4 \<or> p ! 0 \<noteq> ''DATA'') then Inl (error ProtocolError, False)
      else if \<not> isdecimal (p ! 1) \<or> \<not> isdecimal (p ! 2) \<or> packed \<and> \<not> isdecimal (p ! 3)
      then Inl (error ProtocolError, True)
      else if \<not> int_of (p ! 2) \<le> m_blocksize m \<or> \<not> int_of (p ! 1) < m_blocks m
      then Inl (error ProtocolError, True)
      else if packed \<and> \<not> int_of (p ! 3) \<le> m_blocksize m then Inl (error ProtocolError, False)
      else Inr (int_of (p ! 1), int_of (p ! 2), if packed then Some (int_of (p ! 3)) else None,
        upper (last p)))"

definition recv_block :: "meta \<Rightarrow> string \<Rightarrow> string list \<Rightarrow> rx \<Rightarrow> client \<Rightarrow> rx_result" where
  "recv_block m name p v c =
     (case data_head m p c of
        Inl (e, tell) \<Rightarrow> Leave (Inl e, if tell then say [''ERR'', ''PROTOCOL''] c else c)
      | Inr h \<Rightarrow>
          after_payload m name h v (recv_exact (fst (snd h)) DATA_TIMEOUT (c_link c)) c)"

subsection \<open>The loop\<close>

definition on_rst0 :: "meta \<Rightarrow> string \<Rightarrow> string \<Rightarrow> client \<Rightarrow> rx_result" where
  "on_rst0 m name tok c =
     after_reset (rx_init, [''RST-ACK'', tok, ''0''])
       (and_then (truncate_file (name_part name) c) (write_rmb (name_rmb name) m ''RESET'' 0 0 0))"

definition on_header :: "meta \<Rightarrow> string \<Rightarrow> string \<Rightarrow> rx \<Rightarrow> client \<Rightarrow> rx_result" where
  "on_header m name header v c =
     (let p = split_ws header in
      if length p = 2 \<and> p ! 0 = ''AYT?'' \<and> isdecimal (p ! 1)
      then Again (v, say [''HERE'', p ! 1, str_of (expected v)] c)
      else if length p = 3 \<and> take 2 p = [''RST'', ''0''] \<and> isdecimal (p ! 2) then on_rst0 m name (p ! 2) c
      else if take 1 p = [''DONE'']
      then Leave (if expected v \<noteq> m_blocks m then Inl (error ProtocolError) else Inr (header, v), c)
      else if c_flow c \<and> length p = 2 \<and> p ! 0 = ''BARRIER''
      then if \<not> isdecimal (p ! 1) then Leave (Inl (error ProtocolError), c)
        else Again (v, say [''RESUME'', p ! 1, str_of (expected v)] c)
      else if header = ''CLOSE'' then Again (v, (say [''BYE''] c)\<lparr>peer_closing := True\<rparr>)
      else recv_block m name p v c)"

fun after_header :: "meta \<Rightarrow> string \<Rightarrow> rx \<Rightarrow> (exn + string) \<times> client \<Rightarrow> rx_result" where
  "after_header m name v (Inl e, c) = Leave (Inl e, c)"
| "after_header m name v (Inr header, c) = on_header m name header v c"

definition rx_pass :: "meta \<Rightarrow> string \<Rightarrow> rx \<times> client \<Rightarrow> rx_result" where
  "rx_pass m name = (\<lambda>(v, c).
     after_header m name v
       (checked_line (hear (if c_flow c then RECOVERY_TIMEOUT else ACK_TIMEOUT * 2) c)))"

lemmas rx_pass_code [code] = rx_pass_def [THEN fun_cong, of _ _ "(v, c)", unfolded prod.case] for v c

end
