(* ===== verification/RxLoop.thy ===== *)
theory RxLoop
  imports Receive
begin

text \<open>
  The receive loop of \<open>client.py\<close> as a total function, and \<open>get\<close> and \<open>_receive\<close> around it.  Every pass
  consumes a line, and none of its steps gives input back: the client is a \<open>line_source\<close>.
\<close>

text \<open>How a step of the client moves it: the link forwards, the settings of the session unchanged.\<close>

definition advances :: "client \<Rightarrow> client \<Rightarrow> bool" where
  "advances c c' \<longleftrightarrow> evolves (c_link c) (c_link c') \<and> c_flow c' = c_flow c \<and> c_lz4 c' = c_lz4 c
     \<and> c_max_block c' = c_max_block c \<and> free_space c' = free_space c"

lemma advances_refl [simp]: "advances c c"
  by (simp add: advances_def)

lemma advances_trans [trans]: "advances a b \<Longrightarrow> advances b c \<Longrightarrow> advances a c"
  by (auto simp: advances_def intro: evolves_trans)

lemma advances_inp: "advances c c' \<Longrightarrow> inp (c_link c') \<le> inp (c_link c)"
  by (auto simp: advances_def dest: evolves_inp)

lemma advances_update [simp]:
  "advances a (c\<lparr>files := f\<rparr>) = advances a c" "advances a (c\<lparr>disk := d\<rparr>) = advances a c"
  "advances a (c\<lparr>shown := g\<rparr>) = advances a c" "advances a (c\<lparr>peer_closing := b\<rparr>) = advances a c"
  by (simp_all add: advances_def)

lemma advances_say [simp]: "advances a c \<Longrightarrow> advances a (say ws c)"
  by (simp add: advances_def say_def over_link_def)

lemma advances_link: "advances a c \<Longrightarrow> evolves (c_link c) l \<Longrightarrow> advances a (c\<lparr>c_link := l\<rparr>)"
  by (auto simp: advances_def intro: evolves_trans)

lemma hear_reads: "hear t c = (r, c') \<Longrightarrow> reads_by advances (\<lambda>c. inp (c_link c)) got c r c'"
  using lk.recv_reads [of "(t, None, False)" "c_link c"]
  by (auto simp: hear_def reads_by_def advances_link split: prod.splits)

interpretation cli: line_source advances "\<lambda>c. inp (c_link c)" hear
  by unfold_locales (simp_all add: advances_inp hear_reads, rule advances_trans)

lemma advances_disk [simp]:
  "advances a (snd (make_dir c)) = advances a c" "advances a (snd (truncate_file n c)) = advances a c"
  "advances a (snd (append_file n bs c)) = advances a c"
  "advances a (snd (replace_file n n' c)) = advances a c" "advances a (snd (unlink_file n c)) = advances a c"
  by (simp_all add: make_dir_def truncate_file_def append_file_def replace_file_def unlink_file_def
      split: prod.split option.split)

lemma advances_and_then:
  "advances a (snd x) \<Longrightarrow> (\<And>c. advances a c \<Longrightarrow> advances a (snd (f c))) \<Longrightarrow> advances a (snd (and_then x f))"
  by (cases "(x, f)" rule: and_then.cases) auto

lemma advances_write [simp]:
  assumes "advances a c"
  shows "advances a (snd (write_rmb ck m st n r u c))"
  unfolding write_rmb_def write_file_def by (intro advances_and_then) (simp_all add: assms)

text \<open>The client in which a pass ends.\<close>

fun rx_client :: "rx_result \<Rightarrow> client" where
  "rx_client (Leave (_, c)) = c"
| "rx_client (Again (_, c)) = c"

lemma advances_after_reset: "advances a (snd x) \<Longrightarrow> advances a (rx_client (after_reset vw x))"
  by (cases "(vw, x)" rule: after_reset.cases) auto

lemma advances_after_rmb: "advances a (snd x) \<Longrightarrow> advances a (rx_client (after_rmb m v x))"
  by (cases "(m, v, x)" rule: after_rmb.cases) auto

lemma advances_after_append: "advances a (snd x) \<Longrightarrow> advances a (rx_client (after_append m name seq v x))"
  by (cases "(m, name, seq, v, x)" rule: after_append.cases)
    (auto simp: Let_def intro: advances_after_rmb)

lemma advances_take_block:
  "advances a c \<Longrightarrow> advances a (rx_client (take_block m name seq want payload v c))"
  by (auto simp: take_block_def gap_def store_block_def Let_def
      intro: advances_after_append advances_after_reset)

lemma advances_after_payload:
  assumes "advances a (c\<lparr>c_link := l\<rparr>)"
  shows "advances a (rx_client (after_payload m name h v (r, l) c))"
  using assms advances_link [OF assms, of "discard_input l"] discard_input_evolves [of l]
  by (cases "(m, name, h, v, (r, l), c)" rule: after_payload.cases)
    (auto simp: advances_take_block split: sum.split)

lemma advances_recv_block: "advances a c \<Longrightarrow> advances a (rx_client (recv_block m name p v c))"
  by (cases "recv_exact (fst (snd (projr (data_head m p c)))) DATA_TIMEOUT (c_link c)")
    (auto simp: recv_block_def split: sum.split dest: evolves_ops(3)
      intro!: advances_after_payload advances_link)

lemma advances_if:
  "advances a (rx_client x) \<Longrightarrow> advances a (rx_client y) \<Longrightarrow> advances a (rx_client (if b then x else y))"
  by simp

lemma advances_on_rst0: "advances a c \<Longrightarrow> advances a (rx_client (on_rst0 m name tok c))"
  by (auto simp: on_rst0_def intro!: advances_after_reset advances_and_then)

lemma advances_on_header:
  assumes "advances a c"
  shows "advances a (rx_client (on_header m name t v c))"
  unfolding on_header_def Let_def
  by (intro advances_if advances_recv_block advances_on_rst0 assms)
    (simp_all only: rx_client.simps advances_say advances_update assms)

text \<open>A pass that goes on has read a line.\<close>

fun rx_goes_on :: "rx_result \<Rightarrow> bool" where
  "rx_goes_on (Leave (r, _)) = got r"
| "rx_goes_on (Again _) = True"

lemma rx_pass_line:
  obtains (line) t c1 where "hear (if c_flow c then RECOVERY_TIMEOUT else ACK_TIMEOUT * 2) c = (Inr t, c1)"
      "raise_for_err t = None" "rx_pass m name (v, c) = on_header m name t v c1"
  | (bad) e c1 where "rx_pass m name (v, c) = Leave (Inl e, c1)" "advances c c1"
      "files c1 = files c" "evolves (c_link c) (c_link c1)"
proof -
  obtain x c1 where x: "hear (if c_flow c then RECOVERY_TIMEOUT else ACK_TIMEOUT * 2) c = (x, c1)" by force
  have a: "advances c c1" by (rule reads_moves [OF hear_reads [OF x]])
  have f: "files c1 = files c" using x by (auto simp: hear_def split: prod.splits)
  have e: "evolves (c_link c) (c_link c1)" using a by (simp add: advances_def)
  have p: "rx_pass m name (v, c) = after_header m name v (checked_line (x, c1))"
    by (simp only: rx_pass_def prod.case x)
  show ?thesis
  proof (cases x)
    case (Inl e')
    then show ?thesis using bad [OF _ a f e] p by simp
  next
    case (Inr t)
    then show ?thesis
      using bad [OF _ a f e] line [OF x [unfolded Inr]] p by (cases "raise_for_err t") simp_all
  qed
qed

lemma rx_pass_reads:
  "reads_by advances (\<lambda>c. inp (c_link c)) rx_goes_on c (rx_pass m name (v, c)) (rx_client (rx_pass m name (v, c)))"
proof (rule rx_pass_line [of c m name v], goal_cases line bad)
  case (line t c1)
  show ?thesis
    unfolding line(3)
    by (rule cli.reads_then [OF hear_reads [OF line(1)]]) (simp_all add: advances_on_header)
next
  case (bad e c1)
  then show ?thesis by (simp add: reads_by_def)
qed

lemma rx_pass_less: "rx_pass m name (v, c) = Again (v', c') \<Longrightarrow> inp (c_link c') < inp (c_link c)"
  using reads_less [OF rx_pass_reads, of m name v c] by simp

function rx_loop :: "meta \<Rightarrow> string \<Rightarrow> rx \<Rightarrow> client \<Rightarrow> (exn + string \<times> rx) \<times> client" where
  "rx_loop m name v c =
     (case rx_pass m name (v, c) of
        Leave res \<Rightarrow> res
      | Again (v1, c1) \<Rightarrow> rx_loop m name v1 c1)"
  by pat_completeness auto

termination rx_loop
  by (relation "measure (\<lambda>(m, name, v, c). inp (c_link c))") (auto dest: rx_pass_less)

declare rx_loop.simps [simp del]

subsection \<open>The whole file\<close>

fun after_unlink :: "string \<Rightarrow> (exn + unit) \<times> client \<Rightarrow> (exn + string \<times> bool) \<times> client" where
  "after_unlink name (Inl e, c) = (Inl e, c)"
| "after_unlink name (Inr _, c) = (Inr (name, True), c)"

text \<open>The check of the whole file and, if it holds, the rename; the result is the \<open>Download\<close>: the name
  of the file and whether it is verified.\<close>

fun finish_file :: "meta \<Rightarrow> string \<Rightarrow> (exn + string \<times> rx) \<times> client \<Rightarrow> (exn + string \<times> bool) \<times> client" where
  "finish_file m name (Inl e, c) = (Inl e, c)"
| "finish_file m name (Inr (header, v), c) =
     (let p = split_ws header; actual = hex8 (running v) in
      if length p \<noteq> 2 \<or> p ! 0 \<noteq> ''DONE'' then (Inl (error ProtocolError), c)
      else if actual \<noteq> upper (p ! 1) \<or> actual \<noteq> m_crc m \<or> received v \<noteq> m_size m
      then (Inr (name_part name, False), say [''FAIL'', ''FILECRC'', actual] c)
      else after_unlink name
        (and_then (replace_file (name_part name) name (say [''OK'', actual] c)) (unlink_file (name_rmb name))))"

fun after_open :: "meta \<Rightarrow> string \<Rightarrow> (exn + unit) \<times> client \<Rightarrow> (exn + string \<times> bool) \<times> client" where
  "after_open m name (Inl e, c) = (Inl e, c)"
| "after_open m name (Inr _, c) = finish_file m name (rx_loop m name rx_init c)"

definition say_ready :: "meta \<Rightarrow> string \<Rightarrow> client \<Rightarrow> (exn + unit) \<times> client" where
  "say_ready m name c = write_rmb (name_rmb name) m ''ACTIVE'' 0 0 0 (say [''READY''] c)"

definition start_file :: "meta \<Rightarrow> string \<Rightarrow> client \<Rightarrow> (exn + unit) \<times> client" where
  "start_file m name c =
     and_then (and_then (make_dir c) (say_ready m name)) (truncate_file (name_part name))"

definition receive :: "meta \<Rightarrow> client \<Rightarrow> (exn + string \<times> bool) \<times> client" where
  "receive m c =
     (case (sanitize_filename (m_filename m), parse_hex (m_crc m)) of
        (Inr name, Inr _) \<Rightarrow>
          if \<not> (1 \<le> m_blocksize m \<and> m_blocksize m \<le> c_max_block c) \<or> \<not> m_size m \<le> MAX_FILE_SIZE
             \<or> m_blocks m \<noteq> max 1 (ceil_div (m_size m) (m_blocksize m))
          then (Inl (error ProtocolError), say [''ERR'', ''PROTOCOL''] c)
          else if (case free_space c of None \<Rightarrow> False | Some room \<Rightarrow> m_size m > room)
          then (Inl (error StorageError), say [''ERR'', ''STORAGE''] c)
          else after_open m name (start_file m name c)
      | _ \<Rightarrow> (Inl (error ProtocolError), say [''ERR'', ''PROTOCOL''] c))"

fun after_meta :: "(exn + meta) \<times> client \<Rightarrow> (exn + string \<times> bool) \<times> client" where
  "after_meta (Inl e, c) = (Inl e, c)"
| "after_meta (Inr m, c) = receive m c"

definition get :: "string \<Rightarrow> string \<Rightarrow> msec \<Rightarrow> client \<Rightarrow> (exn + string \<times> bool) \<times> client" where
  "get filename url timeout c =
     (if peer_closing c then (Inl (error ProtocolError), c)
      else after_meta (recv_meta timeout (say [''GET'', filename, url] c)))"

end
