(* ===== verification/RxProps.thy ===== *)
theory RxProps
  imports RxLoop
begin

text \<open>
  What the receiver guarantees, whatever arrives on the line and whatever the disk does: its
  invariant \<open>rx_ok\<close> ties the partial file to the running checksum and the block counter; a file is
  named only when it is whole; an acknowledgement is only given for blocks that are stored; the loop
  ends.
\<close>

subsection \<open>Files\<close>

lemma file_ops_Inr:
  "truncate_file n c = (Inr u, c') \<Longrightarrow> files c' = (files c)(n \<mapsto> [])"
  "append_file n bs c = (Inr u, c') \<Longrightarrow>
     files c' = (files c)(n \<mapsto> (case files c n of None \<Rightarrow> [] | Some old \<Rightarrow> old) @ bs)"
  "unlink_file n c = (Inr u, c') \<Longrightarrow> files c' = (files c)(n := None)"
  "make_dir c = (r, c') \<Longrightarrow> files c' = files c"
  by (auto simp: truncate_file_def append_file_def unlink_file_def make_dir_def disk_result_def
      split: prod.splits if_splits)

lemma file_ops_spare:
  "k \<noteq> n \<Longrightarrow> files (snd (truncate_file n c)) k = files c k"
  "k \<noteq> n \<Longrightarrow> files (snd (append_file n bs c)) k = files c k"
  "k \<noteq> n \<Longrightarrow> files (snd (unlink_file n c)) k = files c k"
  "k \<noteq> n \<Longrightarrow> k \<noteq> n' \<Longrightarrow> files (snd (replace_file n n' c)) k = files c k"
  "files (snd (make_dir c)) = files c"
  by (auto simp: truncate_file_def append_file_def unlink_file_def replace_file_def make_dir_def
      split: prod.split option.split)

lemma names_distinct [simp]:
  "name_part n \<noteq> n" "n \<noteq> name_part n" "name_part n \<noteq> name_rmb n" "name_part n \<noteq> name_rmb n @ ''.TMP''"
  "name_rmb n \<noteq> n" "n \<noteq> name_rmb n" "n \<noteq> name_rmb n @ ''.TMP''" "name_rmb n \<noteq> name_part n"
  by (simp_all add: name_part_def name_rmb_def PART_SUFFIX_def)

text \<open>The receiver's own files beside the one it delivers.\<close>

definition own :: "string \<Rightarrow> string set" where
  "own name = {name_part name, name_rmb name, name_rmb name @ ''.TMP''}"

definition spares :: "string set \<Rightarrow> client \<Rightarrow> client \<Rightarrow> bool" where
  "spares N c c' \<longleftrightarrow> (\<forall>k. k \<notin> N \<longrightarrow> files c' k = files c k)"

lemma spares_refl [simp]: "spares N c c"
  by (simp add: spares_def)

lemma spares_trans: "spares N a b \<Longrightarrow> spares N b c \<Longrightarrow> spares N a c"
  by (simp add: spares_def)

lemma spares_update [simp]:
  "spares N a (say ws c) = spares N a c" "spares N a (c\<lparr>disk := d\<rparr>) = spares N a c"
  "spares N a (c\<lparr>shown := g\<rparr>) = spares N a c" "spares N a (c\<lparr>peer_closing := b\<rparr>) = spares N a c"
  "spares N a (c\<lparr>c_link := l\<rparr>) = spares N a c"
  by (simp_all add: spares_def say_def over_link_def)

lemma files_say [simp]: "files (say ws c) = files c"
  by (simp add: say_def over_link_def)

lemma spares_ops:
  "spares N a c \<Longrightarrow> n \<in> N \<Longrightarrow> spares N a (snd (truncate_file n c))"
  "spares N a c \<Longrightarrow> n \<in> N \<Longrightarrow> spares N a (snd (append_file n bs c))"
  "spares N a c \<Longrightarrow> n \<in> N \<Longrightarrow> spares N a (snd (unlink_file n c))"
  "spares N a c \<Longrightarrow> n \<in> N \<Longrightarrow> n' \<in> N \<Longrightarrow> spares N a (snd (replace_file n n' c))"
  "spares N a c \<Longrightarrow> spares N a (snd (make_dir c))"
  by (auto simp: spares_def file_ops_spare)
    (metis file_ops_spare(1-4))+

lemma spares_and_then:
  "spares N a (snd x) \<Longrightarrow> (\<And>c. spares N a c \<Longrightarrow> spares N a (snd (f c))) \<Longrightarrow> spares N a (snd (and_then x f))"
  by (cases "(x, f)" rule: and_then.cases) auto

lemma spares_write_rmb:
  assumes "spares N a c" "ck \<in> N" "ck @ ''.TMP'' \<in> N"
  shows "spares N a (snd (write_rmb ck m st n r u c))"
  unfolding write_rmb_def write_file_def by (intro spares_and_then spares_ops assms)

fun_cases and_then_InrE: "and_then x f = (Inr u, c')"

lemma and_then_Inr: "and_then x f = (Inr u, c') \<Longrightarrow> \<exists>c. x = (Inr (), c) \<and> f c = (Inr u, c')"
  by (elim and_then_InrE) auto

text \<open>A checkpoint does not touch the partial file.\<close>

lemma write_rmb_part:
  "write_rmb (name_rmb name) m st n r u c = (res, c') \<Longrightarrow> files c' (name_part name) = files c (name_part name)"
  using spares_write_rmb [of "own name - {name_part name}" c c "name_rmb name" m st n r u]
  by (auto simp: own_def spares_def dest: sym)

subsection \<open>The invariant of the loop\<close>

definition rx_ok :: "meta \<Rightarrow> string \<Rightarrow> rx \<Rightarrow> client \<Rightarrow> bool" where
  "rx_ok m name v c \<longleftrightarrow>
     (\<exists>content. files c (name_part name) = Some content \<and> running v = crc32 content 0
        \<and> received v = length content)
     \<and> received v = min (expected v * m_blocksize m) (m_size m) \<and> expected v \<le> m_blocks m
     \<and> drops v < MAX_DROPS \<and> resets v \<le> MAX_RESETS"

fun pass_all :: "(rx \<Rightarrow> client \<Rightarrow> bool) \<Rightarrow> rx_result \<Rightarrow> bool" where
  "pass_all Q (Again (v, c)) = Q v c"
| "pass_all Q (Leave (Inr (header, v), c)) = Q v c"
| "pass_all Q (Leave (Inl e, c)) = True"

lemma pass_all_if: "(b \<Longrightarrow> pass_all Q x) \<Longrightarrow> (\<not> b \<Longrightarrow> pass_all Q y) \<Longrightarrow> pass_all Q (if b then x else y)"
  by simp

lemma rx_ok_update [simp]:
  "rx_ok m name v (say ws c) = rx_ok m name v c" "rx_ok m name v (c\<lparr>c_link := l\<rparr>) = rx_ok m name v c"
  "rx_ok m name v (c\<lparr>shown := g\<rparr>) = rx_ok m name v c" "rx_ok m name v (c\<lparr>peer_closing := b\<rparr>) = rx_ok m name v c"
  by (simp_all add: rx_ok_def)

lemma crc32_Nil [simp]: "crc32 [] s = s"
  by (simp add: crc32_def zlib_crc32_def)

lemma rx_ok_init:
  "files c (name_part name) = Some [] \<Longrightarrow> n \<le> MAX_RESETS \<Longrightarrow> rx_ok m name (rx_init\<lparr>resets := n\<rparr>) c"
  by (simp add: rx_ok_def rx_init_def const_defs)

lemma rx_ok_start: "files c (name_part name) = Some [] \<Longrightarrow> rx_ok m name rx_init c"
  using rx_ok_init [of c name 0 m] by (simp add: rx_init_def)

lemma rx_ok_part: "rx_ok m name v c \<Longrightarrow> files c' (name_part name) = files c (name_part name) \<Longrightarrow> rx_ok m name v c'"
  unfolding rx_ok_def by (elim conjE, intro conjI) simp_all

lemma gap_ok:
  assumes "rx_ok m name v c"
  shows "pass_all (rx_ok m name) (gap name seq v c)"
proof -
  have "pass_all (rx_ok m name) (after_reset (rx_init\<lparr>resets := n\<rparr>, ws) (truncate_file (name_part name) c))"
    if "n \<le> MAX_RESETS" for n ws
  proof (cases "truncate_file (name_part name) c")
    case (Pair r c1)
    then show ?thesis
      using that file_ops_Inr(1) [of "name_part name" c "projr r" c1] by (cases r) (auto intro: rx_ok_init)
  qed
  then show ?thesis using assms by (auto simp: gap_def Let_def rx_ok_def)
qed

lemma after_rmb_ok:
  assumes "rx_ok m name v c" "files (snd x) (name_part name) = files c (name_part name)"
  shows "pass_all (rx_ok m name) (after_rmb m v x)"
  using assms by (cases "(m, v, x)" rule: after_rmb.cases) (auto simp: rx_ok_def)

lemma store_block_ok:
  assumes ok: "rx_ok m name v c" and lt: "expected v < m_blocks m"
    and len: "length payload = min (m_blocksize m) (m_size m - received v)"
  shows "pass_all (rx_ok m name) (store_block m name seq payload v c)"
proof -
  define v1 where "v1 = v\<lparr>running := crc32 payload (running v), received := received v + length payload,
    expected := expected v + 1, drops := 0\<rparr>"
  obtain r c1 where a: "append_file (name_part name) payload c = (r, c1)" by force
  show ?thesis
  proof (cases r)
    case (Inl e)
    then show ?thesis using a by (simp add: store_block_def)
  next
    case (Inr u)
    obtain content where content: "files c (name_part name) = Some content" "running v = crc32 content 0"
      "received v = length content"
      using ok by (auto simp: rx_ok_def)
    have part: "files c1 (name_part name) = Some (content @ payload)"
      using file_ops_Inr(2) [OF a [unfolded Inr]] content(1) by simp
    have "received v + length payload = min ((expected v + 1) * m_blocksize m) (m_size m)"
      using ok len by (auto simp: rx_ok_def min_def)
    then have ok1: "rx_ok m name v1 c1"
      using part content(2,3) ok lt by (simp add: rx_ok_def v1_def crc32_append const_defs)
    have "files (snd (write_rmb (name_rmb name) m st n k w (say ws c1))) (name_part name)
      = files c1 (name_part name)" for st n k w ws
      using write_rmb_part [of name m st n k w "say ws c1"] by (metis files_say prod.collapse)
    then have "pass_all (rx_ok m name) (after_append m name seq v1 (Inr u, c1))"
      unfolding after_append.simps Let_def by (intro after_rmb_ok [OF ok1]) simp
    then show ?thesis using a Inr by (simp add: store_block_def v1_def)
  qed
qed

lemma take_block_ok:
  assumes "rx_ok m name v c" "seq < m_blocks m"
  shows "pass_all (rx_ok m name) (take_block m name seq want payload v c)"
  unfolding take_block_def
  by (intro pass_all_if store_block_ok gap_ok) (use assms in simp_all)

lemma after_payload_ok:
  assumes "rx_ok m name v c" "fst h < m_blocks m"
  shows "pass_all (rx_ok m name) (after_payload m name h v x c)"
proof (cases "(m, name, h, v, x, c)" rule: after_payload.cases)
  case (3 m' name' seq n raw want v' payload l c')
  then show ?thesis using assms
    by (cases "decompress payload (int raw)") (auto intro: take_block_ok)
qed (use assms in \<open>auto intro: take_block_ok\<close>)

lemma data_head_bound: "data_head m p c = Inr h \<Longrightarrow> fst h < m_blocks m"
  by (auto simp: data_head_def Let_def split: if_splits)

lemma recv_block_ok: "rx_ok m name v c \<Longrightarrow> pass_all (rx_ok m name) (recv_block m name p v c)"
  using data_head_bound after_payload_ok by (auto simp: recv_block_def split: sum.split)

lemma on_rst0_ok: "pass_all (rx_ok m name) (on_rst0 m name tok c)"
proof (cases "and_then (truncate_file (name_part name) c) (write_rmb (name_rmb name) m ''RESET'' 0 0 0)")
  case (Pair r c2)
  show ?thesis
  proof (cases r)
    case (Inr u)
    obtain c1 where c1: "truncate_file (name_part name) c = (Inr (), c1)"
      "write_rmb (name_rmb name) m ''RESET'' 0 0 0 c1 = (Inr u, c2)"
      using and_then_Inr Pair Inr by blast
    then have "files c2 (name_part name) = Some []"
      using file_ops_Inr(1) [OF c1(1)] write_rmb_part [OF c1(2)] by simp
    then show ?thesis using Pair Inr by (simp add: on_rst0_def rx_ok_start)
  qed (use Pair in \<open>simp add: on_rst0_def\<close>)
qed

lemma on_header_ok:
  assumes "rx_ok m name v c"
  shows "pass_all (rx_ok m name) (on_header m name header v c)"
  unfolding on_header_def Let_def
  by (intro pass_all_if recv_block_ok on_rst0_ok assms) (use assms in simp_all)

lemma rx_pass_ok:
  assumes "rx_ok m name v c"
  shows "pass_all (rx_ok m name) (rx_pass m name (v, c))"
proof (rule rx_pass_line [of c m name v], goal_cases line bad)
  case (line t c1)
  then have "rx_ok m name v c1" using assms by (auto simp: hear_def split: prod.splits)
  then show ?case using line(3) on_header_ok by simp
qed simp

subsection \<open>Other files\<close>

lemma own_in [simp]: "name_part name \<in> own name" "name_rmb name \<in> own name" "name_rmb name @ ''.TMP'' \<in> own name"
  by (simp_all add: own_def)

lemma spares_after_reset: "spares N a (snd x) \<Longrightarrow> spares N a (rx_client (after_reset vw x))"
  by (cases "(vw, x)" rule: after_reset.cases) auto

lemma spares_after_rmb: "spares N a (snd x) \<Longrightarrow> spares N a (rx_client (after_rmb m v x))"
  by (cases "(m, v, x)" rule: after_rmb.cases) auto

lemma spares_after_append:
  "spares (own name) a (snd x) \<Longrightarrow> spares (own name) a (rx_client (after_append m name seq v x))"
  by (cases "(m, name, seq, v, x)" rule: after_append.cases)
    (auto simp: Let_def intro!: spares_after_rmb spares_write_rmb)

lemma spares_take_block:
  "spares (own name) a c \<Longrightarrow> spares (own name) a (rx_client (take_block m name seq want payload v c))"
  by (auto simp: take_block_def gap_def store_block_def Let_def
      intro!: spares_after_append spares_after_reset spares_ops)

lemma spares_after_payload:
  "spares (own name) a c \<Longrightarrow> spares (own name) a (rx_client (after_payload m name h v x c))"
  by (cases "(m, name, h, v, x, c)" rule: after_payload.cases)
    (auto simp: spares_take_block split: sum.split)

lemma spares_if:
  "spares N a (rx_client x) \<Longrightarrow> spares N a (rx_client y) \<Longrightarrow> spares N a (rx_client (if b then x else y))"
  by simp

lemma spares_recv_block:
  "spares (own name) a c \<Longrightarrow> spares (own name) a (rx_client (recv_block m name p v c))"
  by (auto simp: recv_block_def spares_after_payload split: sum.split)

lemma spares_on_rst0: "spares (own name) a c \<Longrightarrow> spares (own name) a (rx_client (on_rst0 m name tok c))"
  by (auto simp: on_rst0_def intro!: spares_after_reset spares_and_then spares_ops spares_write_rmb)

lemma spares_on_header:
  assumes "spares (own name) a c"
  shows "spares (own name) a (rx_client (on_header m name t v c))"
  unfolding on_header_def Let_def
  by (intro spares_if spares_recv_block spares_on_rst0 assms)
    (simp_all only: rx_client.simps spares_update assms)

lemma rx_pass_spares: "spares (own name) c (rx_client (rx_pass m name (v, c)))"
proof (rule rx_pass_line [of c m name v], goal_cases line bad)
  case (line t c1)
  then have "spares (own name) c c1" by (auto simp: spares_def hear_def split: prod.splits)
  then show ?case using line(3) spares_on_header by simp
qed (simp add: spares_def)

subsection \<open>The loop as a whole\<close>

lemma rx_loop_effect:
  "rx_loop m name v c = (res, c') \<Longrightarrow> rx_ok m name v c \<Longrightarrow>
     spares (own name) c c' \<and> (\<forall>header v'. res = Inr (header, v') \<longrightarrow> rx_ok m name v' c')"
proof (induction m name v c rule: rx_loop.induct)
  case (1 m name v c)
  note ok = rx_pass_ok [OF "1.prems"(2)] and sp = rx_pass_spares [of name c m v]
  show ?case
  proof (cases "rx_pass m name (v, c)")
    case (Leave x)
    then show ?thesis using "1.prems"(1) ok sp by (cases res) (auto simp: rx_loop.simps [of m name v c])
  next
    case (Again x)
    obtain v1 c1 where x: "x = (v1, c1)" by force
    then have "spares (own name) c1 c' \<and> (\<forall>header v'. res = Inr (header, v') \<longrightarrow> rx_ok m name v' c')"
      using 1 ok Again by (simp add: rx_loop.simps [of m name v c])
    then show ?thesis using sp Again x spares_trans by auto
  qed
qed

lemma start_file_effect:
  assumes "start_file m name c = (r, c')"
  shows "spares (own name) c c'" and "r = Inr () \<Longrightarrow> files c' (name_part name) = Some []"
proof -
  have "spares (own name) c (snd (start_file m name c))"
    unfolding start_file_def say_ready_def
    by (intro spares_and_then spares_ops spares_write_rmb) simp_all
  then show "spares (own name) c c'" using assms by simp
  show "files c' (name_part name) = Some []" if "r = Inr ()"
    using assms and_then_Inr [of _ "truncate_file (name_part name)"] that
    by (auto simp: start_file_def dest!: file_ops_Inr(1) and_then_Inr)
qed

text \<open>The end of a download: nothing but the receiver's own files has changed, or the file is there.\<close>

definition whole :: "meta \<Rightarrow> byte list \<Rightarrow> bool" where
  "whole m content \<longleftrightarrow> length content = m_size m \<and> crc32_hex content 0 = m_crc m"

definition delivered :: "meta \<Rightarrow> string \<Rightarrow> client \<Rightarrow> bool" where
  "delivered m name c' \<longleftrightarrow>
     (\<exists>content. files c' name = Some content \<and> whole m content) \<and> files c' (name_part name) = None"

lemma replace_Inr:
  "replace_file a b c = (Inr u, c') \<Longrightarrow> a \<noteq> b \<Longrightarrow> files c' b = files c a \<and> files c' a = None \<and> files c a \<noteq> None"
  by (auto simp: replace_file_def disk_result_def split: prod.splits option.splits if_splits)

lemma replace_Inl: "replace_file a b c = (Inl e, c') \<Longrightarrow> files c' = files c"
  by (auto simp: replace_file_def disk_result_def split: prod.splits option.splits if_splits)

lemma finish_file_effect:
  assumes "finish_file m name (Inr (header, v), c) = (r, c')" and ok: "rx_ok m name v c"
  shows "spares (insert name (own name)) c c' \<and> (files c' name = files c name \<or> delivered m name c')
    \<and> (\<forall>n. r = Inr (n, True) \<longrightarrow> n = name \<and> delivered m name c' \<and> files c' (name_rmb name) = None
           \<and> Line (unwords [''OK'', m_crc m]) \<in> set (sent (c_link c')))"
proof -
  let ?say = "say [''OK'', hex8 (running v)] c"
  let ?wrong = "hex8 (running v) \<noteq> upper (split_ws header ! 1) \<or> hex8 (running v) \<noteq> m_crc m \<or> received v \<noteq> m_size m"
  obtain content where content: "files c (name_part name) = Some content" "running v = crc32 content 0"
    "received v = length content"
    using ok by (auto simp: rx_ok_def)
  consider (bad) "r = Inl (error ProtocolError)" "c' = c" | (fails) "r = Inr (name_part name, False)" "files c' = files c"
    | (fine) "\<not> ?wrong" "after_unlink name
        (and_then (replace_file (name_part name) name ?say) (unlink_file (name_rmb name))) = (r, c')"
    using assms(1) by (auto simp: Let_def split: if_splits)
  then show ?thesis
  proof cases
    case fine
    have w: "whole m content" using fine(1) content by (simp add: whole_def crc32_hex_def)
    obtain q c1 where q: "replace_file (name_part name) name ?say = (q, c1)" by force
    show ?thesis
    proof (cases q)
      case (Inl e)
      then have "r = Inl e" "files c' = files c" using fine(2) q replace_Inl by auto
      then show ?thesis by (simp add: spares_def)
    next
      case (Inr u)
      have d1: "delivered m name c1" using replace_Inr [OF q [unfolded Inr]] content(1) w by (simp add: delivered_def)
      obtain q2 c2 where u: "unlink_file (name_rmb name) c1 = (q2, c2)" by force
      have f2: "files c2 k = files c1 k" if "k \<noteq> name_rmb name" for k
        using file_ops_spare(3) [OF that, of c1] u by simp
      have c2: "c2 = c'" and ends: "\<And>n. r = Inr (n, True) \<Longrightarrow> q2 = Inr () \<and> n = name"
        using fine(2) q Inr u by (cases q2; simp)+
      have d: "delivered m name c'" using d1 f2 c2 by (simp add: delivered_def)
      have "sent (c_link c1) = sent (c_link ?say)"
        using q by (auto simp: replace_file_def split: prod.splits option.splits)
      moreover have "sent (c_link c2) = sent (c_link c1)"
        using u by (auto simp: unlink_file_def split: prod.splits)
      ultimately have said: "Line (unwords [''OK'', m_crc m]) \<in> set (sent (c_link c'))"
        using fine(1) c2 by (simp add: say_def over_link_def del: unwords.simps)
      have "files c1 k = files c k" if "k \<noteq> name" "k \<notin> own name" for k
        using file_ops_spare(4) [of k "name_part name" name ?say] q that by (simp add: own_def)
      then have "spares (insert name (own name)) c c'"
        using f2 c2 by (auto simp: spares_def own_def)
      then show ?thesis using d said ends file_ops_Inr(3) u c2 by auto
    qed
  qed (auto simp: spares_def)
qed

subsection \<open>What the receiver reports\<close>

text \<open>An acknowledgement is for a block below the counter \<open>e\<close>; \<open>RESUME\<close> and \<open>HERE\<close> name the counter.\<close>

definition honest :: "nat \<Rightarrow> tx_write \<Rightarrow> bool" where
  "honest e x \<longleftrightarrow>
     (case x of
        Line t \<Rightarrow>
          let p = split_ws t in
          (length p = 2 \<and> p ! 0 = ''ACK'' \<longrightarrow> int_of (p ! 1) < e)
          \<and> (length p = 3 \<and> p ! 0 \<in> {''RESUME'', ''HERE''} \<longrightarrow> int_of (p ! 2) = e)
      | _ \<Rightarrow> True)"

lemma split_ws_first: "word_ok w \<Longrightarrow> split_ws (unwords (w # ws)) = w # split_ws (unwords ws)"
  by (simp add: split_ws_word split_ws_append)

lemma word_okI: "list_all (\<lambda>ch. \<not> is_space ch) w \<Longrightarrow> w \<noteq> [] \<Longrightarrow> word_ok w"
  by (simp add: word_ok_def list_all_iff)

lemma honest_other:
  assumes "word_ok w" "w \<notin> {''ACK'', ''RESUME'', ''HERE''}"
  shows "honest e (Line (unwords (w # ws)))"
  using assms by (simp add: honest_def split_ws_first del: unwords.simps)

lemma honest_words: "word_ok ''ACK''" "word_ok ''RESUME''" "word_ok ''HERE''" "word_ok ''NAK''" "word_ok ''DROP''"
  "word_ok ''RST''" "word_ok ''RST-ACK''" "word_ok ''BYE''" "word_ok ''PONG''" "word_ok ''AYT-OK''"
  by (intro word_okI; simp add: is_space_def)+

lemma honest_ack: "k < e \<Longrightarrow> honest e (Line (unwords [''ACK'', str_of k]))"
  by (simp add: honest_def split_ws_first honest_words split_ws_word del: unwords.simps(2))

lemma honest_counter:
  "isdecimal t \<Longrightarrow> honest e (Line (unwords [''RESUME'', t, str_of e]))"
  "isdecimal t \<Longrightarrow> honest e (Line (unwords [''HERE'', t, str_of e]))"
  by (simp_all add: honest_def split_ws_first honest_words isdecimal_word_ok split_ws_word del: unwords.simps(2))

lemma honest_chat: "chat x \<Longrightarrow> honest e x"
  by (auto simp: chat_def intro!: honest_other honest_words simp del: unwords.simps)

fun reports :: "client \<Rightarrow> rx_result \<Rightarrow> bool" where
  "reports c (Again (v, c')) =
     (\<exists>ws. sent (c_link c') = sent (c_link c) @ ws \<and> (\<forall>x \<in> set ws. honest (expected v) x))"
| "reports c (Leave _) = True"

lemma sent_say [simp]: "sent (c_link (say ws c)) = sent (c_link c) @ [Line (unwords ws)]"
  by (simp add: say_def over_link_def)

lemma link_ops_same [simp]:
  "c_link (snd (truncate_file n c)) = c_link c" "c_link (snd (append_file n bs c)) = c_link c"
  "c_link (snd (replace_file n n' c)) = c_link c"
  by (simp_all add: truncate_file_def append_file_def replace_file_def split: prod.split option.split)

lemma link_and_then:
  "c_link (snd x) = l \<Longrightarrow> (\<And>c. c_link (snd (f c)) = c_link c) \<Longrightarrow> c_link (snd (and_then x f)) = l"
  by (cases "(x, f)" rule: and_then.cases) auto

lemma link_write_rmb [simp]: "c_link (snd (write_rmb ck m st n r u c)) = c_link c"
  unfolding write_rmb_def write_file_def by (intro link_and_then) simp_all

lemma reports_say: "honest (expected v) (Line (unwords ws)) \<Longrightarrow> reports c (Again (v, say ws c))"
  by simp

lemma reports_after_reset:
  "c_link (snd x) = c_link c \<Longrightarrow> honest (expected v) (Line (unwords ws)) \<Longrightarrow> reports c (after_reset (v, ws) x)"
  by (cases "((v, ws), x)" rule: after_reset.cases) auto

lemma reports_after_append:
  assumes "c_link (snd x) = c_link c" "seq < expected v"
  shows "reports c (after_append m name seq v x)"
proof (cases "(m, name, seq, v, x)" rule: after_append.cases)
  case (2 m' name' seq' v' u c1)
  have "reports c (after_rmb m v y)" if "c_link (snd y) = c_link (say [''ACK'', str_of seq] c1)" for y
    using that assms 2 by (cases "(m, v, y)" rule: after_rmb.cases) (auto simp: honest_ack simp del: unwords.simps)
  then show ?thesis using 2 by (simp add: Let_def)
qed simp

lemma reports_if: "(b \<Longrightarrow> reports c x) \<Longrightarrow> (\<not> b \<Longrightarrow> reports c y) \<Longrightarrow> reports c (if b then x else y)"
  by simp

lemma reports_take_block: "reports c (take_block m name seq want payload v c)"
  unfolding take_block_def gap_def store_block_def Let_def
  by (intro reports_if reports_say reports_after_append reports_after_reset honest_ack honest_other honest_words)
    simp_all

lemma reports_same: "sent (c_link c) = sent (c_link c') \<Longrightarrow> reports c' x = reports c x"
  by (cases "(c, x)" rule: reports.cases) auto

lemma reports_after_payload:
  assumes "sent l = sent (c_link c)"
  shows "reports c (after_payload m name h v (r, l) c)"
proof -
  have same: "reports c x = reports (c\<lparr>c_link := l\<rparr>) x" for x
    by (rule reports_same) (simp add: assms)
  have drop: "reports c (Again (v, say [drop_kind b, n, k] (c\<lparr>c_link := discard_input l\<rparr>)))" for b n k
    using assms discard_loop_sent [of "l\<lparr>buf := []\<rparr>"]
    by (cases b) (simp_all add: discard_input_def honest_other honest_words del: unwords.simps)
  have nak: "reports c (Again (v, say [''NAK'', n, k] (c\<lparr>c_link := l\<rparr>)))" for n k
    unfolding same by (intro reports_say honest_other honest_words) simp
  have block: "reports c (take_block m name seq want payload v (c\<lparr>c_link := l\<rparr>))" for seq want payload
    unfolding same by (rule reports_take_block)
  show ?thesis
    by (cases "(m, name, h, v, (r, l), c)" rule: after_payload.cases)
      (auto simp: drop nak block simp del: unwords.simps reports.simps(1) split: sum.split)
qed

lemma reports_recv_block: "reports c (recv_block m name p v c)"
proof (cases "data_head m p c")
  case (Inr h)
  obtain r l where x: "recv_exact (fst (snd h)) DATA_TIMEOUT (c_link c) = (r, l)" by force
  then have "sent l = sent (c_link c)" unfolding recv_exact_def by (rule recv_exact_sent)
  then show ?thesis using Inr x by (simp add: recv_block_def reports_after_payload)
qed (auto simp: recv_block_def)

lemma reports_on_rst0: "reports c (on_rst0 m name tok c)"
  unfolding on_rst0_def
  by (intro reports_after_reset link_and_then honest_other honest_words) simp_all

lemma reports_on_header: "reports c (on_header m name t v c)"
  unfolding on_header_def Let_def
  by (intro reports_if reports_recv_block reports_on_rst0 reports_say honest_counter)
    (simp_all add: honest_other [of "''BYE''" _ "[]", simplified] honest_words)

lemma hear_chats: "hear t c = (r, c1) \<Longrightarrow> chats (c_link c) (c_link c1)"
  using recv_line_chats [of t "c_link c"] by (auto simp: hear_def split: prod.splits)

lemma rx_pass_reports: "reports c (rx_pass m name (v, c))"
proof (rule rx_pass_line [of c m name v], goal_cases line bad)
  case (line t c1)
  obtain ws where ws: "sent (c_link c1) = sent (c_link c) @ ws" "\<forall>x \<in> set ws. chat x"
    using hear_chats [OF line(1)] by (auto simp: chats_def)
  have "reports c1 (rx_pass m name (v, c))" unfolding line(3) by (rule reports_on_header)
  then show ?case
    using ws by (cases "(c, rx_pass m name (v, c))" rule: reports.cases) (auto simp: honest_chat)
qed simp

lemma after_open_effect:
  assumes "after_open m name (start_file m name c) = (r, c')"
  shows "spares (insert name (own name)) c c' \<and> (files c' name = files c name \<or> delivered m name c')"
    and "r = Inr (n, True) \<Longrightarrow> n = name \<and> delivered m name c' \<and> files c' (name_rmb name) = None
      \<and> Line (unwords [''OK'', m_crc m]) \<in> set (sent (c_link c'))"
proof -
  obtain q c1 where q: "start_file m name c = (q, c1)" by force
  note st = start_file_effect [OF q]
  have own: "files c1 name = files c name" "spares (insert name (own name)) c c1"
    using st(1) by (auto simp: spares_def own_def)
  have "(spares (insert name (own name)) c c' \<and> (files c' name = files c name \<or> delivered m name c'))
    \<and> (r = Inr (n, True) \<longrightarrow> n = name \<and> delivered m name c' \<and> files c' (name_rmb name) = None
      \<and> Line (unwords [''OK'', m_crc m]) \<in> set (sent (c_link c')))"
  proof (cases q)
    case (Inl e)
    then show ?thesis using assms q own by auto
  next
    case (Inr u)
    obtain x c2 where x: "rx_loop m name rx_init c1 = (x, c2)" by force
    have ok: "rx_ok m name rx_init c1" using st(2) Inr by (simp add: rx_ok_start)
    note e = rx_loop_effect [OF x ok]
    have own2: "files c2 name = files c name" "spares (insert name (own name)) c c2"
      using e own by (auto simp: spares_def own_def)
    show ?thesis
    proof (cases x)
      case (Inl y)
      then show ?thesis using assms q Inr x own2 by auto
    next
      case x2: (Inr hv)
      obtain header v where hv: "hv = (header, v)" by force
      have f: "finish_file m name (Inr (header, v), c2) = (r, c')" using assms q Inr x x2 hv by simp
      then show ?thesis
        using finish_file_effect [OF f] e x2 hv own2 spares_trans by metis
    qed
  qed
  then show "spares (insert name (own name)) c c' \<and> (files c' name = files c name \<or> delivered m name c')"
    "r = Inr (n, True) \<Longrightarrow> n = name \<and> delivered m name c' \<and> files c' (name_rmb name) = None
      \<and> Line (unwords [''OK'', m_crc m]) \<in> set (sent (c_link c'))"
    by blast+
qed

subsection \<open>Properties\<close>

inductive rx_reach :: "meta \<Rightarrow> string \<Rightarrow> client \<Rightarrow> rx \<Rightarrow> client \<Rightarrow> bool" for m name c0 where
  opened: "start_file m name c0 = (Inr (), c) \<Longrightarrow> rx_reach m name c0 rx_init c"
| again: "rx_reach m name c0 v c \<Longrightarrow> rx_pass m name (v, c) = Again (v', c') \<Longrightarrow> rx_reach m name c0 v' c'"

lemma rx_reach_ok: "rx_reach m name c0 v c \<Longrightarrow> rx_ok m name v c"
proof (induction rule: rx_reach.induct)
  case (opened c)
  then show ?case using start_file_effect by (blast intro: rx_ok_start)
next
  case (again v c v' c')
  then show ?case using rx_pass_ok [of m name v c] by simp
qed

text \<open>A file \<open>A\<close> of one block: the bytes 1 and 2.\<close>

definition lines_of :: "string list \<Rightarrow> byte list" where
  "lines_of ls = concat (map (\<lambda>l. encode_ascii l @ [LF_byte]) ls)"

definition demo_meta :: meta where
  "demo_meta = \<lparr>m_filename = ''A'', m_size = 2, m_blocksize = 2, m_blocks = 1, m_crc = ''B6CC4292''\<rparr>"

definition demo_data :: "ev list" where
  "demo_data = [Bytes 3 (lines_of [''DATA 0 2 B6CC4292''] @ [1]), Bytes 3 (2 # lines_of [''DONE B6CC4292''])]"

definition demo_opened :: "(exn + unit) \<times> client" where
  "demo_opened = start_file demo_meta ''A'' (demo_client demo_data)"

definition demo_pass :: rx_result where
  "demo_pass = rx_pass demo_meta ''A'' (rx_init, snd demo_opened)"

lemma demo_opened_run: "fst demo_opened = Inr ()"
  by code_simp

lemma demo_pass_run:
  "case demo_pass of Again (v, c) \<Rightarrow> expected v = 1 \<and> files c ''A.PART'' = Some [1, 2] | Leave _ \<Rightarrow> False"
  by code_simp

lemma demo_pass_reach:
  obtains v c where "rx_pass demo_meta ''A'' (rx_init, snd demo_opened) = Again (v, c)"
    "rx_reach demo_meta ''A'' (demo_client demo_data) rx_init (snd demo_opened)"
    "rx_reach demo_meta ''A'' (demo_client demo_data) v c" "expected v = 1" "files c ''A.PART'' = Some [1, 2]"
proof -
  obtain v c where p: "demo_pass = Again (v, c)" "expected v = 1" "files c ''A.PART'' = Some [1, 2]"
    using demo_pass_run by (auto split: pass.splits prod.splits)
  have o: "rx_reach demo_meta ''A'' (demo_client demo_data) rx_init (snd demo_opened)"
    using demo_opened_run by (intro rx_reach.opened) (simp add: demo_opened_def prod_eq_iff)
  show ?thesis by (rule that [OF p(1) [unfolded demo_pass_def] o rx_reach.again [OF o p(1) [unfolded demo_pass_def]] p(2,3)])
qed

definition demo_meta_client :: client where
  "demo_meta_client = demo_client (Bytes 3 (lines_of [''META A 2 2 1 B6CC4292'']) # demo_data)"

definition demo_got_meta :: "(exn + meta) \<times> client" where
  "demo_got_meta = recv_meta 1000 (say [''GET'', ''A'', ''http://a/b''] demo_meta_client)"

lemma demo_got_meta_run: "fst demo_got_meta = Inr demo_meta"
  by code_simp

lemma demo_receive_run:
  "case receive demo_meta (snd demo_got_meta) of (r, c) \<Rightarrow>
     r = Inr (''A'', True) \<and> files c ''A'' = Some [1, 2] \<and> files (snd demo_got_meta) ''A'' = None"
  by code_simp

lemma demo_get_run:
  obtains c where "get ''A'' ''http://a/b'' 1000 demo_meta_client = (Inr (''A'', True), c)"
    "receive demo_meta (snd demo_got_meta) = (Inr (''A'', True), c)"
    "files c ''A'' = Some [1, 2]" "files (snd demo_got_meta) ''A'' = None"
proof -
  obtain c where c: "receive demo_meta (snd demo_got_meta) = (Inr (''A'', True), c)" "files c ''A'' = Some [1, 2]"
    "files (snd demo_got_meta) ''A'' = None"
    using demo_receive_run by (auto split: prod.splits)
  have "demo_got_meta = (Inr demo_meta, snd demo_got_meta)"
    using demo_got_meta_run by (simp add: prod_eq_iff)
  moreover have "\<not> peer_closing demo_meta_client"
    by (simp add: demo_meta_client_def demo_client_def client_init_def const_defs)
  ultimately have "get ''A'' ''http://a/b'' 1000 demo_meta_client = (Inr (''A'', True), c)"
    using c(1) by (metis after_meta.simps(2) demo_got_meta_def get_def)
  then show ?thesis using that c by blast
qed

text \<open>C5: at every point of a transfer the partial file, the running checksum and the counters agree:
  the file holds exactly the first \<open>expected\<close> blocks of the announced size, its checksum is the
  running one, and it never outgrows the size in \<open>META\<close>.\<close>

theorem receiver_invariant:
  assumes "rx_reach m name c0 v c"
  shows "\<exists>content. files c (name_part name) = Some content \<and> running v = crc32 content 0
    \<and> received v = length content \<and> length content = min (expected v * m_blocksize m) (m_size m)
    \<and> expected v \<le> m_blocks m \<and> drops v < MAX_DROPS \<and> resets v \<le> MAX_RESETS"
  using rx_reach_ok [OF assms] by (auto simp: rx_ok_def)

lemma receiver_invariant_witness:
  "\<exists>(v :: rx) (c :: client) content. expected v = 1 \<and> files c (name_part ''A'') = Some content \<and> running v = crc32 content 0
     \<and> length content = 2"
proof -
  obtain v c where r: "rx_reach demo_meta ''A'' (demo_client demo_data) v c" "expected v = 1"
    by (rule demo_pass_reach)
  obtain content where "files c (name_part ''A'') = Some content" "running v = crc32 content 0"
    "length content = min (expected v * m_blocksize demo_meta) (m_size demo_meta)"
    using receiver_invariant [OF r(1)] by blast
  then show ?thesis using r(2) by (intro exI [of _ v] exI [of _ c] exI [of _ content]) (simp add: demo_meta_def)
qed



text \<open>C3: a download never damages what is there: whatever arrives on the line, wherever it breaks off
  and whichever file operation fails, the only files that change are the receiver's own three and the
  file to be delivered, and that one only if it is then complete and verified.\<close>

theorem download_atomic:
  assumes "receive m c = (r, c')" "files c' k \<noteq> files c k"
  shows "\<exists>name. sanitize_filename (m_filename m) = Inr name \<and> (k \<in> own name \<or> k = name \<and> delivered m name c')"
proof -
  have keeps: thesis if "files c' = files c" for thesis using that assms(2) by simp
  show ?thesis
  proof (cases "sanitize_filename (m_filename m)")
    case (Inl e)
    then have "files c' = files c" using assms(1) by (auto simp: receive_def)
    then show ?thesis by (rule keeps)
  next
    case (Inr name)
    have "files c' = files c \<or> after_open m name (start_file m name c) = (r, c')"
      using assms(1) Inr by (auto simp: receive_def split: sum.splits if_splits)
    then show ?thesis
    proof
      assume o: "after_open m name (start_file m name c) = (r, c')"
      show ?thesis using after_open_effect(1) [OF o] assms(2) Inr by (auto simp: spares_def)
    qed (rule keeps)
  qed
qed

lemma download_atomic_witness:
  "\<exists>c'. receive demo_meta (snd demo_got_meta) = (Inr (''A'', True), c')
     \<and> (''A'' \<in> own ''A'' \<or> delivered demo_meta ''A'' c')"
proof -
  obtain c' where r: "receive demo_meta (snd demo_got_meta) = (Inr (''A'', True), c')"
    "files c' ''A'' = Some [1, 2]" "files (snd demo_got_meta) ''A'' = None"
    by (rule demo_get_run)
  have n: "sanitize_filename ''A'' = Inr ''A''" by code_simp
  show ?thesis using download_atomic [OF r(1), of "''A''"] r n by (auto simp: demo_meta_def)
qed

text \<open>C2: a download that reports success has delivered the file: under the name of \<open>META\<close>, checked, with
  the size and checksum of \<open>META\<close>; the partial file and the checkpoint are gone and \<open>OK\<close> was sent.\<close>

theorem download_verified:
  assumes "get filename url timeout c = (Inr (n, True), c')"
  shows "\<exists>m c1. recv_meta timeout (say [''GET'', filename, url] c) = (Inr m, c1)
    \<and> sanitize_filename (m_filename m) = Inr n \<and> m_size m \<le> MAX_FILE_SIZE \<and> delivered m n c'
    \<and> files c' (name_rmb n) = None \<and> Line (unwords [''OK'', m_crc m]) \<in> set (sent (c_link c'))"
proof -
  obtain x c1 where x: "recv_meta timeout (say [''GET'', filename, url] c) = (x, c1)" by force
  obtain m where m: "x = Inr m" and r: "receive m c1 = (Inr (n, True), c')"
    using assms x by (cases x) (auto simp: get_def split: if_splits)
  obtain name where name: "sanitize_filename (m_filename m) = Inr name" "m_size m \<le> MAX_FILE_SIZE"
    and o: "after_open m name (start_file m name c1) = (Inr (n, True), c')"
    using r by (auto simp: receive_def split: sum.splits if_splits)
  show ?thesis using after_open_effect(2) [OF o refl] name x m by blast
qed

lemma download_verified_witness:
  "\<exists>c'. get ''A'' ''http://a/b'' 1000 demo_meta_client = (Inr (''A'', True), c') \<and> (\<exists>m :: meta. delivered m ''A'' c')"
proof -
  obtain c' where r: "get ''A'' ''http://a/b'' 1000 demo_meta_client = (Inr (''A'', True), c')"
    by (rule demo_get_run)
  show ?thesis using download_verified [OF r] r by blast
qed

text \<open>C39: the receive loop ends on every input: a run of passes is never longer than the input that is
  left when it starts.\<close>

theorem receiver_terminates:
  assumes "\<And>i. i < n \<Longrightarrow> rx_pass m name (f i) = Again (f (Suc i))"
  shows "n \<le> inp (c_link (snd (f 0)))"
proof -
  have "inp (c_link (snd (f n))) + n \<le> inp (c_link (snd (f 0)))"
    using assms
  proof (induction n)
    case (Suc n)
    have "rx_pass m name (fst (f n), snd (f n)) = Again (fst (f (Suc n)), snd (f (Suc n)))"
      using Suc.prems [of n] by simp
    then show ?case using Suc rx_pass_less by fastforce
  qed simp
  then show ?thesis by simp
qed

lemma receiver_terminates_witness: "1 \<le> inp (c_link (snd demo_opened))"
proof -
  obtain v c where r: "rx_pass demo_meta ''A'' (rx_init, snd demo_opened) = Again (v, c)"
    by (rule demo_pass_reach)
  show ?thesis
    using receiver_terminates [of 1 demo_meta "''A''" "\<lambda>i. if i = 0 then (rx_init, snd demo_opened) else (v, c)"] r
    by simp
qed

end
