(* ===== verification/Handshake.thy ===== *)
theory Handshake
  imports Server Client
begin

text \<open>
  The greetings of the two ends together: the offer of \<open>client.py\<close> is understood by \<open>server.py\<close> and its
  answer by \<open>client.py\<close>, and both keep the same settings.
\<close>

definition client_ok :: "client \<Rightarrow> bool" where
  "client_ok c \<longleftrightarrow> 1 \<le> c_max_block c \<and> c_max_block c \<le> MAX_BLOCK_SIZE
     \<and> 1 \<le> c_window_limit c \<and> c_window_limit c \<le> MAX_WINDOW
     \<and> c_max_block c + FRAME_OVERHEAD \<le> receive_buffer c \<and> receive_buffer c \<le> 1048576"

definition server_ok :: "server \<Rightarrow> bool" where
  "server_ok s \<longleftrightarrow> 1 \<le> block_limit (cfg s) \<and> block_limit (cfg s) \<le> MAX_BLOCK_SIZE
     \<and> 1 \<le> window_limit (cfg s) \<and> window_limit (cfg s) \<le> MAX_WINDOW"

abbreviation tokens :: "(string \<times> nat) list \<Rightarrow> string list" where
  "tokens kvs \<equiv> map (\<lambda>(k, n). cap_token k n) kvs"

definition offer_caps :: "client \<Rightarrow> (string \<times> nat) list" where
  "offer_caps c =
     [(''FLOW'', 1), (''MAXBLK'', c_max_block c), (''WINDOW'', c_window_limit c), (''RXBUF'', receive_buffer c)]
     @ (if c_lz4_enabled c then [(''LZ4'', 1)] else []) @ [(''IDENTITY'', 1)]"

lemma str_of_1: "str_of 1 = ''1''"
  by code_simp

lemma cap_tokens:
  "cap_token ''FLOW'' 1 = ''FLOW=1''" "cap_token ''LZ4'' 1 = ''LZ4=1''" "cap_token ''IDENTITY'' 1 = ''IDENTITY=1''"
  "cap_token ''MAXBLK'' n = ''MAXBLK='' @ str_of n" "cap_token ''WINDOW'' n = ''WINDOW='' @ str_of n"
  "cap_token ''RXBUF'' n = ''RXBUF='' @ str_of n"
  by (simp_all add: cap_token_def str_of_1 [unfolded One_nat_def])

lemma offer_words_tokens:
  "offer_words first c = (if first then ''HELLO'' else ''HELLO?'') # PROTOCOL_VERSION # tokens (offer_caps c)"
  by (simp add: offer_words_def offer_caps_def cap_tokens [unfolded One_nat_def])

lemma offer_caps_fine:
  assumes "client_ok c"
  shows "distinct (map fst (offer_caps c))"
    "\<forall>(k, n) \<in> set (offer_caps c). k \<in> known_keys \<and> 1 \<le> n \<and> n \<le> 1048576"
  using assms by (auto simp: offer_caps_def client_ok_def known_keys_def const_defs)

lemma words_tokens:
  assumes "\<forall>(k, n) \<in> set kvs. k \<in> known_keys \<and> 1 \<le> n \<and> n \<le> 1048576"
  shows "list_all word_ok (tokens kvs)"
  using assms by (auto simp: list_all_iff intro: word_ok_cap_token)

lemma greeting_word_ok: "word_ok ''HELLO''" "word_ok ''HELLO?''" "word_ok ''OHRU''" "word_ok ''HRU?''"
  "word_ok PROTOCOL_VERSION"
  by (simp_all add: word_ok_def is_space_def PROTOCOL_VERSION_def)

lemma split_offer:
  assumes "client_ok c"
  shows "split_ws (unwords (offer_words first c)) = offer_words first c"
  unfolding offer_words_tokens
  by (intro split_ws_unwords) (simp add: greeting_word_ok words_tokens [OF offer_caps_fine(2) [OF assms]])

definition answer_caps :: "nat \<Rightarrow> nat \<Rightarrow> bool \<Rightarrow> (string \<times> nat) list" where
  "answer_caps bs w lz =
     [(''MAXBLK'', bs), (''FLOW'', 1), (''WINDOW'', w)] @ (if lz then [(''LZ4'', 1)] else []) @ [(''IDENTITY'', 1)]"

lemma negotiate_offer:
  assumes "client_ok c" "server_ok s"
  shows "\<exists>extra s1. negotiate (map_of (offer_caps c)) s = (Inr extra, s1)
    \<and> proposal_words s1 extra = (''BAUD='' @ str_of (baud (cfg s))) # tokens (answer_caps (block_size s1) (window_size s1) (lz4 s1))
    \<and> 1 \<le> block_size s1 \<and> block_size s1 \<le> c_max_block c \<and> 1 \<le> window_size s1 \<and> window_size s1 \<le> c_window_limit c
    \<and> window_size s1 * (block_size s1 + FRAME_OVERHEAD) \<le> receive_buffer c
    \<and> flow s1 \<and> identity s1 \<and> (lz4 s1 \<longrightarrow> c_lz4_enabled c)"
proof -
  let ?caps = "map_of (offer_caps c)"
  define bs where "bs = min (block_limit (cfg s)) (c_max_block c)"
  define room where "room = receive_buffer c div (bs + FRAME_OVERHEAD)"
  define w where "w = min (min (window_limit (cfg s)) (c_window_limit c)) room"
  define lz where "lz = (compression_enabled (cfg s) \<and> c_lz4_enabled c)"
  define s1 where "s1 = s\<lparr>block_size := bs, negotiated_block_limit := bs, flow := True, lz4 := lz, identity := True, window_size := w\<rparr>"
  have caps: "?caps ''FLOW'' = Some 1" "?caps ''IDENTITY'' = Some 1" "?caps ''LZ4'' = (if c_lz4_enabled c then Some 1 else None)"
    "cap_get ?caps ''MAXBLK'' n = c_max_block c" "cap_get ?caps ''WINDOW'' n = c_window_limit c"
    "cap_get ?caps ''RXBUF'' n = receive_buffer c" for n
    by (simp_all add: offer_caps_def cap_get_def)
  have room: "1 \<le> room"
    using assms(1) unfolding room_def bs_def client_ok_def by (simp add: div_greater_zero_iff Suc_le_eq min_def FRAME_OVERHEAD_def)
  define extra where "extra = [''FLOW=1'', ''WINDOW='' @ str_of w] @ (if lz then [''LZ4=1''] else []) @ [''IDENTITY=1'']"
  have n: "negotiate ?caps s = (Inr extra, s1)"
    using room by (simp add: negotiate_def Let_def caps bs_def [symmetric] room_def [symmetric] w_def [symmetric]
        s1_def lz_def extra_def)
  have fields: "block_size s1 = bs" "window_size s1 = w" "lz4 s1 = lz" "flow s1" "identity s1" "cfg s1 = cfg s"
    by (simp_all add: s1_def)
  have "w * (bs + FRAME_OVERHEAD) \<le> receive_buffer c" unfolding w_def room_def by (rule window_fits)
  moreover have "1 \<le> bs" "bs \<le> c_max_block c" "1 \<le> w" "w \<le> c_window_limit c" "lz \<longrightarrow> c_lz4_enabled c"
    using assms room by (auto simp: bs_def w_def client_ok_def server_ok_def lz_def)
  moreover have "proposal_words s1 extra = (''BAUD='' @ str_of (baud (cfg s))) # tokens (answer_caps bs w lz)"
    by (simp add: proposal_words_def fields answer_caps_def cap_tokens [unfolded One_nat_def] extra_def)
  ultimately show ?thesis
    using n by (intro exI [of _ extra] exI [of _ s1]) (simp only: fields simp_thms)
qed

lemma answer_caps_fine:
  assumes "1 \<le> bs" "bs \<le> 1048576" "1 \<le> w" "w \<le> 1048576"
  shows "distinct (map fst (answer_caps bs w lz))"
    "\<forall>(k, n) \<in> set (answer_caps bs w lz). k \<in> known_keys \<and> 1 \<le> n \<and> n \<le> 1048576"
  using assms by (auto simp: answer_caps_def known_keys_def)

lemma read_answer_words:
  assumes "list_all word_ok ws" "head = [''HELLO'', PROTOCOL_VERSION, ''HRU?''] \<or> head = [''OHRU'', PROTOCOL_VERSION]"
    "options ws = Inr caps"
  shows "read_answer (unwords (head @ ws)) c = adopt caps c"
proof -
  have "split_ws (unwords (head @ ws)) = head @ ws"
    using assms(1,2) by (intro split_ws_unwords) (auto simp: greeting_word_ok)
  then show ?thesis using assms(2,3) by (auto simp: read_answer_def raise_for_err_def Let_def)
qed

lemma word_ok_baud: "word_ok (''BAUD='' @ str_of n)" "fst (partition_at CHR ''='' (''BAUD='' @ str_of n)) \<notin> known_keys"
proof -
  show "word_ok (''BAUD='' @ str_of n)"
    using word_ok_str_of [of n] by (auto simp: word_ok_def is_space_def)
  have "partition_at CHR ''='' (''BAUD'' @ CHR ''='' # str_of n) = (''BAUD'', True, str_of n)"
    by (rule partition_at_key) simp
  then show "fst (partition_at CHR ''='' (''BAUD='' @ str_of n)) \<notin> known_keys" by (simp add: known_keys_def)
qed

text \<open>C18: the two handshakes fit: the server accepts the offer of every properly configured client, the
  client accepts the server's answer, in its first form and in the repeated one, and both ends then
  hold the same block size, window, flow control, compression and identity settings.\<close>

theorem handshake_compatible:
  assumes "client_ok c" "server_ok s"
  shows "\<exists>caps extra s1 c1. options (drop 2 (split_ws (unwords (offer_words first c)))) = Inr caps
    \<and> negotiate caps s = (Inr extra, s1)
    \<and> read_answer (unwords (greeting_words (split_ws (unwords (offer_words first c))) (proposal_words s1 extra))) c
        = (Inr (block_size s1), c1)
    \<and> c_window_size c1 = window_size s1 \<and> c_flow c1 = flow s1 \<and> c_lz4 c1 = lz4 s1 \<and> c_identity c1 = identity s1"
proof -
  let ?caps = "map_of (offer_caps c)" and ?p = "offer_words first c"
  have o: "options (drop 2 ?p) = Inr ?caps"
    unfolding offer_words_tokens using options_tokens [OF offer_caps_fine [OF assms(1)]] by simp
  obtain extra s1 where n: "negotiate ?caps s = (Inr extra, s1)"
    and pw: "proposal_words s1 extra = (''BAUD='' @ str_of (baud (cfg s))) # tokens (answer_caps (block_size s1) (window_size s1) (lz4 s1))"
    and b: "1 \<le> block_size s1" "block_size s1 \<le> c_max_block c" "1 \<le> window_size s1" "window_size s1 \<le> c_window_limit c"
      "window_size s1 * (block_size s1 + FRAME_OVERHEAD) \<le> receive_buffer c"
      "flow s1" "identity s1" "lz4 s1 \<longrightarrow> c_lz4_enabled c"
    using negotiate_offer [OF assms] by blast
  let ?ans = "answer_caps (block_size s1) (window_size s1) (lz4 s1)"
  have fine: "distinct (map fst ?ans)" "\<forall>(k, n) \<in> set ?ans. k \<in> known_keys \<and> 1 \<le> n \<and> n \<le> 1048576"
    by (rule answer_caps_fine; use b assms(1) in \<open>simp add: client_ok_def const_defs\<close>)+
  have oa: "options (proposal_words s1 extra) = Inr (map_of ?ans)"
    unfolding pw options_junk [OF word_ok_baud(2)] by (rule options_tokens [OF fine])
  have ok: "list_all word_ok (proposal_words s1 extra)"
    unfolding pw list.pred_inject(2) using word_ok_baud(1) words_tokens [OF fine(2)] by blast
  define head where "head = (if first then [''HELLO'', PROTOCOL_VERSION, ''HRU?''] else [''OHRU'', PROTOCOL_VERSION])"
  have g: "greeting_words ?p (proposal_words s1 extra) = head @ proposal_words s1 extra"
    by (simp add: greeting_words_def ohru_def offer_words_def head_def)
  have r: "read_answer (unwords (greeting_words ?p (proposal_words s1 extra))) c = adopt (map_of ?ans) c"
    unfolding g by (rule read_answer_words [OF ok _ oa]) (simp add: head_def)
  obtain c1 where "adopt (map_of ?ans) c = (Inr (block_size s1), c1)" "c_window_size c1 = window_size s1"
    "c_flow c1" "c_lz4 c1 = lz4 s1" "c_identity c1"
    using b by (auto simp: adopt_def Let_def answer_caps_def cap_get_def)
  then show ?thesis using o n r b(6,7) split_offer [OF assms(1)] by auto
qed

lemma handshake_compatible_witness:
  "\<exists>caps extra s1 c1. options (drop 2 (split_ws (unwords (offer_words True (demo_client []))))) = Inr caps
    \<and> negotiate caps (demo_server []) = (Inr extra, s1)
    \<and> read_answer (unwords (greeting_words (split_ws (unwords (offer_words True (demo_client []))))
          (proposal_words s1 extra))) (demo_client []) = (Inr (block_size s1), c1)
    \<and> c_window_size c1 = window_size s1 \<and> c_flow c1 = flow s1 \<and> c_lz4 c1 = lz4 s1 \<and> c_identity c1 = identity s1"
  by (rule handshake_compatible)
    (simp_all add: client_ok_def demo_client_def client_init_def server_ok_def demo_server_def server_init_def
      keepalive_check_def default_keepalive_def const_defs Let_def)

end
