(* ===== verification/Delivery.thy ===== *)
theory Delivery
  imports WinProps RxProps
begin

text \<open>
  Both ends of a file: what \<open>send_file\<close> of \<open>server.py\<close> puts on the wire, read by \<open>get\<close> of
  \<open>client.py\<close>, arrives as the file.  The line is steady: it loses nothing and keeps up a byte per
  millisecond; how it cuts the bytes into pieces is open.
\<close>

subsection \<open>Lines of plain words\<close>

definition plain :: "string \<Rightarrow> bool" where
  "plain w \<longleftrightarrow> w \<noteq> [] \<and> list_all (\<lambda>c. 33 \<le> (of_char c :: nat) \<and> (of_char c :: nat) < 127) w"

lemma plain_char:
  assumes "33 \<le> (of_char c :: nat)" "(of_char c :: nat) < 127"
  shows "line_char c" "\<not> is_space c"
  using assms by (auto simp: line_char_def is_space_def Let_def)

lemma plain_word: "plain w \<Longrightarrow> word_ok w" "plain w \<Longrightarrow> list_all line_char w"
  by (auto simp: plain_def word_ok_def list_all_iff plain_char)

lemma plain_append: "list_all plain [a, b] \<Longrightarrow> plain (a @ b)"
  by (simp add: plain_def)

lemma plain_digit: "d < 10 \<Longrightarrow> plain [digit_char d]"
  by (auto simp: plain_def digit_char_def)

lemma plain_str_of: "plain (str_of n)"
proof (induction n rule: str_of.induct)
  case (1 n)
  then show ?case by (subst str_of.simps) (auto intro!: plain_append plain_digit)
qed

lemma plain_hex8: "plain (hex8 v)"
proof -
  have "list_all (\<lambda>d. plain [hex_digit d]) [0..<16]" by code_simp
  then have "plain [hex_digit d]" if "d < 16" for d using that by (simp add: list_all_iff)
  moreover have "hex8 v = map (\<lambda>i. hex_digit (unat v div 16 ^ i mod 16)) (rev [0..<8])"
    by (simp add: hex8_digits hex_digits_def)
  ultimately show ?thesis by (auto simp: plain_def list_all_iff)
qed

lemma plain_allowed: "w \<noteq> [] \<Longrightarrow> list_all allowed_char w \<Longrightarrow> plain w"
  by (auto simp: plain_def list_all_iff allowed_char_def Let_def)

lemma upper_hex8 [simp]: "upper (hex8 v) = hex8 v"
  using hex8_parse_hex(1) [OF parse_hex_hex8, of v] by (simp add: to_hex_def)

lemma line_blank: "line_char CHR '' ''"
  by (simp add: line_char_def)

lemma line_chars: "ws \<noteq> [] \<Longrightarrow> list_all plain ws \<Longrightarrow> list_all line_char (unwords ws)"
proof (induction ws)
  case (Cons w ws)
  then show ?case by (cases ws) (simp_all add: plain_word line_blank)
qed simp

lemma split_plain: "list_all plain ws \<Longrightarrow> split_ws (unwords ws) = ws"
  by (intro split_ws_unwords) (auto simp: list_all_iff plain_word)

lemma line_length: "list_all (\<lambda>w. length w < 72) ws \<Longrightarrow> length (unwords ws) \<le> 73 * length ws"
proof (induction ws)
  case (Cons w ws)
  then show ?case by (cases ws) simp_all
qed simp

subsection \<open>A steady line\<close>

definition fed :: "byte list \<Rightarrow> client \<Rightarrow> bool" where
  "fed B c \<longleftrightarrow> stream (c_link c) = B \<and> brisk_line 4096 (c_link c)"

lemma fed_update [simp]:
  "fed B (c\<lparr>files := f\<rparr>) = fed B c" "fed B (c\<lparr>disk := d\<rparr>) = fed B c" "fed B (c\<lparr>shown := g\<rparr>) = fed B c"
  by (simp_all add: fed_def)

lemma fed_say [simp]: "fed B (say ws c) = fed B c"
  by (simp add: fed_def say_def over_link_def stream_def brisk_line_def send_line_def t_write_def)

lemma hear_text:
  assumes "fed (encode_ascii (unwords ws) @ LF_byte # B) c" "list_all plain ws" "ws \<noteq> []"
    "list_all (\<lambda>w. length w < 72) ws" "length ws < 7" "\<not> keepalive_line ws" "5000 \<le> timeout"
  shows "\<exists>l. hear timeout c = (Inr (unwords ws), c\<lparr>c_link := l\<rparr>) \<and> fed B (c\<lparr>c_link := l\<rparr>)"
proof -
  let ?t = "unwords ws" and ?l = "c_link c"
  note t = text_of_encode [OF line_chars [OF assms(3,2)]]
  have len: "length ?t \<le> MAX_LINE_LEN \<and> length ?t \<le> 600"
    using line_length [OF assms(4)] assms(5) by (simp add: const_defs)
  have "int (arrival (Suc (length (encode_ascii ?t)) - length (buf ?l)) (script ?l)) < timeout"
    using brisk_arrival [of 4096 ?l "Suc (length (encode_ascii ?t)) - length (buf ?l)"] assms(1,7) len
    by (auto simp: fed_def)
  then obtain l where "recv_line timeout None False ?l = (Inr ?t, l)" "stream l = B" "brisk_line 4096 l"
    using recv_loop_framing [of ?l "encode_ascii ?t" B "clock ?l + timeout" "rl_init (clock ?l)"]
      assms(1,6) t len brisk_intact split_plain [OF assms(2)]
    by (auto simp: recv_line_def fed_def encode_ascii_def)
  then show ?thesis by (auto simp: hear_def fed_def)
qed

lemma take_payload:
  assumes "fed (p @ B) c" "length p \<le> 4096"
  shows "\<exists>l. recv_exact (length p) DATA_TIMEOUT (c_link c) = (Inr p, l) \<and> fed B (c\<lparr>c_link := l\<rparr>)"
proof -
  let ?l = "c_link c"
  have "int (arrival (length p - length (buf ?l)) (script ?l)) < DATA_TIMEOUT"
    using brisk_arrival [of 4096 ?l "length p - length (buf ?l)"] assms by (simp add: fed_def const_defs)
  then show ?thesis
    using recv_exact_framing [of "length p" ?l "clock ?l + DATA_TIMEOUT"] assms(1) brisk_intact
    by (auto simp: recv_exact_def fed_def)
qed

subsection \<open>A disk without errors\<close>

lemma disk_fine:
  assumes "disk c = []"
  shows "make_dir c = (Inr (), c)"
    "truncate_file n c = (Inr (), c\<lparr>files := (files c)(n \<mapsto> [])\<rparr>)"
    "append_file n bs c = (Inr (), c\<lparr>files := (files c)(n \<mapsto> (case files c n of None \<Rightarrow> [] | Some old \<Rightarrow> old) @ bs)\<rparr>)"
    "unlink_file n c = (Inr (), c\<lparr>files := (files c)(n := None)\<rparr>)"
    "files c n = Some bs \<Longrightarrow> replace_file n n' c = (Inr (), c\<lparr>files := (files c)(n' \<mapsto> bs, n := None)\<rparr>)"
  using assms
  by (simp_all add: make_dir_def truncate_file_def append_file_def unlink_file_def replace_file_def disk_result_def)

lemma disk_say [simp]: "disk (say ws c) = disk c" "c_lz4 (say ws c) = c_lz4 c" "c_flow (say ws c) = c_flow c"
  "peer_closing (say ws c) = peer_closing c" "free_space (say ws c) = free_space c" "c_max_block (say ws c) = c_max_block c"
  by (simp_all add: say_def over_link_def)

lemma rmb_fine:
  assumes "disk c = []"
  shows "\<exists>fs. write_rmb (name_rmb name) m st n r u c = (Inr (), c\<lparr>files := fs\<rparr>)
    \<and> fs (name_part name) = files c (name_part name)"
  using assms
  by (intro exI [of _ "(files c)(name_rmb name \<mapsto> encode_ascii (rmb_record m st n r u @ [LF]), name_rmb name @ ''.TMP'' := None)"])
    (simp add: write_rmb_def write_file_def disk_fine)

subsection \<open>One block\<close>

text \<open>The first \<open>i\<close> blocks are stored, and the client is able to take the next.\<close>

definition holds :: "server \<Rightarrow> byte list \<Rightarrow> string \<Rightarrow> nat \<Rightarrow> rx \<Rightarrow> client \<Rightarrow> bool" where
  "holds s d name i v c \<longleftrightarrow>
     (let content = take (i * block_size s) d
      in expected v = i \<and> running v = crc32 content 0 \<and> received v = length content
         \<and> files c (name_part name) = Some content \<and> disk c = [] \<and> (use_compression s \<longrightarrow> c_lz4 c))"

definition meta_for :: "server \<Rightarrow> byte list \<Rightarrow> meta \<Rightarrow> bool" where
  "meta_for s d m \<longleftrightarrow> m_size m = length d \<and> m_blocksize m = block_size s
     \<and> m_blocks m = block_count (length d) (block_size s) \<and> m_crc m = crc32_hex d 0"

lemma holds_update [simp]:
  "holds s d name i v (c\<lparr>c_link := l\<rparr>) = holds s d name i v c"
  "holds s d name i v (say ws c) = holds s d name i v c"
  "holds s d name i v (c\<lparr>shown := g\<rparr>) = holds s d name i v c"
  by (simp_all add: holds_def say_def over_link_def)

lemma take_next: "take (i * bs) d @ block_of d bs i = take (Suc i * bs) d"
  by (metis add.commute block_of_def mult_Suc take_add)

lemma length_block: "length (block_of d bs i) = min bs (length d - length (take (i * bs) d))"
  by (auto simp: block_of_def)

lemma store_fine:
  assumes "holds s d name i v c"
  shows "\<exists>v' c'. store_block m name i (block_of d (block_size s) i) v c = Again (v', c')
    \<and> holds s d name (Suc i) v' c' \<and> (\<forall>B. fed B c \<longrightarrow> fed B c') \<and> c_flow c' = c_flow c"
proof -
  let ?b = "block_of d (block_size s) i" and ?old = "take (i * block_size s) d"
  define v1 where "v1 = v\<lparr>running := crc32 ?b (running v), received := received v + length ?b, expected := expected v + 1, drops := 0\<rparr>"
  define c1 where "c1 = say [''ACK'', str_of i] (c\<lparr>files := (files c)(name_part name \<mapsto> ?old @ ?b)\<rparr>)"
  have h: "expected v = i" "running v = crc32 ?old 0" "received v = length ?old" "files c (name_part name) = Some ?old"
    "disk c = []" "use_compression s \<longrightarrow> c_lz4 c"
    using assms by (simp_all add: holds_def Let_def)
  have v1: "expected v1 = Suc i" "running v1 = crc32 (take (Suc i * block_size s) d) 0"
    "received v1 = length (take (Suc i * block_size s) d)"
    unfolding v1_def take_next [symmetric] by (simp_all add: h crc32_append)
  have c1: "files c1 (name_part name) = Some (take (Suc i * block_size s) d)" "disk c1 = []" "c_lz4 c1 = c_lz4 c"
    unfolding c1_def take_next by (simp_all add: h)
  have e: "store_block m name i ?b v c = after_rmb m v1
      (if expected v1 = m_blocks m \<or> expected v1 mod 8 = 0
       then write_rmb (name_rmb name) m ''ACTIVE'' (expected v1) (received v1) (running v1) c1 else (Inr (), c1))"
    by (simp add: store_block_def v1_def c1_def disk_fine h Let_def del: mod_Suc)
  obtain fs where fs: "write_rmb (name_rmb name) m ''ACTIVE'' (expected v1) (received v1) (running v1) c1 = (Inr (), c1\<lparr>files := fs\<rparr>)"
    "fs (name_part name) = files c1 (name_part name)"
    using rmb_fine [OF c1(2)] by blast
  define fs' where "fs' = (if expected v1 = m_blocks m \<or> expected v1 mod 8 = 0 then fs else files c1)"
  have "store_block m name i ?b v c = Again (v1, c1\<lparr>files := fs', shown := shown c1 @ [(received v1, m_size m)]\<rparr>)"
    unfolding e fs(1) by (simp add: fs'_def)
  moreover have "holds s d name (Suc i) v1 (c1\<lparr>files := fs', shown := shown c1 @ [(received v1, m_size m)]\<rparr>)"
    using v1 c1 h(6) fs(2) by (simp add: holds_def Let_def fs'_def)
  moreover have "fed B c \<longrightarrow> fed B (c1\<lparr>files := fs', shown := shown c1 @ [(received v1, m_size m)]\<rparr>)" for B
    by (simp add: c1_def)
  ultimately show ?thesis by (auto simp: c1_def)
qed

lemma data_line_fine:
  assumes h: "holds s d name i v c" and m: "meta_for s d m" and i: "i < m_blocks m" and bs: "block_size s \<le> MAX_BLOCK_SIZE"
    and f: "make_frame s d i = (t, p)" and fed: "fed (p @ B) c"
  shows "\<exists>v' c'. on_header m name t v c = Again (v', c') \<and> holds s d name (Suc i) v' c' \<and> fed B c' \<and> c_flow c' = c_flow c"
proof -
  let ?b = "block_of d (block_size s) i"
  have len: "length ?b = min (m_blocksize m) (m_size m - received v)"
    using h m by (simp add: length_block holds_def meta_for_def Let_def)
  have le: "length ?b \<le> m_blocksize m" using m by (simp add: block_of_length meta_for_def)
  have take: "take_block m name i (crc32_hex ?b 0) ?b v c1 = store_block m name i ?b v c1" for c1
    using len h by (simp add: take_block_def holds_def Let_def)
  have p4: "length p \<le> 4096"
    using f packed_block_Some(2) [OF _ bs, of d i] le block_of_length [of d "block_size s" i] bs
    by (fastforce simp: make_frame_def Let_def const_defs split: option.splits)
  obtain l where l: "recv_exact (length p) DATA_TIMEOUT (c_link c) = (Inr p, l)" "fed B (c\<lparr>c_link := l\<rparr>)"
    using take_payload [OF fed p4] by blast
  obtain v' c' where st: "store_block m name i ?b v (c\<lparr>c_link := l\<rparr>) = Again (v', c')"
    "holds s d name (Suc i) v' c'" "fed B c'" "c_flow c' = c_flow c"
    using store_fine [of s d name i v "c\<lparr>c_link := l\<rparr>" m] h l(2) by auto
  show ?thesis
  proof (cases "packed_block s d i")
    case None
    then have t: "t = data_header i ?b" "p = ?b" using f by (auto simp: make_frame_def Let_def)
    have w: "split_ws t = [''DATA'', str_of i, str_of (length ?b), crc32_hex ?b 0]"
      unfolding t data_header_def by (rule split_plain) (simp add: plain_str_of crc32_hex_def plain_hex8, simp add: plain_def)
    have ne: "t \<noteq> ''CLOSE''" using w by (auto simp: split_ws_word word_ok_def is_space_def)
    have "data_head m (split_ws t) c = Inr (i, length ?b, None, crc32_hex ?b 0)"
      unfolding w using i le by (simp add: data_head_def crc32_hex_def Let_def)
    then have "on_header m name t v c = Again (v', c')"
      using w ne l(1) st(1) take t(2) by (simp add: on_header_def recv_block_def Let_def)
    then show ?thesis using st by blast
  next
    case (Some q)
    then have t: "t = zdata_header i q ?b" "p = q" using f by (auto simp: make_frame_def Let_def)
    have w: "split_ws t = [''ZDATA'', str_of i, str_of (length q), str_of (length ?b), crc32_hex ?b 0]"
      unfolding t zdata_header_def by (rule split_plain) (simp add: plain_str_of crc32_hex_def plain_hex8, simp add: plain_def)
    have ne: "t \<noteq> ''CLOSE''" using w by (auto simp: split_ws_word word_ok_def is_space_def)
    have lz: "c_lz4 c" using Some h by (auto simp: packed_block_def holds_def Let_def split: if_splits)
    have "length q \<le> m_blocksize m" using packed_block_Some(2) [OF Some bs] le by simp
    then have "data_head m (split_ws t) c = Inr (i, length q, Some (length ?b), crc32_hex ?b 0)"
      unfolding w using i le lz by (simp add: data_head_def crc32_hex_def Let_def)
    then have "on_header m name t v c = Again (v', c')"
      using w ne l(1) st(1) take t(2) packed_block_Some(1) [OF Some bs] by (simp add: on_header_def recv_block_def Let_def)
    then show ?thesis using st by blast
  qed
qed

lemma short_number: "n < 100000000 \<Longrightarrow> length (str_of n) < 72"
  using length_str_of [of n 8] by simp

lemma frame_text:
  assumes "block_size s \<le> MAX_BLOCK_SIZE" "i < MAX_FILE_SIZE"
  shows "\<exists>ws. fst (make_frame s d i) = unwords ws \<and> list_all plain ws \<and> ws \<noteq> [] \<and> length ws < 7
    \<and> list_all (\<lambda>w. length w < 72) ws \<and> \<not> keepalive_line ws \<and> raise_for_err (unwords ws) = None"
proof -
  let ?b = "block_of d (block_size s) i"
  have b: "length ?b < 100000000" using assms(1) block_of_length [of d "block_size s" i] by (simp add: const_defs)
  have i: "i < 100000000" using assms(2) by (simp add: const_defs)
  have known: "plain ''DATA''" "plain ''ZDATA''" by (simp_all add: plain_def)
  have ok: "raise_for_err (unwords (w # ws)) = None" "\<not> keepalive_line (w # ws)"
    if "w \<in> {''DATA'', ''ZDATA''}" "list_all plain (w # ws)" for w ws
    using that split_plain [OF that(2)]
    by (auto simp: raise_for_err_def keepalive_line_def is_ping_def is_pong_def is_beacon_def is_marker_def
        simp del: unwords.simps)
  show ?thesis
  proof (cases "packed_block s d i")
    case None
    let ?ws = "[''DATA'', str_of i, str_of (length ?b), crc32_hex ?b 0]"
    have "list_all plain ?ws" by (simp add: known plain_str_of plain_hex8 crc32_hex_def)
    then show ?thesis
      using ok [of "''DATA''"] None short_number [OF b] short_number [OF i]
      by (intro exI [of _ ?ws]) (simp add: make_frame_def data_header_def Let_def crc32_hex_def del: unwords.simps)
  next
    case (Some q)
    let ?ws = "[''ZDATA'', str_of i, str_of (length q), str_of (length ?b), crc32_hex ?b 0]"
    have "list_all plain ?ws" by (simp add: known plain_str_of plain_hex8 crc32_hex_def)
    then show ?thesis
      using ok [of "''ZDATA''"] Some short_number [OF b] short_number [OF i]
        short_number [of "length q"] packed_block_Some(2) [OF Some assms(1)] b
      by (intro exI [of _ ?ws]) (simp add: make_frame_def zdata_header_def Let_def crc32_hex_def del: unwords.simps)
  qed
qed

lemma frame_step:
  assumes h: "holds s d name i v c" and m: "meta_for s d m" and i: "i < m_blocks m" "i < MAX_FILE_SIZE"
    and bs: "block_size s \<le> MAX_BLOCK_SIZE"
    and fed: "fed (wire_bytes (LineRaw (fst (make_frame s d i)) (snd (make_frame s d i))) @ B) c"
  shows "\<exists>v' c'. rx_pass m name (v, c) = Again (v', c') \<and> holds s d name (Suc i) v' c' \<and> fed B c'"
proof -
  obtain t p where f: "make_frame s d i = (t, p)" by force
  obtain ws where ws: "t = unwords ws" "list_all plain ws" "ws \<noteq> []" "length ws < 7" "list_all (\<lambda>w. length w < 72) ws"
    "\<not> keepalive_line ws" "raise_for_err t = None"
    using frame_text [OF bs i(2), of d] f by auto
  let ?T = "if c_flow c then RECOVERY_TIMEOUT else ACK_TIMEOUT * 2"
  have T: "5000 \<le> ?T" by (simp add: const_defs)
  obtain l where l: "hear ?T c = (Inr t, c\<lparr>c_link := l\<rparr>)" "fed (p @ B) (c\<lparr>c_link := l\<rparr>)"
    using hear_text [of ws "p @ B" c ?T] T fed f ws by auto
  obtain v' c' where "on_header m name t v (c\<lparr>c_link := l\<rparr>) = Again (v', c')" "holds s d name (Suc i) v' c'" "fed B c'"
    using data_line_fine [OF _ m i(1) bs f l(2), of name v] h by auto
  then show ?thesis using l(1) ws(7) by (simp add: rx_pass_def)
qed

subsection \<open>The whole file\<close>

definition frame_write :: "server \<Rightarrow> byte list \<Rightarrow> nat \<Rightarrow> tx_write" where
  "frame_write s d i = LineRaw (fst (make_frame s d i)) (snd (make_frame s d i))"

text \<open>What the server writes for a file, and its bytes.\<close>

definition file_writes :: "string \<Rightarrow> byte list \<Rightarrow> server \<Rightarrow> tx_write list" where
  "file_writes name d s =
     Line (unwords (meta_words name d (block_size s)))
     # map (frame_write s d) [0..<block_count (length d) (block_size s)]
     @ [Line (unwords [''DONE'', crc32_hex d 0])]"

definition file_stream :: "string \<Rightarrow> byte list \<Rightarrow> server \<Rightarrow> byte list" where
  "file_stream name d s = concat (map wire_bytes (file_writes name d s))"

definition done_bytes :: "byte list \<Rightarrow> byte list" where
  "done_bytes d = wire_bytes (Line (unwords [''DONE'', crc32_hex d 0]))"

lemma done_step:
  assumes h: "holds s d name (m_blocks m) v c" and fed: "fed (done_bytes d @ B) c"
  shows "\<exists>c'. rx_pass m name (v, c) = Leave (Inr (unwords [''DONE'', crc32_hex d 0], v), c')
    \<and> holds s d name (m_blocks m) v c' \<and> fed B c'"
proof -
  let ?ws = "[''DONE'', crc32_hex d 0]" and ?T = "if c_flow c then RECOVERY_TIMEOUT else ACK_TIMEOUT * 2"
  have p: "list_all plain ?ws" by (simp add: plain_hex8 crc32_hex_def, simp add: plain_def)
  have k: "\<not> keepalive_line ?ws" by (simp add: keepalive_line_def is_ping_def is_pong_def is_beacon_def is_marker_def)
  have T: "5000 \<le> ?T" by (simp add: const_defs)
  have len: "list_all (\<lambda>w. length w < 72) ?ws" by (simp add: crc32_hex_def)
  obtain l where l: "hear ?T c = (Inr (unwords ?ws), c\<lparr>c_link := l\<rparr>)" "fed B (c\<lparr>c_link := l\<rparr>)"
    using hear_text [OF _ p _ len _ k T, of B c] fed by (auto simp: done_bytes_def simp del: unwords.simps)
  have r: "raise_for_err (unwords ?ws) = None"
    unfolding raise_for_err_def split_plain [OF p] by simp
  have "on_header m name (unwords ?ws) v (c\<lparr>c_link := l\<rparr>) = Leave (Inr (unwords ?ws, v), c\<lparr>c_link := l\<rparr>)"
    using h unfolding on_header_def split_plain [OF p] by (simp add: holds_def Let_def del: unwords.simps)
  then show ?thesis using l r h by (simp add: rx_pass_def del: unwords.simps)
qed

lemma blocks_loop:
  assumes "holds s d name i v c" "meta_for s d m" "i + n = m_blocks m" "m_blocks m \<le> MAX_FILE_SIZE"
    "block_size s \<le> MAX_BLOCK_SIZE"
    "fed (concat (map wire_bytes (map (frame_write s d) [i..<i + n])) @ done_bytes d @ B) c"
  shows "\<exists>v' c'. rx_loop m name v c = (Inr (unwords [''DONE'', crc32_hex d 0], v'), c')
    \<and> holds s d name (m_blocks m) v' c' \<and> fed B c'"
  using assms
proof (induction n arbitrary: i v c)
  case 0
  then show ?case using done_step [of s d name m v c B] by (auto simp: rx_loop.simps [of m name v c] simp del: unwords.simps)
next
  case (Suc n)
  have e: "[i..<i + Suc n] = i # [Suc i..<Suc i + n]" by (simp add: upt_conv_Cons)
  have "fed (wire_bytes (LineRaw (fst (make_frame s d i)) (snd (make_frame s d i)))
      @ concat (map wire_bytes (map (frame_write s d) [Suc i..<Suc i + n])) @ done_bytes d @ B) c"
    using Suc.prems(6) unfolding e list.map concat.simps frame_write_def [of s d i] append_assoc .
  then obtain v1 c1 where p: "rx_pass m name (v, c) = Again (v1, c1)" "holds s d name (Suc i) v1 c1"
    "fed (concat (map wire_bytes (map (frame_write s d) [Suc i..<Suc i + n])) @ done_bytes d @ B) c1"
    using frame_step [OF Suc.prems(1,2) _ _ Suc.prems(5)] Suc.prems(3,4) by fastforce
  show ?case
    using Suc.IH [OF p(2) Suc.prems(2) _ Suc.prems(4,5) p(3)] Suc.prems(3) p(1) by (simp add: rx_loop.simps [of m name v c])
qed

lemma finish_fine:
  assumes h: "holds s d name (m_blocks m) v c" and m: "meta_for s d m" and bs: "1 \<le> block_size s"
  shows "\<exists>c'. finish_file m name (Inr (unwords [''DONE'', crc32_hex d 0], v), c) = (Inr (name, True), c')
    \<and> files c' name = Some d \<and> (\<forall>k \<in> own name. k \<noteq> name_rmb name @ ''.TMP'' \<longrightarrow> files c' k = None)
    \<and> (fed B c \<longrightarrow> fed B c') \<and> last (sent (c_link c')) = Line (unwords [''OK'', crc32_hex d 0])"
proof -
  let ?ws = "[''DONE'', crc32_hex d 0]"
  have p: "list_all plain ?ws" by (simp add: plain_hex8 crc32_hex_def, simp add: plain_def)
  have "length d \<le> m_blocks m * block_size s"
    using ceil_div_covers(1) [of "block_size s" "length d"] bs m by (auto simp: meta_for_def block_count_def max_def intro: order_trans)
  then have t: "take (m_blocks m * block_size s) d = d" by simp
  note h' = h [unfolded holds_def Let_def t]
  let ?c1 = "say [''OK'', crc32_hex d 0] c"
  have r: "replace_file (name_part name) name ?c1
      = (Inr (), ?c1\<lparr>files := (files ?c1)(name \<mapsto> d, name_part name := None)\<rparr>)"
    by (rule disk_fine(5)) (use h' in simp_all)
  have "finish_file m name (Inr (unwords ?ws, v), c)
    = (Inr (name, True), ?c1\<lparr>files := (files ?c1)(name \<mapsto> d, name_part name := None, name_rmb name := None)\<rparr>)"
    using h' m r unfolding finish_file.simps split_plain [OF p] Let_def
    by (simp add: meta_for_def crc32_hex_def [symmetric] disk_fine del: unwords.simps)
       (simp add: crc32_hex_def)
  then show ?thesis by (simp add: own_def del: unwords.simps)
qed

lemma start_fine:
  assumes "disk c = []" "use_compression s \<longrightarrow> c_lz4 c"
  shows "\<exists>c'. start_file m name c = (Inr (), c') \<and> holds s d name 0 rx_init c' \<and> (fed B c \<longrightarrow> fed B c')"
proof -
  let ?c1 = "say [''READY''] c"
  have dk: "disk ?c1 = []" using assms(1) by simp
  obtain fs where fs: "say_ready m name c = (Inr (), ?c1\<lparr>files := fs\<rparr>)"
    using rmb_fine [OF dk] unfolding say_ready_def by blast
  have "start_file m name c = (Inr (), ?c1\<lparr>files := fs(name_part name \<mapsto> [])\<rparr>)"
    by (simp add: start_file_def disk_fine assms(1) fs del: unwords.simps)
  then show ?thesis using assms by (simp add: holds_def Let_def rx_init_def)
qed

lemma block_count_small:
  assumes "1 \<le> bs" "n \<le> MAX_FILE_SIZE"
  shows "block_count n bs \<le> MAX_FILE_SIZE"
proof -
  have "ceil_div n bs * bs < n + bs" using ceil_div_covers(2) [of bs n] assms(1) by simp
  moreover have "n + bs \<le> ceil_div n bs * bs" if "n < ceil_div n bs"
  proof -
    have "Suc n * bs \<le> ceil_div n bs * bs" using that by (intro mult_le_mono1) simp
    moreover have "n \<le> n * bs" using mult_le_mono2 [OF assms(1), of n] by (simp only: mult_1_right)
    ultimately show ?thesis by (simp only: mult_Suc)
  qed
  ultimately have "ceil_div n bs \<le> n" by (meson not_le)
  then show ?thesis using assms(2) by (simp add: block_count_def const_defs)
qed

lemma receive_fine:
  assumes m: "meta_for s d m" "m_filename m = name" "sanitize_filename name = Inr name"
    and bs: "1 \<le> block_size s" "block_size s \<le> c_max_block c" "c_max_block c \<le> MAX_BLOCK_SIZE"
    and d: "length d \<le> MAX_FILE_SIZE" "\<forall>room. free_space c = Some room \<longrightarrow> length d \<le> room"
    and c: "disk c = []" "use_compression s \<longrightarrow> c_lz4 c"
    and f: "fed (concat (map wire_bytes (map (frame_write s d) [0..<m_blocks m])) @ done_bytes d @ B) c"
  shows "\<exists>c'. receive m c = (Inr (name, True), c') \<and> files c' name = Some d
    \<and> files c' (name_part name) = None \<and> files c' (name_rmb name) = None \<and> fed B c'
    \<and> last (sent (c_link c')) = Line (unwords [''OK'', crc32_hex d 0])"
proof -
  obtain c1 where c1: "start_file m name c = (Inr (), c1)" "holds s d name 0 rx_init c1"
    "fed (concat (map wire_bytes (map (frame_write s d) [0..<0 + m_blocks m])) @ done_bytes d @ B) c1"
    using start_fine [OF c, of m name] f by fastforce
  have small: "m_blocks m \<le> MAX_FILE_SIZE" "block_size s \<le> MAX_BLOCK_SIZE"
    using block_count_small [OF bs(1) d(1)] m(1) bs by (simp_all add: meta_for_def)
  obtain v c2 where r: "rx_loop m name rx_init c1 = (Inr (unwords [''DONE'', crc32_hex d 0], v), c2)"
    "holds s d name (m_blocks m) v c2" "fed B c2"
    using blocks_loop [OF c1(2) m(1) _ small c1(3)] by auto
  obtain c3 where e: "finish_file m name (Inr (unwords [''DONE'', crc32_hex d 0], v), c2) = (Inr (name, True), c3)"
    "files c3 name = Some d" "\<forall>k \<in> own name. k \<noteq> name_rmb name @ ''.TMP'' \<longrightarrow> files c3 k = None" "fed B c3"
    "last (sent (c_link c3)) = Line (unwords [''OK'', crc32_hex d 0])"
    using finish_fine [OF r(2) m(1) bs(1), of B] r(3) by blast
  have h: "parse_hex (m_crc m) = Inr (uint (crc32 d 0))" using m(1) by (simp add: meta_for_def crc32_hex_def parse_hex_hex8)
  have room: "\<not> (case free_space c of None \<Rightarrow> False | Some room \<Rightarrow> m_size m > room)"
    using d(2) m(1) by (cases "free_space c") (simp_all add: not_less meta_for_def)
  have "receive m c = (Inr (name, True), c3)"
    using m bs d(1) h room c1(1) r(1) e(1)
    by (simp add: receive_def meta_for_def block_count_def crc32_hex_def [symmetric] del: unwords.simps finish_file.simps)
  then show ?thesis using e by (intro exI [of _ c3]) (simp add: own_def del: unwords.simps)
qed

subsection \<open>META\<close>

lemma meta_text:
  assumes "sanitize_filename name = Inr name" "word_ok name" "length d \<le> MAX_FILE_SIZE"
    "1 \<le> bs" "bs \<le> MAX_BLOCK_SIZE"
  shows "list_all plain (meta_words name d bs)" "list_all (\<lambda>w. length w < 72) (meta_words name d bs)"
proof -
  have n: "list_all allowed_char name" "name \<noteq> []" "length name < 72"
    using sanitize_word_allowed(1) [OF assms(2,1)] assms(1,2) by (auto simp: sanitize_Inr_iff word_ok_def const_defs)
  have b: "length d < 100000000" "bs < 100000000" "block_count (length d) bs < 100000000"
    using assms(3-5) block_count_small [OF assms(4,3)] by (simp_all add: const_defs)
  show "list_all (\<lambda>w. length w < 72) (meta_words name d bs)"
    using n(3) b [THEN short_number] by (simp add: meta_words_def crc32_hex_def)
  show "list_all plain (meta_words name d bs)"
    using n(1,2) by (simp add: meta_words_def plain_str_of plain_hex8 plain_allowed crc32_hex_def) (simp add: plain_def)
qed

lemma parse_meta_words:
  assumes "sanitize_filename name = Inr name" "list_all plain (meta_words name d bs)"
  shows "parse_meta (unwords (meta_words name d bs)) =
    Inr \<lparr>m_filename = name, m_size = length d, m_blocksize = bs, m_blocks = block_count (length d) bs, m_crc = crc32_hex d 0\<rparr>"
  unfolding parse_meta_def split_plain [OF assms(2)]
  by (simp add: meta_words_def assms(1) crc32_hex_def parse_hex_hex8)

lemma recv_meta_fine:
  assumes n: "sanitize_filename name = Inr name" "word_ok name" "length d \<le> MAX_FILE_SIZE"
    "1 \<le> bs" "bs \<le> MAX_BLOCK_SIZE"
    and f: "fed (wire_bytes (Line ''FETCHING'') @ wire_bytes (Line (unwords (meta_words name d bs))) @ B) c" "5000 \<le> timeout"
  shows "\<exists>l. recv_meta timeout c =
    (Inr \<lparr>m_filename = name, m_size = length d, m_blocksize = bs, m_blocks = block_count (length d) bs, m_crc = crc32_hex d 0\<rparr>,
     c\<lparr>c_link := l\<rparr>) \<and> fed B (c\<lparr>c_link := l\<rparr>)"
proof -
  let ?ws = "meta_words name d bs"
  note p = meta_text [OF n]
  have k: "\<not> keepalive_line ?ws" "?ws \<noteq> []" "length ?ws < 7" "raise_for_err (unwords ?ws) = None" "unwords ?ws \<noteq> ''FETCHING''"
  proof -
    show "\<not> keepalive_line ?ws" "?ws \<noteq> []" "length ?ws < 7"
      by (simp_all add: meta_words_def keepalive_line_def is_ping_def is_pong_def is_beacon_def is_marker_def)
    show "raise_for_err (unwords ?ws) = None"
      unfolding raise_for_err_def split_plain [OF p(1)] by (simp add: meta_words_def)
    show "unwords ?ws \<noteq> ''FETCHING''" by (simp add: meta_words_def)
  qed
  have w: "list_all plain [''FETCHING'']" "list_all (\<lambda>w. length w < 72) [''FETCHING'']" "\<not> keepalive_line [''FETCHING'']"
    "raise_for_err ''FETCHING'' = None"
    by (simp_all add: plain_def keepalive_line_def is_ping_def is_pong_def is_beacon_def is_marker_def raise_for_err_def
        split_ws_word word_ok_def is_space_def Let_def)
  let ?R = "wire_bytes (Line (unwords ?ws)) @ B"
  obtain l1 where l1: "hear timeout c = (Inr ''FETCHING'', c\<lparr>c_link := l1\<rparr>)" "fed ?R (c\<lparr>c_link := l1\<rparr>)"
    using hear_text [OF _ w(1) _ w(2) _ w(3) f(2), of ?R c] f(1) by auto
  have T: "5000 \<le> FETCH_TIMEOUT" by (simp add: const_defs)
  obtain l2 where l2: "hear FETCH_TIMEOUT (c\<lparr>c_link := l1\<rparr>) = (Inr (unwords ?ws), c\<lparr>c_link := l2\<rparr>)" "fed B (c\<lparr>c_link := l2\<rparr>)"
    using hear_text [OF _ p(1) k(2) p(2) k(3,1) T, of B "c\<lparr>c_link := l1\<rparr>"] l1(2) by auto
  show ?thesis
    using l1 l2 w(4) k(4,5) parse_meta_words [OF n(1) p(1)] by (intro exI [of _ l2]) (simp add: recv_meta_def)
qed

text \<open>C1: on a steady line a download succeeds: the client that asks for a file and gets what the server
  writes for it, with any block size both allow, packed blocks included, and cut into pieces in any
  way, stores exactly the server's bytes under the name, removes its own files, confirms the
  checksum, and consumes exactly the answer.\<close>

theorem transfer_delivers:
  assumes "1 \<le> block_size s" "block_size s \<le> c_max_block c" "c_max_block c \<le> MAX_BLOCK_SIZE"
    and "use_compression s \<longrightarrow> c_lz4 c"
    and "length d \<le> MAX_FILE_SIZE" "\<forall>room. free_space c = Some room \<longrightarrow> length d \<le> room"
    and "sanitize_filename name = Inr name" "word_ok name" "\<not> peer_closing c" "disk c = []" "5000 \<le> timeout"
    and "stream (c_link c) = wire_bytes (Line ''FETCHING'') @ file_stream name d s @ rest"
    and "brisk_line 4096 (c_link c)"
  shows "\<exists>c'. get name url timeout c = (Inr (name, True), c') \<and> files c' name = Some d
    \<and> files c' (name_part name) = None \<and> files c' (name_rmb name) = None \<and> stream (c_link c') = rest
    \<and> last (sent (c_link c')) = Line (unwords [''OK'', crc32_hex d 0])"
proof -
  let ?m = "\<lparr>m_filename = name, m_size = length d, m_blocksize = block_size s,
    m_blocks = block_count (length d) (block_size s), m_crc = crc32_hex d 0\<rparr>"
  let ?c = "say [''GET'', name, url] c"
  let ?B = "concat (map wire_bytes (map (frame_write s d) [0..<m_blocks ?m])) @ done_bytes d @ rest"
  have fed: "fed (wire_bytes (Line ''FETCHING'') @ wire_bytes (Line (unwords (meta_words name d (block_size s)))) @ ?B) ?c"
    unfolding fed_say using assms(12,13)
    by (simp add: fed_def file_stream_def file_writes_def done_bytes_def del: unwords.simps)
  have bs: "block_size s \<le> MAX_BLOCK_SIZE" using assms(2,3) by simp
  obtain l where l: "recv_meta timeout ?c = (Inr ?m, ?c\<lparr>c_link := l\<rparr>)" "fed ?B (?c\<lparr>c_link := l\<rparr>)"
    using recv_meta_fine [OF assms(7,8,5,1) bs fed assms(11)] by blast
  have m: "meta_for s d ?m" "m_filename ?m = name" by (simp_all add: meta_for_def)
  obtain c' where "receive ?m (?c\<lparr>c_link := l\<rparr>) = (Inr (name, True), c')" "files c' name = Some d"
    "files c' (name_part name) = None" "files c' (name_rmb name) = None" "fed rest c'"
    "last (sent (c_link c')) = Line (unwords [''OK'', crc32_hex d 0])"
    using receive_fine [OF m assms(7,1) _ _ assms(5) _ _ _ l(2)] assms by (auto simp del: unwords.simps)
  then show ?thesis using l(1) assms(9) by (auto simp: get_def fed_def simp del: unwords.simps)
qed

definition demo_sender :: server where
  "demo_sender = (demo_server [])\<lparr>block_size := 2\<rparr>"

definition demo_answer :: "byte list" where
  "demo_answer = wire_bytes (Line ''FETCHING'') @ file_stream ''A'' [1, 2, 3] demo_sender"

lemma demo_answer_length: "length demo_answer = 84"
  by code_simp

lemma transfer_delivers_witness:
  "\<exists>c'. get ''A'' ''http://a/b'' 6000 (demo_client [Bytes 9 (take 41 demo_answer), Bytes 12 (drop 41 demo_answer)])
      = (Inr (''A'', True), c') \<and> files c' ''A'' = Some [1, 2, 3]"
proof -
  let ?c = "demo_client [Bytes 9 (take 41 demo_answer), Bytes 12 (drop 41 demo_answer)]"
  have s: "block_size demo_sender = 2" "\<not> use_compression demo_sender"
    by (simp_all add: demo_sender_def demo_server_def server_init_def keepalive_check_def default_keepalive_def const_defs Let_def)
  have c: "c_link ?c = fresh_link [Bytes 9 (take 41 demo_answer), Bytes 12 (drop 41 demo_answer)]"
    "c_max_block ?c = 4096" "free_space ?c = None" "\<not> peer_closing ?c" "disk ?c = []"
    by (simp_all add: demo_client_def client_init_def const_defs)
  have n: "sanitize_filename ''A'' = Inr ''A''" by code_simp
  have "stream (c_link ?c) = wire_bytes (Line ''FETCHING'') @ file_stream ''A'' [1, 2, 3] demo_sender @ []"
    unfolding c by (simp add: stream_def fresh_link_def script_bytes_def demo_answer_def)
  moreover have "brisk_line 4096 (c_link ?c)"
    unfolding c by (simp add: brisk_line_def fresh_link_def demo_answer_length)
  ultimately show ?thesis
    using transfer_delivers [of demo_sender ?c "[1, 2, 3]" "''A''" 6000 "[]" "''http://a/b''"] s c n
    by (auto simp: const_defs word_ok_def is_space_def)
qed

end
