(* ===== verification/Fetcher.thy ===== *)
theory Fetcher
  imports Session
begin

text \<open>
  \<open>fetcher.py\<close>: the download for a \<open>GET\<close>, with its checks of the URL, of every redirect, of the size
  and of the time.  What the network answers is a script, as for the serial line: redirects, then a
  response whose body comes in pieces, each after some time, or an exception.  The rules of the
  standard library that decide the outcome are written out: \<open>urlparse\<close> as far as scheme and host, and
  the redirect limits of \<open>HTTPRedirectHandler\<close>.  Whether a host in brackets is an address is the
  parameter \<open>bracketed\<close>.
\<close>

subsection \<open>The URL\<close>

definition lower :: "string \<Rightarrow> string" where
  "lower s = map (\<lambda>c. let n = of_char c :: nat in if 65 \<le> n \<and> n \<le> 90 then char_of (n + 32) else c) s"

definition is_letter :: "char \<Rightarrow> bool" where
  "is_letter c \<longleftrightarrow> (let n = of_char c :: nat in 65 \<le> n \<and> n \<le> 90 \<or> 97 \<le> n \<and> n \<le> 122)"

definition scheme_char :: "char \<Rightarrow> bool" where
  "scheme_char c \<longleftrightarrow> is_letter c \<or> is_digit c \<or> c \<in> set ''+-.''"

text \<open>Leading control characters and blanks, and tabs and line ends anywhere, are dropped.\<close>

definition url_chars :: "string \<Rightarrow> string" where
  "url_chars url = filter (\<lambda>c. c \<notin> {CHR 0x09, CHR 0x0A, CHR 0x0D}) (dropWhile (\<lambda>c. (of_char c :: nat) \<le> 32) url)"

definition url_scheme :: "string \<Rightarrow> string \<times> string" where
  "url_scheme u =
     (let s = takeWhile (\<lambda>c. c \<noteq> CHR '':'') u in
      if s \<noteq> [] \<and> s \<noteq> u \<and> is_letter (hd s) \<and> list_all scheme_char s
      then (lower s, drop (length s + 1) u) else ([], u))"

definition url_host :: "string \<Rightarrow> string" where
  "url_host r = (if take 2 r = ''//'' then takeWhile (\<lambda>c. c \<notin> set ''/?#'') (drop 2 r) else [])"

definition urlparse :: "(string \<Rightarrow> bool) \<Rightarrow> string \<Rightarrow> exn + string \<times> string" where
  "urlparse bracketed url =
     (let (scheme, rest) = url_scheme (url_chars url); host = url_host rest;
          left = CHR ''['' \<in> set host; right = CHR '']'' \<in> set host
      in if left \<noteq> right \<or> left \<and> right \<and> \<not> bracketed host then Inl ValueErr else Inr (scheme, host))"

definition ALLOWED_SCHEMES :: "string list" where
  "ALLOWED_SCHEMES = [''http'', ''https'']"

definition validate_url :: "(string \<Rightarrow> bool) \<Rightarrow> string \<Rightarrow> exn + string" where
  "validate_url bracketed url =
     (case urlparse bracketed url of
        Inl e \<Rightarrow> Inl e
      | Inr (scheme, host) \<Rightarrow>
          if lower scheme \<notin> set ALLOWED_SCHEMES then Inl (error UrlError)
          else if host = [] then Inl (error UrlError)
          else Inr url)"

subsection \<open>The network\<close>

datatype net_fault =
    TimedOut        \<comment> \<open>\<open>TimeoutError\<close>\<close>
  | Status nat      \<comment> \<open>\<open>HTTPError\<close> with this code\<close>
  | Unresolved      \<comment> \<open>\<open>URLError\<close> whose reason is a \<open>gaierror\<close>\<close>
  | Unreachable     \<comment> \<open>another \<open>URLError\<close>\<close>
  | Reset           \<comment> \<open>another \<open>OSError\<close>, such as \<open>ConnectionResetError\<close>\<close>
  | BadAnswer       \<comment> \<open>an \<open>HTTPException\<close>, such as \<open>InvalidURL\<close>\<close>

datatype raised = Net_fault net_fault | Exn exn

type_synonym pieces = "(nat \<times> (net_fault + byte list)) list"

datatype answer =
    Refused net_fault
  | Redirect nat string answer      \<comment> \<open>the status, and where to\<close>
  | Response "string option" pieces \<comment> \<open>the \<open>Content-Length\<close> header, and the body\<close>

type_synonym network = "string \<Rightarrow> nat \<times> answer" \<comment> \<open>how long opening takes, and the answer\<close>

definition MAX_REDIRECTS :: nat where [const_defs]: "MAX_REDIRECTS = 5"

text \<open>\<open>http_error_302\<close> with the handler of \<open>fetcher.py\<close>; \<open>visited\<close> are the targets so far.\<close>

fun follow ::
  "(string \<Rightarrow> bool) \<Rightarrow> string list \<Rightarrow> string \<Rightarrow> answer \<Rightarrow> raised + string \<times> string option \<times> pieces" where
  "follow bracketed visited url (Refused f) = Inl (Net_fault f)"
| "follow bracketed visited url (Response declared body) = Inr (url, declared, body)"
| "follow bracketed visited url (Redirect code target a) =
     (case urlparse bracketed target of
        Inl e \<Rightarrow> Inl (Exn e)
      | Inr (scheme, host) \<Rightarrow>
          if scheme \<notin> {''http'', ''https'', ''ftp'', ''''} then Inl (Net_fault (Status code))
          else case validate_url bracketed target of
            Inl e \<Rightarrow> Inl (Exn e)
          | Inr _ \<Rightarrow>
              if length (filter ((=) target) visited) \<ge> MAX_REDIRECTS \<or> length (remdups visited) \<ge> MAX_REDIRECTS
              then Inl (Net_fault (Status code))
              else follow bracketed (target # visited) target a)"

text \<open>\<open>response.read(n)\<close>: at most \<open>n\<close> bytes, none at the end.\<close>

fun read_piece :: "nat \<Rightarrow> pieces \<Rightarrow> nat \<times> (net_fault + byte list) \<times> pieces" where
  "read_piece n [] = (0, Inr [], [])"
| "read_piece n ((ms, Inl f) # ps) = (ms, Inl f, ps)"
| "read_piece n ((ms, Inr bs) # ps) =
     (if length bs \<le> n then (ms, Inr bs, ps) else (ms, Inr (take n bs), (0, Inr (drop n bs)) # ps))"

lemma read_piece_length: "read_piece n ps = (ms, Inr chunk, ps') \<Longrightarrow> length chunk \<le> n"
  by (induction n ps rule: read_piece.induct) (auto split: if_splits)

text \<open>The reading loop; \<open>now\<close> is the time since the start of the download.\<close>

function read_body ::
  "nat \<Rightarrow> nat \<Rightarrow> byte list \<Rightarrow> nat \<Rightarrow> pieces \<Rightarrow> (net_fault + byte list) \<times> nat" where
  "read_body max_size timeout data now ps =
     (if length data \<le> max_size then
        if timeout \<le> now then (Inl TimedOut, now)
        else case read_piece (min 65536 (max_size + 1 - length data)) ps of
          (ms, Inl f, ps') \<Rightarrow> (Inl f, now + ms)
        | (ms, Inr chunk, ps') \<Rightarrow>
            if chunk = [] then (Inr data, now + ms)
            else read_body max_size timeout (data @ chunk) (now + ms) ps'
      else (Inr data, now))"
  by pat_completeness auto

termination read_body
  by (relation "measure (\<lambda>(max_size, timeout, data, now, ps). Suc max_size - length data)")
    (auto intro!: diff_less_mono2)

declare read_body.simps [simp del]

subsection \<open>The download\<close>

text \<open>\<open>str.isdigit\<close> also holds of the superscripts, which \<open>int\<close> refuses.\<close>

definition isdigit :: "string \<Rightarrow> bool" where
  "isdigit s \<longleftrightarrow> s \<noteq> [] \<and> list_all (\<lambda>c. is_digit c \<or> c \<in> {CHR 0xB2, CHR 0xB3, CHR 0xB9}) s"

fun check_declared :: "string option \<Rightarrow> nat \<Rightarrow> exn + unit" where
  "check_declared None max_size = Inr ()"
| "check_declared (Some t) max_size =
     (if isdigit t then
        if \<not> isdecimal t then Inl ValueErr
        else if int_of t > max_size then Inl (error SizeError) else Inr ()
      else Inr ())"

record fetched =
  f_data :: "byte list"
  f_url :: string

text \<open>The exception handlers.\<close>

fun net_exn :: "raised \<Rightarrow> exn" where
  "net_exn (Exn e) = e"
| "net_exn (Net_fault TimedOut) = mk_error HttpError None ''timeout''"
| "net_exn (Net_fault (Status code)) = mk_error HttpError None (str_of code)"
| "net_exn (Net_fault Unresolved) = error DnsError"
| "net_exn (Net_fault Unreachable) = error HttpError"
| "net_exn (Net_fault Reset) = OSErr"
| "net_exn (Net_fault BadAnswer) = HttpException"

fun after_body :: "nat \<Rightarrow> nat \<Rightarrow> string \<Rightarrow> (net_fault + byte list) \<times> nat \<Rightarrow> (exn + fetched) \<times> nat" where
  "after_body max_size timeout url (Inl f, now) = (Inl (net_exn (Net_fault f)), now)"
| "after_body max_size timeout url (Inr data, now) =
     (if now > timeout then (Inl (net_exn (Net_fault TimedOut)), now)
      else if length data > max_size then (Inl (error SizeError), now)
      else (Inr \<lparr>f_data = data, f_url = url\<rparr>, now))"

fun after_connect ::
  "nat \<Rightarrow> nat \<Rightarrow> nat \<Rightarrow> raised + string \<times> string option \<times> pieces \<Rightarrow> (exn + fetched) \<times> nat" where
  "after_connect max_size timeout now (Inl r) = (Inl (net_exn r), now)"
| "after_connect max_size timeout now (Inr (url, declared, body)) =
     (case check_declared declared max_size of
        Inl e \<Rightarrow> (Inl e, now)
      | Inr _ \<Rightarrow> after_body max_size timeout url (read_body max_size timeout [] now body))"

definition fetch :: "(string \<Rightarrow> bool) \<Rightarrow> network \<Rightarrow> string \<Rightarrow> nat \<Rightarrow> nat \<Rightarrow> (exn + fetched) \<times> nat" where
  "fetch bracketed net url max_size timeout =
     (case validate_url bracketed url of
        Inl e \<Rightarrow> (Inl e, 0)
      | Inr _ \<Rightarrow> after_connect max_size timeout (fst (net url)) (follow bracketed [] url (snd (net url))))"

text \<open>What the server calls: \<open>self.fetcher(url, max_size=...)\<close> with the default timeout.\<close>

fun fetched_data :: "(exn + fetched) \<times> nat \<Rightarrow> (exn + byte list) \<times> nat" where
  "fetched_data (Inl e, ms) = (Inl e, ms)"
| "fetched_data (Inr f, ms) = (Inr (f_data f), ms)"

definition web :: "(string \<Rightarrow> bool) \<Rightarrow> network \<Rightarrow> fetcher" where
  "web bracketed net url max_size = fetched_data (fetch bracketed net url max_size (nat HTTP_TIMEOUT))"

subsection \<open>What a download is\<close>

text \<open>The bytes of a body, up to the first empty read or fault.\<close>

fun body_bytes :: "pieces \<Rightarrow> byte list" where
  "body_bytes [] = []"
| "body_bytes ((ms, Inl f) # ps) = []"
| "body_bytes ((ms, Inr bs) # ps) = (if bs = [] then [] else bs @ body_bytes ps)"

fun hops :: "answer \<Rightarrow> string list" where
  "hops (Redirect code target a) = target # hops a"
| "hops _ = []"

fun final_response :: "answer \<Rightarrow> (string option \<times> pieces) option" where
  "final_response (Refused f) = None"
| "final_response (Redirect code target a) = final_response a"
| "final_response (Response declared body) = Some (declared, body)"

definition web_url :: "(string \<Rightarrow> bool) \<Rightarrow> string \<Rightarrow> bool" where
  "web_url bracketed url \<longleftrightarrow>
     (\<exists>scheme host. urlparse bracketed url = Inr (scheme, host) \<and> lower scheme \<in> set ALLOWED_SCHEMES \<and> host \<noteq> [])"

lemma validate_Inr: "validate_url bracketed url = Inr u \<longleftrightarrow> u = url \<and> web_url bracketed url"
  by (auto simp: validate_url_def web_url_def split: sum.splits prod.splits)

lemma validate_Inl: "validate_url bracketed url = Inl e \<Longrightarrow> e = ValueErr \<or> e = error UrlError"
  by (auto simp: validate_url_def urlparse_def Let_def split: sum.splits prod.splits if_splits)

lemma read_piece_body:
  assumes "read_piece n ps = (ms, Inr chunk, ps')" "1 \<le> n"
  shows "body_bytes ps = (if chunk = [] then [] else chunk @ body_bytes ps')"
  using assms by (induction n ps rule: read_piece.induct) (auto split: if_splits)

lemma read_body_take:
  assumes "read_body max_size timeout data now ps = (Inr d, t)" "length data \<le> Suc max_size"
  shows "d = take (Suc max_size) (data @ body_bytes ps) \<and> now \<le> t"
  using assms
proof (induction max_size timeout data now ps rule: read_body.induct)
  case (1 max_size timeout data now ps)
  show ?case
  proof (cases "length data \<le> max_size")
    case le: True
    let ?n = "min 65536 (max_size + 1 - length data)"
    obtain ms x ps' where rp: "read_piece ?n ps = (ms, x, ps')" by (cases "read_piece ?n ps") auto
    have go: "\<not> timeout \<le> now" using 1(2) le by (auto simp: read_body.simps [of max_size timeout data])
    have n: "1 \<le> ?n" using le by simp
    show ?thesis
    proof (cases x)
      case (Inl f)
      then show ?thesis using 1(2) le go rp by (simp add: read_body.simps [of max_size timeout data])
    next
      case (Inr chunk)
      note b = read_piece_body [OF rp [unfolded Inr] n]
      show ?thesis
      proof (cases "chunk = []")
        case True
        then show ?thesis using 1(2) le go rp Inr b by (auto simp: read_body.simps [of max_size timeout data])
      next
        case False
        have "read_body max_size timeout (data @ chunk) (now + ms) ps' = (Inr d, t)"
          using 1(2) le go rp Inr False by (simp add: read_body.simps [of max_size timeout data])
        moreover have "length (data @ chunk) \<le> Suc max_size"
          using read_piece_length [OF rp [unfolded Inr]] le by auto
        ultimately show ?thesis using 1(1) [OF le go rp [symmetric] refl Inr False] False b by simp
      qed
    qed
  next
    case False
    then show ?thesis using 1(2,3) by (simp add: read_body.simps [of max_size timeout data])
  qed
qed

lemma follow_Inr:
  "follow bracketed visited url a = Inr (final, declared, body) \<Longrightarrow> web_url bracketed url \<Longrightarrow>
     web_url bracketed final \<and> list_all (web_url bracketed) (hops a) \<and> final_response a = Some (declared, body)"
  by (induction bracketed visited url a rule: follow.induct)
    (auto simp: validate_Inr split: sum.splits prod.splits if_splits)

lemma follow_limit:
  assumes "follow bracketed visited url a = Inr r" "length (remdups visited) \<le> MAX_REDIRECTS"
  shows "length (remdups (rev (hops a) @ visited)) \<le> MAX_REDIRECTS"
  using assms
proof (induction bracketed visited url a rule: follow.induct)
  case (3 bracketed visited url code target a)
  then have "follow bracketed (target # visited) target a = Inr r" "length (remdups visited) < MAX_REDIRECTS"
    by (auto split: sum.splits prod.splits if_splits)
  then show ?case using 3 by (auto split: sum.splits prod.splits if_splits)
qed auto

definition net_class :: "exn \<Rightarrow> bool" where
  "net_class e \<longleftrightarrow> (\<exists>c detail. e = mk_error c None detail \<and> c \<in> {UrlError, HttpError, DnsError, SizeError})"

definition stray :: "exn \<Rightarrow> bool" where
  "stray e \<longleftrightarrow> e \<in> {OSErr, ValueErr, HttpException}"

lemma net_exn_class: "net_class (net_exn (Net_fault f)) \<or> stray (net_exn (Net_fault f))"
  by (cases f) (auto simp: net_class_def stray_def)

lemma net_class_errors [simp]:
  "net_class (error UrlError)" "net_class (error HttpError)" "net_class (error DnsError)" "net_class (error SizeError)"
  by (auto simp: net_class_def)

lemma follow_Inl: "follow bracketed visited url a = Inl (Exn e) \<Longrightarrow> e = ValueErr \<or> e = error UrlError"
  by (induction bracketed visited url a rule: follow.induct)
    (auto simp: urlparse_def Let_def dest: validate_Inl split: sum.splits prod.splits if_splits)

lemma declared_Inl: "check_declared d n = Inl e \<Longrightarrow> e = ValueErr \<or> e = error SizeError"
  by (cases "(d, n)" rule: check_declared.cases) (auto split: if_splits)

subsection \<open>Properties\<close>


definition demo_net :: network where
  "demo_net url = (40, Redirect 302 ''https://b/y'' (Response (Some ''3'') [(5, Inr [1, 2]), (7, Inr [3])]))"

lemma demo_fetch: "fetch (\<lambda>_. False) demo_net ''http://a/x'' 10 30000 = (Inr \<lparr>f_data = [1, 2, 3], f_url = ''https://b/y''\<rparr>, 52)"
  by code_simp




end
