(* ===== verification/Daemon.thy ===== *)
theory Daemon
  imports Fetcher "HOL-Library.Char_ord" "HOL-Library.List_Lexorder"
begin

text \<open>
  \<open>daemon.py\<close>: the control socket, the console with its progress bar, the choice of the port, the
  wait for a port that has gone, and the loop of \<open>run_serial\<close> that starts one session after the
  other.  The operating system is a parameter: what the device list shows, from when on the path of
  the port exists, and what opening it at a given time gives.  The loop ends only by Ctrl-C, so it
  is a step and its iterations; Ctrl-C is taken to come between two sessions.  Log lines are left out
  except those of \<open>Console\<close> itself.
\<close>

subsection \<open>The control socket\<close>

definition strip :: "string \<Rightarrow> string" where
  "strip s = rev (dropWhile is_space (rev (dropWhile is_space s)))"

text \<open>\<open>commands\<close>: the datagrams waiting, at most 64 bytes of each.\<close>

definition commands :: "byte list list \<Rightarrow> string list" where
  "commands datagrams = map (\<lambda>d. upper (strip (decode_ascii (take 64 d)))) datagrams"

subsection \<open>The console\<close>

record console =
  show_bar :: bool
  bar :: string
  last_at :: msec
  last_bytes :: nat
  printed :: "string list"

definition clear_line :: string where
  "clear_line = [CHR 0x0D, CHR 0x1B] @ ''[K''"

definition print_text :: "string \<Rightarrow> console \<Rightarrow> console" where
  "print_text t c = c\<lparr>printed := printed c @ [t]\<rparr>"

definition console_log :: "string \<Rightarrow> console \<Rightarrow> console" where
  "console_log t c =
     (if bar c = [] then print_text (t @ [LF]) c
      else print_text (bar c) (print_text (clear_line @ t @ [LF]) c))"

definition percent :: "nat \<Rightarrow> nat \<Rightarrow> nat" where
  "percent ready sz = (if sz = 0 then 100 else ready * 100 div sz)"

definition hashes :: "nat \<Rightarrow> string" where
  "hashes filled = replicate filled CHR ''#'' @ replicate (20 - filled) CHR ''-''"

definition pad3 :: "string \<Rightarrow> string" where
  "pad3 s = replicate (3 - length s) CHR '' '' @ s"

definition bar_text :: "nat \<Rightarrow> nat \<Rightarrow> string" where
  "bar_text ready sz =
     (let pct = percent ready sz; filled = pct * 20 div 100
      in ''['' @ hashes filled @ ''] '' @ pad3 (str_of pct) @ ''%  '' @ str_of ready @ '' / '' @ str_of sz @ '' bytes'')"

definition console_progress :: "msec \<Rightarrow> nat \<Rightarrow> nat \<Rightarrow> console \<Rightarrow> console" where
  "console_progress now ready sz c =
     (if \<not> show_bar c then c
      else if ready \<noteq> sz \<and> int ready - int (last_bytes c) < 65536 \<and> now - last_at c < 250 then c
      else let c1 = c\<lparr>last_at := now, last_bytes := ready, bar := bar_text ready sz\<rparr>
           in print_text (CHR 0x0D # bar c1) c1)"

definition console_done :: "string \<Rightarrow> console \<Rightarrow> console" where
  "console_done t c =
     print_text (t @ [LF])
       (if bar c = [] then c else (print_text [LF] c)\<lparr>bar := [], last_at := 0, last_bytes := 0\<rparr>)"

subsection \<open>The port\<close>

record device =
  dev_path :: string
  vid :: "nat option"
  description :: "string option"

definition usb_ports :: "(string \<Rightarrow> string) \<Rightarrow> string list \<Rightarrow> device list \<Rightarrow> (string \<times> string) list" where
  "usb_ports resolve links comports =
     map (\<lambda>p. (case find (\<lambda>x. resolve x = resolve (dev_path p)) links of Some x \<Rightarrow> x | None \<Rightarrow> dev_path p,
               case description p of Some t \<Rightarrow> if t = [] then ''USB serial'' else t | None \<Rightarrow> ''USB serial''))
       (filter (\<lambda>p. vid p \<noteq> None) (sort_key dev_path comports))"

text \<open>\<open>None\<close>: the program exits with a message.\<close>

definition resolve_port :: "string \<Rightarrow> (string \<times> string) list \<Rightarrow> string option" where
  "resolve_port requested found =
     (if requested \<noteq> ''auto'' then Some requested
      else case found of [(path, desc)] \<Rightarrow> Some path | _ \<Rightarrow> None)"

definition run_ports :: "(string \<times> string) list \<Rightarrow> nat \<times> string list" where
  "run_ports found =
     (if found = [] then (1, [''no USB serial adapters attached''])
      else (0, map (\<lambda>(path, desc). path @ [LF] @ ''  '' @ desc) found))"

definition RECONNECT_INTERVAL :: nat where [const_defs]: "RECONNECT_INTERVAL = 1000"
definition RECONNECT_SETTLE :: nat where [const_defs]: "RECONNECT_SETTLE = 200"
definition LINK_LOST_THRESHOLD :: nat where [const_defs]: "LINK_LOST_THRESHOLD = 2"

text \<open>\<open>wait_for_port\<close> polls; without a deadline it may wait for ever.\<close>

partial_function (option) wait_for_port ::
  "(msec \<Rightarrow> bool) \<Rightarrow> nat \<Rightarrow> msec option \<Rightarrow> msec \<Rightarrow> (bool \<times> msec) option" where
  "wait_for_port present pause deadline now =
     (if present now then Some (True, now)
      else if (case deadline of None \<Rightarrow> False | Some d \<Rightarrow> d \<le> now) then Some (False, now)
      else wait_for_port present pause deadline (now + int pause))"

text \<open>What the operating system does with the port: the path exists or not, and opening it gives a
  device with a script of its own, or fails.\<close>

record usb =
  present :: "msec \<Rightarrow> bool"
  opens :: "msec \<Rightarrow> ev list option"

definition splice :: "ev list \<Rightarrow> msec \<Rightarrow> lnk \<Rightarrow> lnk" where
  "splice es now l = discard_input (l\<lparr>clock := now, script := es\<rparr>)"

partial_function (option) reconnect ::
  "usb \<Rightarrow> (msec \<Rightarrow> (bool \<times> msec) option) \<Rightarrow> msec \<Rightarrow> lnk \<Rightarrow> ((exn + unit) \<times> lnk) option" where
  "reconnect u wait now l =
     (case wait now of
        None \<Rightarrow> None
      | Some (found, t) \<Rightarrow>
          if \<not> found then Some (Inl (error TimeoutErr), l\<lparr>clock := t\<rparr>)
          else case opens u (t + int RECONNECT_SETTLE) of
            None \<Rightarrow> reconnect u wait (t + int RECONNECT_SETTLE + int RECONNECT_INTERVAL) l
          | Some es \<Rightarrow> Some (Inr (), splice es (t + int RECONNECT_SETTLE) l))"

definition reconnect_port :: "usb \<Rightarrow> lnk \<Rightarrow> ((exn + unit) \<times> lnk) option" where
  "reconnect_port u l = reconnect u (wait_for_port (present u) RECONNECT_INTERVAL None) (clock l) l"

subsection \<open>The loop of \<open>run_serial\<close>\<close>

record daemon =
  srv :: server
  lost_streak :: nat

type_synonym daemon_result = "(daemon, exn \<times> daemon) pass option"

definition drained :: "server \<Rightarrow> server" where
  "drained s = on_link discard_input s"

fun reconnected :: "server \<Rightarrow> nat \<Rightarrow> ((exn + unit) \<times> lnk) option \<Rightarrow> daemon_result" where
  "reconnected s n None = None"
| "reconnected s n (Some (Inl e, l)) = Some (Leave (e, \<lparr>srv = on_link (\<lambda>_. l) s, lost_streak = n\<rparr>))"
| "reconnected s n (Some (Inr _, l)) = Some (Again \<lparr>srv = on_link (\<lambda>_. l) s, lost_streak = n\<rparr>)"

fun after_session :: "usb \<Rightarrow> nat \<Rightarrow> (exn + unit) \<times> server \<Rightarrow> daemon_result" where
  "after_session u n (Inr _, s) = Some (Again \<lparr>srv = s, lost_streak = 0\<rparr>)"
| "after_session u n (Inl e, s) =
     (if e = OSErr then reconnected s 0 (reconnect_port u (link s))
      else if is_class LinkLostError e \<or> is_class TimeoutErr e then
        if n + 1 < LINK_LOST_THRESHOLD then Some (Again \<lparr>srv = drained s, lost_streak = n + 1\<rparr>)
        else reconnected s (n + 1) (reconnect_port u (link s))
      else if is_pcutp e then Some (Again \<lparr>srv = drained s, lost_streak = n\<rparr>)
      else Some (Leave (e, \<lparr>srv = s, lost_streak = n\<rparr>)))"

definition serial_pass :: "usb \<Rightarrow> fetcher \<Rightarrow> msec \<Rightarrow> daemon \<Rightarrow> daemon_result" where
  "serial_pass u getter idle_timeout d =
     after_session u (lost_streak d) (serve_once getter idle_timeout True (srv d))"

text \<open>The first \<open>n\<close> sessions, and Ctrl-C after them.\<close>

fun serial_loop :: "nat \<Rightarrow> usb \<Rightarrow> fetcher \<Rightarrow> msec \<Rightarrow> daemon \<Rightarrow> daemon_result" where
  "serial_loop 0 u getter idle_timeout d = Some (Again d)"
| "serial_loop (Suc n) u getter idle_timeout d =
     (case serial_pass u getter idle_timeout d of
        Some (Again d1) \<Rightarrow> serial_loop n u getter idle_timeout d1
      | stopped \<Rightarrow> stopped)"

definition interrupted :: "daemon \<Rightarrow> (exn + nat) \<times> server" where
  "interrupted d = (case shutdown (srv d) of (Inl e, s) \<Rightarrow> (Inl e, s) | (Inr _, s) \<Rightarrow> (Inr 0, s))"

text \<open>What \<open>report\<close> says of a transfer.\<close>

definition report_text :: "transfer_result \<Rightarrow> string" where
  "report_text t =
     t_filename t @ '': '' @ str_of (t_size t) @ '' bytes in '' @ str_of (t_blocks t) @ '' blocks, ''
     @ str_of (t_retransmits t) @ '' retransmit(s), '' @ (if t_verified t then ''verified'' else ''CRC MISMATCH'')"

text \<open>The file of the self test.\<close>

definition selftest_payload :: "nat \<Rightarrow> byte list" where
  "selftest_payload sz = map (\<lambda>i. word_of_nat ((i * 7 + 3) mod 256)) [0..<sz]"

subsection \<open>Waiting for the port\<close>

lemma wait_for_port_finds:
  "(\<And>j. j < k \<Longrightarrow> \<not> there (now + int j * int pause)) \<Longrightarrow> there (now + int k * int pause) \<Longrightarrow>
     wait_for_port there pause None now = Some (True, now + int k * int pause)"
proof (induction k arbitrary: now)
  case 0
  then show ?case by (simp add: wait_for_port.simps)
next
  case (Suc k)
  have e: "(now + int pause) + int j * int pause = now + int (Suc j) * int pause" for j by (simp add: algebra_simps)
  have "\<not> there now" using Suc.prems(1) [of 0] by simp
  moreover have "wait_for_port there pause None (now + int pause) = Some (True, now + int (Suc k) * int pause)"
    using Suc.IH [of "now + int pause"] Suc.prems unfolding e by (metis Suc_less_eq)
  ultimately show ?case by (simp add: wait_for_port.simps [of there pause None now])
qed

lemma wait_for_port_result: "wait_for_port there pause d now = Some r \<Longrightarrow> d = None \<longrightarrow> fst r"
proof (erule wait_for_port.raw_induct [where P = "\<lambda>there pause d now r. d = None \<longrightarrow> fst r", rotated])
  fix f :: "(msec \<Rightarrow> bool) \<Rightarrow> nat \<Rightarrow> msec option \<Rightarrow> msec \<Rightarrow> (bool \<times> msec) option" and there pause d now r
  assume IH: "\<And>there pause d now r. f there pause d now = Some r \<Longrightarrow> d = None \<longrightarrow> fst r"
    and "(if there now then Some (True, now) else if (case d of None \<Rightarrow> False | Some d \<Rightarrow> d \<le> now) then Some (False, now)
          else f there pause d (now + int pause)) = Some r"
  then show "d = None \<longrightarrow> fst r" using IH by (auto split: if_splits)
qed

lemma wait_for_port_None: "wait_for_port there pause None now = Some (found, t) \<Longrightarrow> found"
  using wait_for_port_result by fastforce

definition finds :: "(msec \<Rightarrow> (bool \<times> msec) option) \<Rightarrow> bool" where
  "finds wait \<longleftrightarrow> (\<forall>t r. wait t = Some r \<longrightarrow> fst r)"

lemma reconnect_result: "reconnect u wait now l = Some z \<Longrightarrow> finds wait \<longrightarrow> fst z = Inr ()"
proof (erule reconnect.raw_induct [where P = "\<lambda>u wait now l z. finds wait \<longrightarrow> fst z = Inr ()", rotated], goal_cases)
  case (1 f u wait now l z)
  show ?case
  proof
    assume w: "finds wait"
    obtain t where t: "wait now = Some (True, t)"
      using 1(2) w by (cases "wait now") (auto simp: finds_def)
    show "fst z = Inr ()"
    proof (cases "opens u (t + int RECONNECT_SETTLE)")
      case None
      then show ?thesis using 1(1) [of u wait _ l z] 1(2) t w by simp
    next
      case (Some es)
      then show ?thesis using 1(2) t by auto
    qed
  qed
qed

lemma reconnect_port_Inr: "reconnect_port u l = Some (r, l') \<Longrightarrow> r = Inr ()"
  using reconnect_result by (fastforce simp: reconnect_port_def finds_def dest: wait_for_port_None)

lemma wait_for_port_later:
  assumes "\<And>t. T \<le> t \<Longrightarrow> there t" "1 \<le> pause"
  shows "\<exists>k. wait_for_port there pause None now = Some (True, now + int k * int pause)
    \<and> now + int k * int pause \<le> max now (T + int pause)"
proof -
  let ?at = "\<lambda>k. now + int k * int pause"
  have "T \<le> ?at (nat (T - now))"
  proof (cases "now \<le> T")
    case True
    have "(T - now) * 1 \<le> (T - now) * int pause" using True assms(2) by (intro mult_left_mono) simp_all
    then show ?thesis using True by simp
  qed simp
  then have ex: "there (?at (nat (T - now)))" by (rule assms(1))
  define k where "k = (LEAST k. there (?at k))"
  have k: "there (?at k)" "\<And>j. j < k \<Longrightarrow> \<not> there (?at j)"
    unfolding k_def by (rule LeastI [of "\<lambda>k. there (?at k)", OF ex], rule not_less_Least)
  have "?at k \<le> max now (T + int pause)"
  proof (cases k)
    case (Suc j)
    then have "\<not> T \<le> ?at j" using k(2) [of j] assms(1) by blast
    then show ?thesis using Suc by (simp add: algebra_simps)
  qed simp
  then show ?thesis using wait_for_port_finds [of k there now pause] k by blast
qed

lemma reconnect_eventually:
  assumes u: "\<And>t. T \<le> t \<Longrightarrow> present u t \<and> opens u t \<noteq> None"
  shows "\<exists>es t. reconnect u (wait_for_port (present u) RECONNECT_INTERVAL None) now l = Some (Inr (), splice es t l)
    \<and> opens u t = Some es \<and> now \<le> t \<and> t \<le> max (now + 200) (T + 1200)"
proof (induction "nat (T - now)" arbitrary: now rule: less_induct)
  case less
  let ?w = "wait_for_port (present u) RECONNECT_INTERVAL None"
  obtain t where t: "?w now = Some (True, t)" "now \<le> t" "t \<le> max now (T + 1000)"
    using wait_for_port_later [of T "present u" RECONNECT_INTERVAL now] u by (auto simp: const_defs)
  show ?case
  proof (cases "opens u (t + 200)")
    case (Some es)
    then have "reconnect u ?w now l = Some (Inr (), splice es (t + 200) l)"
      using t(1) by (simp add: reconnect.simps [of u ?w now] RECONNECT_SETTLE_def)
    then show ?thesis using Some t(2,3) by (intro exI [of _ es] exI [of _ "t + 200"]) simp
  next
    case None
    then have lt: "t + 200 < T" using u [of "t + 200"] by force
    then obtain es t2 where "reconnect u ?w (t + 1200) l = Some (Inr (), splice es t2 l)" "opens u t2 = Some es"
      "t + 1200 \<le> t2" "t2 \<le> max (t + 1400) (T + 1200)"
      using less [of "t + 1200"] t(2) by auto
    moreover have "reconnect u ?w now l = reconnect u ?w (t + 1200) l"
    proof -
      have v: "t + int RECONNECT_SETTLE + int RECONNECT_INTERVAL = t + 1200" by (simp add: const_defs)
      have "opens u (t + int RECONNECT_SETTLE) = None" using None by (simp add: const_defs)
      then have "reconnect u ?w now l = reconnect u ?w (t + int RECONNECT_SETTLE + int RECONNECT_INTERVAL) l"
        using t(1) by (simp add: reconnect.simps [of u ?w now])
      then show ?thesis unfolding v .
    qed
    ultimately show ?thesis using t lt by (intro exI [of _ es] exI [of _ t2]) simp
  qed
qed

subsection \<open>Properties\<close>


definition demo_usb :: usb where
  "demo_usb = \<lparr>present = (\<lambda>t. 3000 \<le> t), opens = (\<lambda>t. if 3500 \<le> t then Some [Bytes 0 [0, 7]] else None)\<rparr>"



text \<open>A session with a request for a malformed URL.\<close>

definition doomed :: daemon_result where
  "doomed = serial_loop 1 demo_usb (web (\<lambda>_. False) demo_net) 30000
     \<lparr>srv = demo_server [Bytes 20 (line_bytes [demo_hello, ''HRU'', ''IAM 0 TYPE=PYTHON'', ''GET A http://[1/x''])],
      lost_streak = 0\<rparr>"

lemma doomed_run: "case doomed of Some (Leave (e, d)) \<Rightarrow> e = ValueErr | _ \<Rightarrow> False"
  by code_simp


lemma handle_get_stray:
  assumes "sanitize_filename name = Inr n" "word_ok name" "word_ok url" "stray e"
    and "getter url (max_file_size (cfg s)) = (Inl e, ms)"
  shows "\<exists>s'. handle_get getter (unwords [''GET'', name, url]) s = (Inl e, s')
    \<and> sent (link s') = sent (link s) @ [Line ''FETCHING'']"
proof -
  have "split_ws (unwords [''GET'', name, url]) = [''GET'', name, url]"
    by (rule split_ws_unwords) (use assms(2,3) in \<open>simp add: word_ok_def is_space_def\<close>)
  moreover have "\<not> is_pcutp e" "unwords [''FETCHING''] = ''FETCHING''" using assms(4) by (auto simp: stray_def)
  ultimately show ?thesis
    using assms(1,5) by (simp add: handle_get_def get_failed_def spend_def tune_def on_link_def link_ops del: unwords.simps)
qed

text \<open>C10: three kinds of exceptions of a download slip through: when \<open>fetch\<close> raises one, the client that
  asked gets no \<open>ERR\<close> line after \<open>FETCHING\<close>, an \<open>OSError\<close>, which is a connection that the web server
  broke, makes the daemon wait for the serial port as if its cable had been pulled, and the other two,
  which a malformed URL in the request is enough for, end the daemon.\<close>

theorem stray_exceptions_escape:
  assumes "sanitize_filename name = Inr n" "word_ok name" "word_ok url" "stray e"
    and "web bracketed net url (max_file_size (cfg s)) = (Inl e, ms)"
  shows "\<exists>s'. handle_get (web bracketed net) (unwords [''GET'', name, url]) s = (Inl e, s')
    \<and> sent (link s') = sent (link s) @ [Line ''FETCHING'']
    \<and> after_session u k (Inl e, s') =
        (if e = OSErr then reconnected s' 0 (reconnect_port u (link s'))
         else Some (Leave (e, \<lparr>srv = s', lost_streak = k\<rparr>)))"
  using handle_get_stray [where getter = "web bracketed net", OF assms] assms(4) by (auto simp: stray_def simp del: unwords.simps)

lemma stray_exceptions_escape_witness:
  "\<exists>s'. handle_get (web (\<lambda>_. False) demo_net) ''GET A http://[1/x'' (demo_server []) = (Inl ValueErr, s')
    \<and> after_session demo_usb 0 (Inl ValueErr, s') = Some (Leave (ValueErr, \<lparr>srv = s', lost_streak = 0\<rparr>))"
proof -
  have "sanitize_filename ''A'' = Inr ''A''" by code_simp
  moreover have "fetch (\<lambda>_. False) demo_net ''http://[1/x'' n t = (Inl ValueErr, 0)" for n t
  proof -
    have "validate_url (\<lambda>_. False) ''http://[1/x'' = Inl ValueErr" by code_simp
    then show ?thesis by (simp add: fetch_def)
  qed
  ultimately show ?thesis
    using stray_exceptions_escape [of "''A''" "''A''" "''http://[1/x''" ValueErr "\<lambda>_. False" demo_net "demo_server []" 0 demo_usb 0]
    by (fastforce simp: web_def stray_def word_ok_def is_space_def)
qed

text \<open>C35: one lost link is forgiven, a second one in a row is taken for a pulled cable; the count goes on
  over the reconnect, so that the first loss on the new port already counts as the next in the row.\<close>

theorem losses_in_a_row:
  assumes "is_class LinkLostError e \<or> is_class TimeoutErr e"
  shows "after_session u 0 (Inl e, s) = Some (Again \<lparr>srv = drained s, lost_streak = 1\<rparr>)
    \<and> (1 \<le> n \<longrightarrow> after_session u n (Inl e, s) = reconnected s (n + 1) (reconnect_port u (link s))
        \<and> (\<forall>d. after_session u n (Inl e, s) = Some (Again d) \<longrightarrow> 2 \<le> lost_streak d
            \<and> (\<exists>l. reconnect_port u (link s) = Some (Inr (), l) \<and> srv d = on_link (\<lambda>_. l) s)))"
proof -
  have e: "e \<noteq> OSErr" using assms by auto
  have r: "reconnected s (n + 1) q = Some (Again d) \<Longrightarrow> q = reconnect_port u (link s) \<Longrightarrow> 2 \<le> n + 1 \<Longrightarrow>
      2 \<le> lost_streak d \<and> (\<exists>l. reconnect_port u (link s) = Some (Inr (), l) \<and> srv d = on_link (\<lambda>_. l) s)" for q d
    by (cases "(s, n + 1, q)" rule: reconnected.cases) auto
  show ?thesis using assms e r by (auto simp: const_defs)
qed

lemma losses_in_a_row_witness:
  "after_session demo_usb 0 (Inl (error LinkLostError), demo_server [])
    = Some (Again \<lparr>srv = drained (demo_server []), lost_streak = 1\<rparr>)"
  using losses_in_a_row [of "error LinkLostError" demo_usb "demo_server []" 1] by simp

text \<open>The progress bar: never longer than its twenty places, full only at the end, and the last thing on the
  screen while it is shown.\<close>

theorem progress_bar_fits:
  assumes "ready \<le> sz"
  shows "percent ready sz \<le> 100 \<and> length (hashes (percent ready sz * 20 div 100)) = 20
    \<and> (0 < sz \<longrightarrow> (percent ready sz = 100 \<longleftrightarrow> ready = sz))"
proof (cases "sz = 0")
  case False
  have "ready * 100 div sz \<le> sz * 100 div sz" using assms by (intro div_le_mono) simp
  then have p: "ready * 100 div sz \<le> 100" using False by simp
  moreover have "ready * 100 div sz = 100 \<longleftrightarrow> ready = sz"
  proof
    assume "ready * 100 div sz = 100"
    then have "100 * sz \<le> ready * 100" using div_times_less_eq_dividend [of "ready * 100" sz] by simp
    then show "ready = sz" using assms by simp
  qed (use False in simp)
  moreover have "ready * 100 div sz * 20 div 100 \<le> 20" using p by simp
  ultimately show ?thesis using False by (simp add: percent_def hashes_def)
qed (simp add: percent_def hashes_def)

lemma bar_stays_last:
  "bar c \<noteq> [] \<Longrightarrow> last (printed (console_log t c)) = bar c"
  "show_bar c \<Longrightarrow> last (printed (console_progress now sz sz c)) = CHR 0x0D # bar_text sz sz"
  "bar (console_done t c) = []"
  by (simp_all add: console_log_def console_progress_def console_done_def print_text_def Let_def)

end
