(* ===== verification/Settings.thy ===== *)
theory Settings
  imports Daemon Handshake
begin

text \<open>
  The settings of a server stay within their types: what \<open>__init__\<close> checks holds for ever, whatever
  the peers send, in every session and across every reconnect.
\<close>

definition server_wf :: "server \<Rightarrow> bool" where
  "server_wf s \<longleftrightarrow> server_ok s
     \<and> 1 \<le> block_size s \<and> block_size s \<le> MAX_BLOCK_SIZE
     \<and> 1 \<le> negotiated_block_limit s \<and> negotiated_block_limit s \<le> MAX_BLOCK_SIZE
     \<and> 1 \<le> window_size s \<and> window_size s \<le> MAX_WINDOW"

text \<open>The fields it speaks of.\<close>

definition same_sizes :: "server \<Rightarrow> server \<Rightarrow> bool" where
  "same_sizes s s' \<longleftrightarrow> cfg s' = cfg s \<and> block_size s' = block_size s
     \<and> negotiated_block_limit s' = negotiated_block_limit s \<and> window_size s' = window_size s"

lemma same_sizes_wf: "same_sizes s s' \<Longrightarrow> server_wf s \<Longrightarrow> server_wf s'"
  by (simp add: same_sizes_def server_wf_def server_ok_def)

lemma keeps_sizes: "keeps s s' \<Longrightarrow> same_sizes s s'"
  by (simp add: keeps_def frame_def same_sizes_def)

lemma only_link_wf: "only_link s s' \<Longrightarrow> server_wf s \<Longrightarrow> server_wf s'"
  by (rule same_sizes_wf [OF keeps_sizes [OF only_link_keeps]])

lemma keeps_wf: "keeps s s' \<Longrightarrow> server_wf s \<Longrightarrow> server_wf s'"
  by (rule same_sizes_wf [OF keeps_sizes])

lemma wf_update [simp]:
  "server_wf (s\<lparr>pending := p\<rparr>) = server_wf s" "server_wf (s\<lparr>link := l\<rparr>) = server_wf s"
  "server_wf (s\<lparr>transfer_active := b\<rparr>) = server_wf s" "server_wf (s\<lparr>raw_write_active := b\<rparr>) = server_wf s"
  "server_wf (s\<lparr>results := rs\<rparr>) = server_wf s"
  by (simp_all add: server_wf_def server_ok_def)

lemma wf_on_link [simp]: "server_wf (on_link f s) = server_wf s" "server_wf (put ws s) = server_wf s"
  "server_wf (fail e s) = server_wf s" "server_wf (hs_sound n s) = server_wf s"
  "server_wf (tune g s) = server_wf s" "server_wf (spend ms s) = server_wf s"
  by (simp_all add: server_wf_def server_ok_def link_ops on_link_def tune_def spend_def)

subsection \<open>Handshake\<close>

lemma negotiate_wf:
  assumes "negotiate caps s = (r, s')" "server_wf s" "options ts = Inr caps"
  shows "server_wf s'"
proof -
  have get: "1 \<le> cap_get caps k n" if "1 \<le> n" for k n
    using options_range [OF assms(3), of k] that by (auto simp: cap_get_def split: option.split)
  define bs where "bs = min (block_limit (cfg s)) (cap_get caps ''MAXBLK'' (block_limit (cfg s)))"
  have bs: "1 \<le> bs" "bs \<le> MAX_BLOCK_SIZE"
    using assms(2) get [of "block_limit (cfg s)" "''MAXBLK''"] by (auto simp: bs_def server_wf_def server_ok_def)
  define s1 where "s1 = s\<lparr>block_size := bs, negotiated_block_limit := bs, flow := (caps ''FLOW'' = Some 1),
    lz4 := caps ''FLOW'' = Some 1 \<and> compression_enabled (cfg s) \<and> caps ''LZ4'' = Some 1,
    identity := caps ''IDENTITY'' = Some 1, window_size := 1\<rparr>"
  define room where "room = cap_get caps ''RXBUF'' 0 div (bs + FRAME_OVERHEAD)"
  define w where "w = min (min (window_limit (cfg s)) (cap_get caps ''WINDOW'' 1)) room"
  note e = assms(1) [unfolded negotiate_def Let_def, folded bs_def, folded s1_def, folded room_def, folded w_def]
  consider "s' = s1" | "1 \<le> room" "s' = s1\<lparr>window_size := w\<rparr>"
    using e by (cases "caps ''FLOW'' = Some 1"; cases "room < 1") simp_all
  then show ?thesis
  proof cases
    case 1
    then show ?thesis using bs assms(2) by (simp add: s1_def server_wf_def server_ok_def MAX_WINDOW_def)
  next
    case 2
    have "1 \<le> w" "w \<le> MAX_WINDOW"
      using 2(1) get [of 1 "''WINDOW''"] assms(2) by (auto simp: w_def server_wf_def server_ok_def)
    then show ?thesis using bs assms(2) by (simp add: 2(2) s1_def server_wf_def server_ok_def)
  qed
qed

lemma finish_hello_wf:
  assumes "server_wf s"
  shows "server_wf (snd (finish_hello reply s))"
proof -
  define s1 where "s1 = hs_sound ''connected'' (if reply \<noteq> ''HRU'' then s\<lparr>pending := Some reply\<rparr> else s)"
  obtain x s2 where x: "identify s1 = (x, s2)" by force
  have "only_link s1 s2" using x iam_loop_only_link by (auto simp: identify_def split: if_splits)
  moreover have "server_wf s1" using assms by (simp add: s1_def)
  ultimately have "server_wf s2" by (rule only_link_wf)
  then show ?thesis using assms x by (cases x) (simp_all add: finish_hello_def Let_def s1_def [symmetric])
qed

lemma await_hru_wf: "server_wf s \<Longrightarrow> server_wf (snd (await_hru tail s))"
proof -
  assume wf: "server_wf s"
  obtain x s1 where x: "hru_loop HELLO_RETRIES (clk s + HANDSHAKE_TIMEOUT) tail s = (x, s1)" by force
  have "server_wf s1" using hru_loop_only_link [OF x] only_link_wf wf by blast
  then show ?thesis
    using x finish_hello_wf by (cases x rule: outcome_cases) (simp_all add: await_hru_def)
qed

lemma hello_wf:
  assumes "server_wf s"
  shows "server_wf (snd (handle_hello line s))"
proof -
  let ?s = "hs_sound ''dial'' s" and ?p = "split_ws line"
  have "server_wf (snd (greet ?p s))"
  proof (cases "options (drop 2 ?p)")
    case (Inr caps)
    obtain x s1 where n: "negotiate caps ?s = (x, s1)" by force
    have "server_wf s1" using negotiate_wf [OF n _ Inr] assms by simp
    then show ?thesis using Inr n await_hru_wf by (cases x) (simp_all add: greet_def)
  qed (simp add: greet_def assms)
  then show ?thesis using assms by (simp add: handle_hello_def Let_def)
qed

subsection \<open>Transfers and sessions\<close>

lemma prepare_wf: "server_wf s \<Longrightarrow> server_wf (prepare d s)"
proof -
  assume wf: "server_wf s"
  let ?n = "negotiated_block_limit s"
  have n: "1 \<le> ?n" "?n \<le> MAX_BLOCK_SIZE" using wf by (simp_all add: server_wf_def)
  have "1 \<le> choose_block (length d) ?n (window_size s) (baud (cfg s))
      \<and> choose_block (length d) ?n (window_size s) (baud (cfg s)) \<le> MAX_BLOCK_SIZE"
    using choose_block_bounds [OF n(1)] n(2) le_trans by blast
  then show ?thesis using wf by (auto simp: prepare_def file_block_def server_wf_def server_ok_def Let_def)
qed

lemma send_file_wf: "server_wf s \<Longrightarrow> server_wf (snd (send_file name d s))"
  by (rule keeps_wf [OF send_file_keeps [OF surjective_pairing] prepare_wf])

lemma get_wf:
  assumes "server_wf s"
  shows "server_wf (snd (handle_get getter line s))"
proof -
  have failed: "server_wf (snd (get_failed e s1))" if "server_wf s1" for e s1
    using that by (simp add: get_failed_def)
  have "server_wf (snd (after_fetch name r s1))" if "server_wf s1" for name r s1
    using that failed send_file_wf by (cases "(name, r, s1)" rule: after_fetch.cases) simp_all
  then show ?thesis
    using assms failed by (simp add: handle_get_def Let_def split: sum.split)
qed

fun ends_wf :: "serve_result \<Rightarrow> bool" where
  "ends_wf (Again s) = server_wf s"
| "ends_wf (Leave (r, s)) = server_wf s"

lemma served_wf: "server_wf s \<Longrightarrow> ends_wf (served (r, s))"
  by (cases r rule: outcome_cases) simp_all

lemma greeted_wf: "server_wf s \<Longrightarrow> ends_wf (greeted (r, s))"
  by (cases r) simp_all

lemma hang_up_wf: "server_wf s \<Longrightarrow> server_wf (snd (hang_up s))"
  by (simp add: hang_up_def with_link_def Let_def)

lemma next_request_wf: "server_wf s \<Longrightarrow> server_wf (snd (next_request t idle s))"
  using only_link_wf [OF srv_recv_only_link [OF surjective_pairing]]
  by (simp add: next_request_def split: option.split)

lemma serve_pass_wf:
  assumes "server_wf s"
  shows "ends_wf (serve_pass getter t idle s)"
proof -
  obtain r s1 where n: "next_request t idle s = (r, s1)" by force
  have wf: "server_wf s1" using next_request_wf [OF assms, of t idle] n by simp
  have g: "ends_wf (greeted (handle_hello q s1))" for q
    using greeted_wf [OF hello_wf [OF wf, of q], of "fst (handle_hello q s1)"] by simp
  have v: "ends_wf (served (handle_get getter q (s1\<lparr>transfer_active := True\<rparr>)))" for q
    using served_wf [of "snd (handle_get getter q (s1\<lparr>transfer_active := True\<rparr>))"
        "fst (handle_get getter q (s1\<lparr>transfer_active := True\<rparr>))"] get_wf wf by simp
  have h: "ends_wf (Leave (hang_up s1))" using hang_up_wf [OF wf] by (cases "hang_up s1") simp
  show ?thesis using n wf g v h by (cases r) (simp_all add: serve_pass_def)
qed

lemma serve_loop_wf: "server_wf s \<Longrightarrow> server_wf (snd (serve_loop getter t idle s))"
proof (induction getter t idle s rule: serve_loop.induct)
  case (1 getter t idle s)
  note p = serve_pass_wf [OF 1(2), of getter t idle]
  show ?case
  proof (cases "serve_pass getter t idle s")
    case (Leave x)
    then show ?thesis using p by (cases x) (simp add: serve_loop.simps [of getter t idle s])
  next
    case (Again s1)
    then show ?thesis using p 1(1) by (simp add: serve_loop.simps [of getter t idle s])
  qed
qed

lemma serve_once_wf:
  assumes "server_wf s"
  shows "server_wf (snd (serve_once getter t idle s))"
proof -
  obtain r s1 where r: "srv_recv t None False (s\<lparr>pending := None\<rparr>) = (r, s1)" by force
  have wf: "server_wf s1" using only_link_wf [OF srv_recv_only_link [OF r]] assms by simp
  have "server_wf (snd (after_hello getter t idle (handle_hello line s1)))" for line
    using hello_wf [OF wf, of line] serve_loop_wf
    by (cases "(getter, t, idle, handle_hello line s1)" rule: after_hello.cases) auto
  then show ?thesis using r wf by (cases r) (simp_all add: serve_once_def)
qed

fun daemon_wf :: "daemon_result \<Rightarrow> bool" where
  "daemon_wf None = True"
| "daemon_wf (Some (Again d)) = server_wf (srv d)"
| "daemon_wf (Some (Leave (e, d))) = server_wf (srv d)"

lemma reconnected_wf: "server_wf s \<Longrightarrow> daemon_wf (reconnected s n q)"
  by (cases "(s, n, q)" rule: reconnected.cases) simp_all

lemma after_session_wf: "server_wf s \<Longrightarrow> daemon_wf (after_session u n (r, s))"
  by (cases r) (simp_all add: reconnected_wf drained_def)

lemma serial_loop_wf: "server_wf (srv d) \<Longrightarrow> daemon_wf (serial_loop n u getter t d)"
proof (induction n arbitrary: d)
  case (Suc n)
  obtain r s1 where r: "serve_once getter t True (srv d) = (r, s1)" by force
  have wf: "daemon_wf (serial_pass u getter t d)"
    using after_session_wf serve_once_wf [OF Suc.prems, of getter t True] r by (simp add: serial_pass_def)
  show ?case
    using wf Suc.IH by (cases "serial_pass u getter t d" rule: daemon_wf.cases) simp_all
qed simp

lemma server_init_wf:
  "server_init l bs max_size ack_t retries_n bd ka window lz guard probe_t probe_n = Inr s \<Longrightarrow> server_wf s"
  by (auto simp: server_init_def server_wf_def server_ok_def Let_def const_defs split: if_splits sum.splits)

text \<open>C6: the settings of a server are well typed for ever: from \<open>__init__\<close> on, after any number of
  sessions with peers that send anything at all and any number of reconnects, block sizes are in
  \<open>1..MAX_BLOCK_SIZE\<close> and the window in \<open>1..MAX_WINDOW\<close>, the negotiated ones as well as the configured.\<close>

theorem server_well_typed:
  assumes "server_init l bs max_size ack_t retries_n bd ka window lz guard probe_t probe_n = Inr s"
    and "serial_loop n u getter t \<lparr>srv = s, lost_streak = 0\<rparr> = Some r"
  shows "server_wf (case r of Again d \<Rightarrow> srv d | Leave (e, d) \<Rightarrow> srv d)"
  using serial_loop_wf [of "\<lparr>srv = s, lost_streak = 0\<rparr>" n u getter t] server_init_wf [OF assms(1)] assms(2)
  by (cases r) (auto split: prod.splits)

lemma server_well_typed_witness: "\<exists>d. doomed = Some (Leave (ValueErr, d)) \<and> server_wf (srv d)"
proof -
  obtain d where d: "doomed = Some (Leave (ValueErr, d))"
    using doomed_run by (auto split: option.splits pass.splits)
  have i: "server_init (fresh_link es) None MAX_FILE_SIZE ACK_TIMEOUT MAX_RETRIES BASE_BAUDRATE default_keepalive MAX_WINDOW
      True PROBE_GUARD PROBE_TIMEOUT PROBE_RETRIES = Inr (demo_server es)" for es
    by (simp add: demo_server_def server_init_def keepalive_check_def default_keepalive_def const_defs Let_def)
  then show ?thesis using server_well_typed [OF i d [unfolded doomed_def]] d by (intro exI [of _ d]) simp
qed

end
