(* ===== verification/CommandLine.thy ===== *)
theory CommandLine
  imports Settings
begin

text \<open>
  The command line of \<open>pcutpd serve\<close> as far as it reaches the server: \<open>_block_size\<close>, the choice of
  \<open>--window\<close>, the defaults of \<open>build_parser\<close>, and the call of \<open>PcutpServer\<close> in \<open>run_serial\<close>.  A
  usage error of argparse is \<open>None\<close>.  Of what Python's \<open>int\<close> takes, the ASCII part is modelled.
\<close>

subsection \<open>Parsing\<close>

fun digits_ok :: "string \<Rightarrow> bool" where
  "digits_ok [] = False"
| "digits_ok [c] = is_digit c"
| "digits_ok (c # d # cs) = (is_digit c \<and> (if d = CHR ''_'' then digits_ok cs else digits_ok (d # cs)))"

definition sign_of :: "string \<Rightarrow> int \<times> string" where
  "sign_of t =
     (case t of
        c # u \<Rightarrow> if c = CHR ''-'' then (-1, u) else if c = CHR ''+'' then (1, u) else (1, t)
      | [] \<Rightarrow> (1, []))"

definition py_int :: "string \<Rightarrow> int option" where
  "py_int t =
     (let (sg, u) = sign_of (strip t)
      in if digits_ok u then Some (sg * int (int_of (filter (\<lambda>c. c \<noteq> CHR ''_'') u))) else None)"

definition block_arg :: "string \<Rightarrow> nat option option" where
  "block_arg v =
     (if v = ''auto'' then Some None
      else case py_int v of
        None \<Rightarrow> None
      | Some n \<Rightarrow> if \<not> (1 \<le> n \<and> n \<le> int MAX_BLOCK_SIZE) then None else Some (Some (nat n)))"

definition window_arg :: "string \<Rightarrow> nat option" where
  "window_arg v = (case py_int v of None \<Rightarrow> None | Some n \<Rightarrow> if n = 1 \<or> n = 2 then Some (nat n) else None)"

subsection \<open>The control socket's path\<close>

text \<open>Paths that exist; \<open>True\<close> for a socket.  \<open>None\<close>: \<open>FileExistsError\<close>, an \<open>OSError\<close>.\<close>

definition control_open :: "string \<Rightarrow> (string \<rightharpoonup> bool) \<Rightarrow> (string \<rightharpoonup> bool) option" where
  "control_open path fs = (if fs path = Some False then None else Some (fs(path \<mapsto> True)))"

definition control_close :: "string \<Rightarrow> (string \<rightharpoonup> bool) \<Rightarrow> (string \<rightharpoonup> bool)" where
  "control_close path fs = (if fs path = Some True then fs(path := None) else fs)"

subsection \<open>The server of the daemon\<close>

record serve_args =
  arg_port :: string
  arg_baud :: nat
  arg_max_size :: nat
  arg_no_compression :: bool
  arg_window :: nat
  arg_block :: "nat option"
  arg_idle_timeout :: msec
  arg_control_socket :: string
  arg_keepalive_interval :: msec
  arg_keepalive_timeout :: msec
  arg_keepalive_retries :: nat
  arg_beacon_interval :: msec

definition serve_defaults :: serve_args where
  "serve_defaults =
     \<lparr>arg_port = ''auto'', arg_baud = BASE_BAUDRATE, arg_max_size = MAX_FILE_SIZE,
      arg_no_compression = False, arg_window = 2, arg_block = None, arg_idle_timeout = 3600000,
      arg_control_socket = ''/tmp/pcutpd.sock'',
      arg_keepalive_interval = KEEPALIVE_INTERVAL, arg_keepalive_timeout = KEEPALIVE_TIMEOUT,
      arg_keepalive_retries = KEEPALIVE_RETRIES, arg_beacon_interval = BEACON_INTERVAL\<rparr>"

definition daemon_keepalive :: "serve_args \<Rightarrow> keepalive" where
  "daemon_keepalive a =
     \<lparr>interval = arg_keepalive_interval a, ka_timeout = arg_keepalive_timeout a,
      retries = arg_keepalive_retries a, beacon_interval = arg_beacon_interval a,
      beacon_tx = ''U'', beacon_rx = ''P''\<rparr>"

definition daemon_server :: "serve_args \<Rightarrow> lnk \<Rightarrow> exn + server" where
  "daemon_server a l =
     server_init l (arg_block a) (arg_max_size a) ACK_TIMEOUT MAX_RETRIES (arg_baud a) (daemon_keepalive a)
       (arg_window a) (\<not> arg_no_compression a) PROBE_GUARD PROBE_TIMEOUT PROBE_RETRIES"

text \<open>\<open>run_serial\<close> up to the end of its \<open>n\<close>-th session; \<open>None\<close>: no port to be had, and the program exits.
  The sound is off, as it is by default.\<close>

definition run_serial ::
  "serve_args \<Rightarrow> (string \<times> string) list \<Rightarrow> (string \<rightharpoonup> bool) \<Rightarrow> usb \<Rightarrow> fetcher \<Rightarrow> msec \<Rightarrow> nat
     \<Rightarrow> (exn + daemon_result) option" where
  "run_serial a found fs u getter now n =
     (case resolve_port (arg_port a) found of
        None \<Rightarrow> None
      | Some port \<Rightarrow>
          Some (case opens u now of
            None \<Rightarrow> Inl OSErr
          | Some es \<Rightarrow>
              if control_open (arg_control_socket a) fs = None then Inl OSErr
              else (case daemon_server a ((fresh_link es)\<lparr>clock := now\<rparr>) of
                 Inl e \<Rightarrow> Inl e
               | Inr s \<Rightarrow> Inr (serial_loop n u getter (arg_idle_timeout a) \<lparr>srv = s, lost_streak = 0\<rparr>))))"

subsection \<open>What the parser admits\<close>

lemma digits_ok_isdecimal: "isdecimal t \<Longrightarrow> digits_ok t"
proof (induction t rule: digits_ok.induct)
  case (3 c d cs)
  then show ?case by (auto simp: isdecimal_def is_digit_def Let_def)
qed (simp_all add: isdecimal_def)

lemma strip_isdecimal: "isdecimal t \<Longrightarrow> strip t = t"
proof -
  assume d: "isdecimal t"
  then have ns: "\<not> is_space c" if "c \<in> set t" for c
    using that by (auto simp: isdecimal_def list_all_iff dest: digit_not_space)
  have *: "dropWhile is_space u = u" if "set u = set t" for u
    using that ns by (cases u) auto
  then show "strip t = t" by (simp add: strip_def)
qed

lemma py_int_isdecimal: "isdecimal t \<Longrightarrow> py_int t = Some (int (int_of t))"
proof -
  assume d: "isdecimal t"
  then obtain c u where t: "t = c # u" and c: "is_digit c" by (cases t) (auto simp: isdecimal_def)
  have "c \<noteq> CHR ''-''" "c \<noteq> CHR ''+''" using c by (auto simp: is_digit_def Let_def)
  then have s: "sign_of t = (1, t)" by (simp add: sign_of_def t)
  have "filter (\<lambda>c. c \<noteq> CHR ''_'') t = t"
    using d by (auto simp: filter_id_conv isdecimal_def list_all_iff is_digit_def Let_def)
  then show ?thesis using s d by (simp add: py_int_def strip_isdecimal digits_ok_isdecimal)
qed

text \<open>What Python prints of a number is read back, and taken in its range only.\<close>

theorem block_arg_printed:
  "block_arg (str_of n) = (if 1 \<le> n \<and> n \<le> MAX_BLOCK_SIZE then Some (Some n) else None)"
proof -
  have "str_of n \<noteq> ''auto''"
  proof
    assume "str_of n = ''auto''"
    then have "isdecimal ''auto''" by (metis isdecimal_str_of)
    then show False by (simp add: isdecimal_def is_digit_def)
  qed
  then show ?thesis by (simp add: block_arg_def py_int_isdecimal const_defs)
qed

lemma block_arg_range: "block_arg v = Some (Some n) \<Longrightarrow> 1 \<le> n \<and> n \<le> MAX_BLOCK_SIZE"
  by (auto simp: block_arg_def const_defs split: if_splits option.splits)

lemma window_arg_range: "window_arg w = Some k \<Longrightarrow> 1 \<le> k \<and> k \<le> MAX_WINDOW"
  by (auto simp: window_arg_def const_defs split: if_splits option.splits)

text \<open>So the block and window settings of the command line never make \<open>__init__\<close> raise; the keep-alive
  settings are not checked by the parser and can.\<close>

definition keepalive_sane :: "serve_args \<Rightarrow> bool" where
  "keepalive_sane a \<longleftrightarrow> 0 < arg_keepalive_interval a \<and> 0 < arg_keepalive_timeout a
     \<and> 1 \<le> arg_keepalive_retries a \<and> 0 < arg_beacon_interval a"

theorem daemon_server_starts:
  assumes "block_arg v = Some (arg_block a)" "window_arg w = Some (arg_window a)"
  shows "(\<exists>s. daemon_server a l = Inr s) \<longleftrightarrow> keepalive_sane a"
proof -
  have "1 \<le> n \<and> n \<le> MAX_BLOCK_SIZE" if "arg_block a = Some n" for n
    using block_arg_range [of v n] assms(1) that by simp
  then show ?thesis
    using window_arg_range [OF assms(2)]
    by (auto simp: daemon_server_def server_init_def keepalive_check_def daemon_keepalive_def keepalive_sane_def
        Let_def const_defs split: option.splits)
qed

theorem run_serial_wf:
  assumes "run_serial a found fs u getter now n = Some (Inr r)"
  shows "daemon_wf r"
  using assms server_init_wf [of _ "arg_block a" "arg_max_size a"]
  by (auto simp: run_serial_def daemon_server_def intro!: serial_loop_wf split: option.splits sum.splits if_splits)

lemma serve_defaults_start: "daemon_server serve_defaults (fresh_link es) = Inr (demo_server es)"
  by (simp add: daemon_server_def serve_defaults_def demo_server_def server_init_def keepalive_check_def
      daemon_keepalive_def default_keepalive_def const_defs Let_def)

text \<open>The control socket never takes a path from a file that is not a socket, and leaves no file behind.\<close>

lemma control_spares_files:
  "control_open path fs = Some fs1 \<Longrightarrow> fs p = Some False \<Longrightarrow> fs1 p = Some False \<and> control_close path fs1 p = Some False"
  by (auto simp: control_open_def control_close_def split: if_splits)

lemma control_open_close:
  "control_open path fs = Some fs1 \<Longrightarrow> control_close path fs1 = fs(path := None)"
  by (auto simp: control_open_def control_close_def split: if_splits)

end
