(* ===== verification/Player.thy ===== *)
theory Player
  imports Sound
begin

text \<open>
  The audio thread of \<open>sound.py\<close>: \<open>_render\<close> cuts the newest event into chunks for the player, with a
  crossfade where one event replaces another.  A pcm is the list of its 16-bit samples, so that the
  byte offsets of the code are twice the indices here; the synthesis of a tone is the parameter
  \<open>wave\<close>.  Whether the event is another object than the one rendered last is the argument \<open>fresh\<close>.
\<close>

definition RATE :: nat where [const_defs]: "RATE = 22050"
definition CHUNK_FRAMES :: nat where [const_defs]: "CHUNK_FRAMES = 220"
definition FADE_FRAMES :: nat where [const_defs]: "FADE_FRAMES = 110"

record player =
  current :: "int list"
  position :: nat
  rendered_events :: nat
  max_render_delay :: msec

definition silence :: "int list" where
  "silence = replicate CHUNK_FRAMES 0"

definition ljust :: "nat \<Rightarrow> int list \<Rightarrow> int list" where
  "ljust n xs = xs @ replicate (n - length xs) 0"

text \<open>\<open>int(a / b)\<close> rounds towards zero.\<close>

definition trunc_div :: "int \<Rightarrow> int \<Rightarrow> int" where
  "trunc_div a b = sgn a * (\<bar>a\<bar> div b)"

definition mix :: "int list \<Rightarrow> int list \<Rightarrow> int list" where
  "mix old new =
     map (\<lambda>i. trunc_div (old ! i * (int FADE_FRAMES - int i) + new ! i * int i) (int FADE_FRAMES)) [0..<FADE_FRAMES]
     @ drop FADE_FRAMES new"

text \<open>The part of \<open>_render\<close> that takes up a new event; the result is what fades out.\<close>

definition take_up :: "msec \<Rightarrow> msec \<Rightarrow> int list \<Rightarrow> player \<Rightarrow> int list \<times> player" where
  "take_up now at pcm p =
     (take FADE_FRAMES (drop (position p) (current p)),
      p\<lparr>rendered_events := rendered_events p + 1, max_render_delay := max (max_render_delay p) (now - at),
        current := (if (now - at) * int RATE < int (length pcm) * 1000 then pcm else []), position := 0\<rparr>)"

definition next_chunk :: "player \<Rightarrow> int list \<times> player" where
  "next_chunk p =
     (ljust CHUNK_FRAMES (take CHUNK_FRAMES (drop (position p) (current p))),
      p\<lparr>position := position p + CHUNK_FRAMES\<rparr>)"

fun render :: "(tone \<Rightarrow> int list) \<Rightarrow> msec \<Rightarrow> bool \<Rightarrow> (msec \<times> tone) option \<Rightarrow> player \<Rightarrow> int list \<times> player" where
  "render wave now fresh None p = (silence, p)"
| "render wave now fresh (Some (at, t)) p =
     (if fresh
      then let (fading, p1) = take_up now at (wave t) p; (chunk, p2) = next_chunk p1
        in (mix (ljust FADE_FRAMES fading) chunk, p2)
      else next_chunk p)"

text \<open>\<open>_pump\<close>: what each pass writes to the player.  A tick is the time of the pass and the event it finds.\<close>

fun pump :: "(tone \<Rightarrow> int list) \<Rightarrow> (msec \<times> bool \<times> (msec \<times> tone) option) list \<Rightarrow> player \<Rightarrow> int list list \<times> player" where
  "pump wave [] p = ([], p)"
| "pump wave ((now, fresh, e) # ticks) p =
     (let (chunk, p1) = render wave now fresh e p; (chunks, p2) = pump wave ticks p1 in (chunk # chunks, p2))"

definition player_init :: player where
  "player_init = \<lparr>current = [], position = 0, rendered_events = 0, max_render_delay = 0\<rparr>"

subsection \<open>What the player gets\<close>

definition sample_ok :: "int \<Rightarrow> bool" where
  "sample_ok v \<longleftrightarrow> -32768 \<le> v \<and> v \<le> 32767"

lemma trunc_div_range:
  assumes "0 < n" "l * n \<le> a" "a \<le> h * n" "l \<le> 0" "0 \<le> h"
  shows "l \<le> trunc_div a n \<and> trunc_div a n \<le> h"
proof (cases "0 \<le> a")
  case True
  then have "a div n \<le> h" "0 \<le> a div n"
    using assms zdiv_mono1 [of a "h * n" n] by (simp_all add: pos_imp_zdiv_nonneg_iff)
  then show ?thesis using True assms(4) by (cases "a = 0") (simp_all add: trunc_div_def)
next
  case False
  have "- a \<le> - l * n" using assms(2) by simp
  then have "(- a) div n \<le> - l * n div n" using assms(1) by (rule zdiv_mono1)
  then have "(- a) div n \<le> - l" using assms(1) by (simp only: nonzero_mult_div_cancel_right)
  moreover have "0 \<le> (- a) div n" using False assms(1) by (simp add: pos_imp_zdiv_nonneg_iff)
  ultimately show ?thesis using False assms(5) by (simp add: trunc_div_def)
qed

lemma convex_bound:
  assumes "a \<le> (h :: int)" "b \<le> h" "0 \<le> i" "i \<le> n"
  shows "a * (n - i) + b * i \<le> h * n"
proof -
  have "a * (n - i) \<le> h * (n - i)" "b * i \<le> h * i" using assms by (simp_all add: mult_right_mono)
  then show ?thesis by (simp add: algebra_simps)
qed

lemma crossfade_fits:
  assumes "sample_ok a" "sample_ok b" "i \<le> FADE_FRAMES"
  shows "sample_ok (trunc_div (a * (int FADE_FRAMES - int i) + b * int i) (int FADE_FRAMES))"
proof -
  let ?n = "int FADE_FRAMES" and ?i = "int i"
  have hi: "a * (?n - ?i) + b * ?i \<le> 32767 * ?n"
    by (rule convex_bound) (use assms in \<open>simp_all add: sample_ok_def\<close>)
  have "- a * (?n - ?i) + - b * ?i \<le> 32768 * ?n"
    by (rule convex_bound) (use assms in \<open>simp_all add: sample_ok_def\<close>)
  then have "- 32768 * ?n \<le> a * (?n - ?i) + b * ?i" by linarith
  then show ?thesis
    using trunc_div_range [of ?n "- 32768" "a * (?n - ?i) + b * ?i" 32767] hi by (simp add: sample_ok_def const_defs)
qed

lemma length_ljust: "length xs \<le> n \<Longrightarrow> length (ljust n xs) = n"
  by (simp add: ljust_def)

lemma ljust_ok: "list_all sample_ok xs \<Longrightarrow> list_all sample_ok (ljust n xs)"
  by (auto simp: ljust_def list_all_iff sample_ok_def)

lemma slice_ok: "list_all sample_ok xs \<Longrightarrow> list_all sample_ok (take n (drop m xs))"
  by (auto simp: list_all_iff dest: in_set_takeD in_set_dropD)

lemma chunk_ok:
  "length (fst (next_chunk p)) = CHUNK_FRAMES"
  "list_all sample_ok (current p) \<Longrightarrow> list_all sample_ok (fst (next_chunk p))"
  by (simp_all add: next_chunk_def length_ljust ljust_ok slice_ok)

lemma mix_ok:
  assumes "length old = FADE_FRAMES" "length new = CHUNK_FRAMES" "list_all sample_ok old" "list_all sample_ok new"
  shows "length (mix old new) = CHUNK_FRAMES" "list_all sample_ok (mix old new)"
proof -
  show "length (mix old new) = CHUNK_FRAMES" using assms(2) by (simp add: mix_def const_defs)
  have "sample_ok (old ! i)" "sample_ok (new ! i)" if "i < FADE_FRAMES" for i
    using that assms by (simp_all add: list_all_length const_defs)
  then show "list_all sample_ok (mix old new)"
    using assms(4) crossfade_fits by (auto simp: mix_def list_all_iff dest: in_set_dropD)
qed

text \<open>Every chunk fills its time slice, and no sample leaves the 16 bits that \<open>struct.pack\<close> takes.\<close>

lemma render_fits:
  assumes "\<And>t. list_all sample_ok (wave t)" "list_all sample_ok (current p)"
  shows "length (fst (render wave now fresh e p)) = CHUNK_FRAMES
    \<and> list_all sample_ok (fst (render wave now fresh e p)) \<and> list_all sample_ok (current (snd (render wave now fresh e p)))"
proof (cases e)
  case None
  then show ?thesis using assms(2) by (simp add: silence_def list_all_iff sample_ok_def)
next
  case (Some x)
  obtain at t where x: "x = (at, t)" by force
  obtain fading p1 where u: "take_up now at (wave t) p = (fading, p1)" by force
  have f: "length fading \<le> FADE_FRAMES" "list_all sample_ok fading" "list_all sample_ok (current p1)"
    using u assms slice_ok by (auto simp: take_up_def)
  show ?thesis
  proof (cases fresh)
    case True
    then show ?thesis
      using Some x u f mix_ok [OF length_ljust [OF f(1)] chunk_ok(1) ljust_ok [OF f(2)] chunk_ok(2) [OF f(3)]]
      by (cases "next_chunk p1") (auto simp: next_chunk_def)
  next
    case False
    then show ?thesis using Some x chunk_ok [of p] assms(2) by (simp add: next_chunk_def)
  qed
qed

text \<open>Without a new event the chunks are consecutive slices of the tone: nothing is skipped or repeated.\<close>

lemma ljust_append:
  "ljust n (take n xs) @ ljust n (take n (drop n xs)) = ljust (2 * n) (take (2 * n) xs)"
proof (cases "length xs \<le> n")
  case True
  then have "replicate (n - length xs) (0 :: int) @ replicate n 0 = replicate (2 * n - length xs) 0"
    by (simp flip: replicate_add)
  then show ?thesis using True by (simp add: ljust_def)
next
  case False
  then show ?thesis by (simp add: ljust_def take_add [of n n xs, folded mult_2])
qed

lemma render_continues:
  "fst (render wave now False (Some e) p) @ fst (render wave now' False (Some e) (snd (render wave now False (Some e) p)))
   = ljust (2 * CHUNK_FRAMES) (take (2 * CHUNK_FRAMES) (drop (position p) (current p)))"
  using ljust_append [of CHUNK_FRAMES "drop (position p) (current p)"]
  by (cases e) (simp add: next_chunk_def add.commute)

lemma render_counts:
  "rendered_events (snd (render wave now fresh e p)) = rendered_events p + (if fresh \<and> e \<noteq> None then 1 else 0)"
  by (cases "(wave, now, fresh, e, p)" rule: render.cases) (simp_all add: take_up_def next_chunk_def)

lemma pump_ok:
  assumes "\<And>t. list_all sample_ok (wave t)"
  shows "list_all sample_ok (current p) \<Longrightarrow>
    list_all (\<lambda>chunk. length chunk = CHUNK_FRAMES \<and> list_all sample_ok chunk) (fst (pump wave ticks p))
    \<and> rendered_events (snd (pump wave ticks p)) =
        rendered_events p + length (filter (\<lambda>(now, fresh, e). fresh \<and> e \<noteq> None) ticks)"
proof (induction ticks arbitrary: p)
  case (Cons x ticks)
  obtain now fresh e where x: "x = (now, fresh, e)" by (cases x)
  obtain chunk p1 where r: "render wave now fresh e p = (chunk, p1)" by force
  obtain chunks p2 where q: "pump wave ticks p1 = (chunks, p2)" by force
  show ?case
    using Cons.IH [of p1] render_fits [of wave p now fresh e, OF assms Cons.prems] render_counts [of wave now fresh e p] r q
    by (simp add: x)
qed simp


definition demo_wave :: "tone \<Rightarrow> int list" where
  "demo_wave t = (if t = Plain ''META'' then replicate 500 32767 else replicate 300 (-32768))"

definition demo_ticks :: "(msec \<times> bool \<times> (msec \<times> tone) option) list" where
  "demo_ticks = [(0, False, None), (11, True, Some (10, Plain ''META'')), (20, True, Some (19, Plain ''ERR''))]"


end
